(* ===== verification/Prelude.thy ===== *)
theory Prelude
  imports Main "HOL-Library.Word" "HOL-Library.Signed_Division" "HOL-Library.Multiset"
begin

text \<open>
  Shared vocabulary of the development: the ways a Go statement of this repository can stop
  with a run-time panic, the sequencing of statements that may panic, Go's fixed-width
  arithmetic, the two shapes of counting \<open>for\<close> loop the code uses, and the swap-with-last
  removal loop that \<open>core/updater.go\<close> and \<open>core/communicator.go\<close> both contain.
\<close>

section \<open>Panics\<close>

datatype go_panic =
    OutsideWindow      \<comment> \<open>the explicit \<open>panic\<close> of \<open>posToIndex\<close>\<close>
  | IndexOutOfRange    \<comment> \<open>slice index outside \<open>[0, len)\<close>\<close>
  | DivideByZero
  | MakeNegative       \<comment> \<open>\<open>make\<close> with a negative length\<close>
  | NilMapWrite        \<comment> \<open>assignment to an entry in a nil map\<close>
  | NilDereference
  | Collision int      \<comment> \<open>the explicit \<open>panic\<close> of \<open>AbsorbEventBundle\<close>, with the id\<close>
  | LoopCounterWraps   \<comment> \<open>an \<open>int32\<close> counter of a \<open><=\<close> loop passed \<open>MaxInt32\<close>\<close>
  | OutOfFuel          \<comment> \<open>a bounded recursion of the model ran out: proved impossible\<close>
  | ClosedChannel      \<comment> \<open>send on, or close of, a closed channel\<close>
  | NilClose           \<comment> \<open>close of a nil channel\<close>
  | UserPanic          \<comment> \<open>a panic raised by code the engine calls back\<close>
  | AlreadyStarted
  | NotStarted

named_theorems go_eval \<open>equations that execute a statement sequence\<close>
named_theorems go_inv \<open>preservation of the invariants of the components\<close>

text \<open>Statements in sequence: a panic of the first is the panic of the whole.\<close>

fun seq :: "go_panic + 'a \<Rightarrow> ('a \<Rightarrow> go_panic + 'b) \<Rightarrow> go_panic + 'b" where
  "seq (Inl e) f = Inl e"
| "seq (Inr x) f = f x"

lemma seq_Inr_iff: "seq m f = Inr y \<longleftrightarrow> (\<exists>x. m = Inr x \<and> f x = Inr y)"
  by (cases m) auto

lemma seq_Inl_iff: "seq m f = Inl e \<longleftrightarrow> m = Inl e \<or> (\<exists>x. m = Inr x \<and> f x = Inl e)"
  by (cases m) auto

lemma seq_cong [fundef_cong]:
  "m = m' \<Longrightarrow> (\<And>x. m' = Inr x \<Longrightarrow> f x = g x) \<Longrightarrow> seq m f = seq m' g"
  by (cases m') auto

lemma seq_assoc: "seq (seq m f) g = seq m (\<lambda>x. seq (f x) g)"
  by (cases m) auto

lemma seq_Inr_right [simp]: "seq m Inr = m"
  by (cases m) auto

text \<open>A \<open>range\<close> loop over a slice, whose body may panic.\<close>

fun fold_res :: "('x \<Rightarrow> 's \<Rightarrow> go_panic + 's) \<Rightarrow> 'x list \<Rightarrow> 's \<Rightarrow> go_panic + 's" where
  "fold_res f [] s = Inr s"
| "fold_res f (x # xs) s = seq (f x s) (fold_res f xs)"

lemma fold_res_append:
  "fold_res f (xs @ ys) s = seq (fold_res f xs s) (fold_res f ys)"
  by (induction xs arbitrary: s) (simp_all add: seq_assoc cong: seq_cong)

lemma fold_res_cong [fundef_cong]:
  "xs = ys \<Longrightarrow> s = t \<Longrightarrow> (\<And>x s. x \<in> set ys \<Longrightarrow> f x s = g x s) \<Longrightarrow>
   fold_res f xs s = fold_res g ys t"
  by (induction xs arbitrary: s t ys) (auto intro!: seq_cong)

lemma fold_res_pure: "fold_res (\<lambda>x s. Inr (f x s)) xs s = Inr (fold f xs s)"
  by (induction xs arbitrary: s) auto

lemma fold_res_total:
  assumes "\<And>x s. x \<in> set xs \<Longrightarrow> I s \<Longrightarrow> f x s = Inr (g x s) \<and> I (g x s)" and "I s"
  shows "fold_res f xs s = Inr (fold g xs s) \<and> I (fold g xs s)"
  using assms
proof (induction xs arbitrary: s)
  case Nil
  then show ?case by simp
next
  case (Cons x xs)
  then have "f x s = Inr (g x s)" and "I (g x s)" by auto
  with Cons show ?case by simp
qed

section \<open>Fixed-width integers\<close>

text \<open>
  Go integers are two's complement and wrap silently. They are carried as \<open>int\<close>, and every
  arithmetic result and every conversion of the code is passed through the truncation of its
  type, so that the wrap-around is where the code has it. \<open>StateFrame\<close> is an \<open>int32\<close>,
  \<open>int\<close> and \<open>int64\<close> are 64 bits wide.
\<close>

definition i32 :: "int \<Rightarrow> int" where
  "i32 x = signed_take_bit 31 x"

definition i64 :: "int \<Rightarrow> int" where
  "i64 x = signed_take_bit 63 x"

abbreviation max_i32 :: int where
  "max_i32 \<equiv> 2147483647"

definition in_i32 :: "int \<Rightarrow> bool" where
  "in_i32 x \<longleftrightarrow> - 2147483648 \<le> x \<and> x \<le> max_i32"

definition in_i64 :: "int \<Rightarrow> bool" where
  "in_i64 x \<longleftrightarrow> - (2 ^ 63) \<le> x \<and> x < 2 ^ 63"

lemma i32_id [simp]: "- 2147483648 \<le> x \<Longrightarrow> x \<le> max_i32 \<Longrightarrow> i32 x = x"
  unfolding i32_def by (rule signed_take_bit_int_eq_self) auto

lemma i64_id [simp]: "- (2 ^ 63) \<le> x \<Longrightarrow> x < 2 ^ 63 \<Longrightarrow> i64 x = x"
  unfolding i64_def by (rule signed_take_bit_int_eq_self) auto

lemma in_i32_i32: "in_i32 (i32 x)"
  using signed_take_bit_int_greater_eq_minus_exp [of 31 x] signed_take_bit_int_less_exp [of 31 x]
  by (simp add: in_i32_def i32_def)

lemma i32_eq_mod: "i32 x = (x + 2147483648) mod 4294967296 - 2147483648"
  using signed_take_bit_eq_take_bit_shift [of 31 x]
  by (simp add: i32_def take_bit_eq_mod)

lemma i32_wraps: "i32 (max_i32 + 1) = - 2147483648"
  by (simp add: i32_eq_mod)

section \<open>Counting loops over frames\<close>

text \<open>
  \<open>for frame := a; frame <= b; frame++\<close> over \<open>int32\<close>. When \<open>b\<close> is \<open>MaxInt32\<close> the
  counter wraps after the last frame and the Go loop goes on from \<open>MinInt32\<close>; it never exits
  normally, which is the panic \<open>LoopCounterWraps\<close> here.
\<close>

function for_le :: "int \<Rightarrow> int \<Rightarrow> (int \<Rightarrow> 's \<Rightarrow> go_panic + 's) \<Rightarrow> 's \<Rightarrow> go_panic + 's" where
  "for_le a b body s =
     (if a \<le> b
      then seq (body a s) (\<lambda>s'. if a = max_i32 then Inl LoopCounterWraps
                                 else for_le (a + 1) b body s')
      else Inr s)"
  by pat_completeness auto
termination
  by (relation "measure (\<lambda>(a, b, _, _). nat (b + 1 - a))") auto

text \<open>\<open>for frame := a; frame < b; frame++\<close>: the counter stays below \<open>b\<close>, so it cannot wrap.\<close>

function for_lt :: "int \<Rightarrow> int \<Rightarrow> (int \<Rightarrow> 's \<Rightarrow> go_panic + 's) \<Rightarrow> 's \<Rightarrow> go_panic + 's" where
  "for_lt a b body s =
     (if a < b then seq (body a s) (\<lambda>s'. for_lt (a + 1) b body s') else Inr s)"
  by pat_completeness auto
termination
  by (relation "measure (\<lambda>(a, b, _, _). nat (b - a))") auto

declare for_le.simps [simp del] for_lt.simps [simp del]

lemma for_le_done [simp]: "b < a \<Longrightarrow> for_le a b body s = Inr s"
  by (simp add: for_le.simps)

lemma for_le_step:
  "a \<le> b \<Longrightarrow> b < max_i32 \<Longrightarrow>
   for_le a b body s = seq (body a s) (\<lambda>s'. for_le (a + 1) b body s')"
  by (subst for_le.simps) (auto intro!: seq_cong)

lemma for_lt_done [simp]: "b \<le> a \<Longrightarrow> for_lt a b body s = Inr s"
  by (simp add: for_lt.simps)

lemma for_lt_step:
  "a < b \<Longrightarrow> for_lt a b body s = seq (body a s) (\<lambda>s'. for_lt (a + 1) b body s')"
  by (subst for_lt.simps) simp

text \<open>
  The loop rule: if every iteration succeeds and takes the invariant at its counter to the
  invariant at the next, the loop succeeds and ends with the invariant one past the bound.
\<close>

lemma for_le_invariant:
  assumes "I a s" and "b < max_i32" and "a \<le> b + 1"
    and "\<And>i t. a \<le> i \<Longrightarrow> i \<le> b \<Longrightarrow> I i t \<Longrightarrow> \<exists>t'. body i t = Inr t' \<and> I (i + 1) t'"
  shows "\<exists>t. for_le a b body s = Inr t \<and> I (b + 1) t"
  using assms
proof (induction "nat (b + 1 - a)" arbitrary: a s)
  case 0
  then show ?case by simp
next
  case (Suc n)
  then have ab: "a \<le> b" and n: "n = nat (b + 1 - (a + 1))" by auto
  from Suc.prems(4) [OF order_refl ab Suc.prems(1)]
  obtain s' where s': "body a s = Inr s'" "I (a + 1) s'" by blast
  have "\<exists>t. for_le (a + 1) b body s' = Inr t \<and> I (b + 1) t"
    by (rule Suc.hyps(1) [OF n s'(2)]) (use Suc.prems ab in auto)
  with s'(1) ab Suc.prems(2) show ?case by (simp add: for_le_step)
qed

lemma for_lt_invariant:
  assumes "I a s" and "a \<le> b"
    and "\<And>i t. a \<le> i \<Longrightarrow> i < b \<Longrightarrow> I i t \<Longrightarrow> \<exists>t'. body i t = Inr t' \<and> I (i + 1) t'"
  shows "\<exists>t. for_lt a b body s = Inr t \<and> I b t"
  using assms
proof (induction "nat (b - a)" arbitrary: a s)
  case 0
  then show ?case by simp
next
  case (Suc n)
  then have ab: "a < b" and n: "n = nat (b - (a + 1))" by auto
  from Suc.prems(3) [OF order_refl ab Suc.prems(1)]
  obtain s' where s': "body a s = Inr s'" "I (a + 1) s'" by blast
  have "\<exists>t. for_lt (a + 1) b body s' = Inr t \<and> I b t"
    by (rule Suc.hyps(1) [OF n s'(2)]) (use Suc.prems ab in auto)
  with s'(1) ab show ?case by (simp add: for_lt_step)
qed

section \<open>Removal by swapping with the last element\<close>

text \<open>
  \<^verbatim>\<open>
  for i := 0; i < len(xs); i++ {
    if hit(xs[i]) {
      ... xs[i] ...
      xs[i] = xs[len(xs)-1]
      xs = xs[0 : len(xs)-1]
    }
  }
  \<close>
  The loop of \<open>fulfillFinalRequests\<close>, \<open>fulfillFastRequests\<close> and of the bootstrap list of
  the Communicator. It returns the elements it hit, in order, and the remaining slice.
\<close>

function sweep :: "('x \<Rightarrow> bool) \<Rightarrow> nat \<Rightarrow> 'x list \<Rightarrow> 'x list \<times> 'x list" where
  "sweep hit i xs =
     (if i < length xs
      then if hit (xs ! i)
           then let (hs, rest) = sweep hit (Suc i) (butlast (xs[i := last xs]))
                in (xs ! i # hs, rest)
           else sweep hit (Suc i) xs
      else ([], xs))"
  by pat_completeness auto
termination
  by (relation "measure (\<lambda>(_, i, xs). length xs - i)") auto

declare sweep.simps [simp del]

lemma sweep_done: "length xs \<le> i \<Longrightarrow> sweep hit i xs = ([], xs)"
  by (simp add: sweep.simps)

lemma sweep_hit:
  "i < length xs \<Longrightarrow> hit (xs ! i) \<Longrightarrow>
   sweep hit i xs = (xs ! i # fst (sweep hit (Suc i) (butlast (xs[i := last xs]))),
                     snd (sweep hit (Suc i) (butlast (xs[i := last xs]))))"
  by (subst sweep.simps) (simp add: Let_def split_def)

lemma sweep_miss:
  "i < length xs \<Longrightarrow> \<not> hit (xs ! i) \<Longrightarrow> sweep hit i xs = sweep hit (Suc i) xs"
  by (subst sweep.simps) simp

lemmas sweep_eqs = sweep_done sweep_hit sweep_miss

lemma mset_swap_last:
  assumes "i < length xs"
  shows "add_mset (xs ! i) (mset (butlast (xs[i := last xs]))) = mset xs"
proof -
  from assms have ne: "xs \<noteq> []" by auto
  define ys where "ys = butlast xs"
  define z where "z = last xs"
  have xs: "xs = ys @ [z]" using ne by (simp add: ys_def z_def)
  show ?thesis
  proof (cases "i < length ys")
    case True
    then have "xs[i := last xs] = ys[i := z] @ [z]" by (simp add: xs list_update_append)
    with True show ?thesis
      by (simp add: xs nth_append mset_update add_mset_commute)
  next
    case False
    with assms have "i = length ys" by (simp add: xs)
    then show ?thesis by (simp add: xs)
  qed
qed

text \<open>Nothing is lost or invented: what is hit and what remains is what was there.\<close>

lemma sweep_mset: "mset (fst (sweep hit i xs)) + mset (snd (sweep hit i xs)) = mset xs"
proof (induction hit i xs rule: sweep.induct)
  case (1 hit i xs)
  show ?case
  proof (cases "i < length xs")
    case True
    note len = True
    show ?thesis
    proof (cases "hit (xs ! i)")
      case True
      with len "1.IH"(1) show ?thesis
        using mset_swap_last [OF len] by (simp add: sweep_hit)
    next
      case False
      with len "1.IH"(2) show ?thesis by (simp add: sweep_miss)
    qed
  qed (simp add: sweep_done)
qed

lemma sweep_hits: "x \<in> set (fst (sweep hit i xs)) \<Longrightarrow> hit x"
proof (induction hit i xs rule: sweep.induct)
  case (1 hit i xs)
  show ?case
  proof (cases "i < length xs")
    case True
    with 1 show ?thesis
      by (cases "hit (xs ! i)") (auto simp: sweep_hit sweep_miss)
  qed (use "1.prems" in \<open>simp add: sweep_done\<close>)
qed

text \<open>A slice in which nothing is to be hit is left as it is.\<close>

lemma sweep_none: "(\<And>x. x \<in> set xs \<Longrightarrow> \<not> hit x) \<Longrightarrow> sweep hit i xs = ([], xs)"
proof (induction hit i xs rule: sweep.induct)
  case (1 hit i xs)
  show ?case
  proof (cases "i < length xs")
    case True
    then have "\<not> hit (xs ! i)" using "1.prems" by simp
    with True "1.IH"(2) "1.prems" show ?thesis by (simp add: sweep_miss)
  qed (simp add: sweep_done)
qed

text \<open>
  The loop inspects every element unless the last element, moved into a hole, is itself to be
  hit: with at most one hit in the slice, it is complete.
\<close>

lemma sweep_single:
  assumes "length (filter hit xs) \<le> 1" and "\<And>j. j < i \<Longrightarrow> j < length xs \<Longrightarrow> \<not> hit (xs ! j)"
  shows "fst (sweep hit i xs) = filter hit xs \<and> (\<forall>x \<in> set (snd (sweep hit i xs)). \<not> hit x)"
  using assms
proof (induction hit i xs rule: sweep.induct)
  case (1 hit i xs)
  show ?case
  proof (cases "i < length xs")
    case False
    then have "\<forall>x \<in> set xs. \<not> hit x"
      using "1.prems"(2) by (metis in_set_conv_nth not_less order.strict_trans2)
    with False show ?thesis by (simp add: sweep_done filter_empty_conv)
  next
    case True
    note len = True
    show ?thesis
    proof (cases "hit (xs ! i)")
      case False
      have "fst (sweep hit (Suc i) xs) = filter hit xs \<and>
            (\<forall>x \<in> set (snd (sweep hit (Suc i) xs)). \<not> hit x)"
        by (rule "1.IH"(2) [OF len False "1.prems"(1)])
          (use "1.prems"(2) False in \<open>auto simp: less_Suc_eq\<close>)
      with len False show ?thesis by (simp add: sweep_miss)
    next
      case True
      let ?ys = "butlast (xs[i := last xs])"
      have split: "filter_mset hit (mset xs) = add_mset (xs ! i) (filter_mset hit (mset ?ys))"
        using mset_swap_last [OF len] True by (metis filter_mset_add_mset)
      moreover have "size (filter_mset hit (mset xs)) \<le> 1"
        using "1.prems"(1) by (metis mset_filter size_mset)
      ultimately have none: "filter_mset hit (mset ?ys) = {#}" by simp
      then have "filter hit ?ys = []" by (metis mset_filter mset_zero_iff)
      then have ys: "\<And>x. x \<in> set ?ys \<Longrightarrow> \<not> hit x" by (simp add: filter_empty_conv)
      have "mset (filter hit xs) = {# xs ! i #}" using split none by simp
      then have "filter hit xs = [xs ! i]" by (simp only: mset_single_iff)
      with ys show ?thesis using len True by (simp add: sweep_hit sweep_none [OF ys])
    qed
  qed
qed

lemma sweep_nil: "fst (sweep hit i xs) = [] \<Longrightarrow> snd (sweep hit i xs) = xs"
proof (induction hit i xs rule: sweep.induct)
  case (1 hit i xs)
  show ?case
  proof (cases "i < length xs")
    case True
    with 1 show ?thesis by (cases "hit (xs ! i)") (auto simp: sweep_hit sweep_miss)
  qed (simp add: sweep_done)
qed

end
