(* ===== verification/Windows.thy ===== *)
theory Windows
  imports Prelude
begin

text \<open>
  The sliding windows: \<open>DataWindow\<close> of \<open>core/window_data.go\<close> (positions are \<open>int32\<close> state
  frames; the element type is a parameter here, the updater uses it at \<open>FrameData\<close>) and the
  stand-alone \<open>Window\<close> of \<open>containers/window/uint64_string/window.go\<close> (positions are
  \<open>uint64\<close>). Both promise the interface \<open>sliding_window\<close>, whose client lemmas are proved once.
\<close>

section \<open>The interface\<close>

text \<open>
  What a client of a sliding window relies on: \<open>inb w p\<close> says that position \<open>p\<close> lies in the
  window. Reads and writes inside the window succeed, a write is seen by the next read of the
  same position and by no other, and advancing keeps every position that stays in the window.
\<close>

locale sliding_window =
  fixes inv :: "'w \<Rightarrow> bool"
    and inb :: "'w \<Rightarrow> 'p \<Rightarrow> bool"
    and read :: "'w \<Rightarrow> 'p \<Rightarrow> go_panic + 'v"
    and store :: "'w \<Rightarrow> 'p \<Rightarrow> 'v \<Rightarrow> go_panic + 'w"
    and adv :: "'w \<Rightarrow> go_panic + 'w"
  assumes read_ok: "inv w \<Longrightarrow> inb w p \<Longrightarrow> \<exists>v. read w p = Inr v"
    and store_ok: "inv w \<Longrightarrow> inb w p \<Longrightarrow> \<exists>w'. store w p v = Inr w'"
    and store_inv: "inv w \<Longrightarrow> inb w p \<Longrightarrow> store w p v = Inr w' \<Longrightarrow> inv w'"
    and store_inb: "inv w \<Longrightarrow> inb w p \<Longrightarrow> store w p v = Inr w' \<Longrightarrow> inb w' q = inb w q"
    and read_store: "inv w \<Longrightarrow> inb w p \<Longrightarrow> inb w q \<Longrightarrow> store w p v = Inr w' \<Longrightarrow>
                     read w' q = (if q = p then Inr v else read w q)"
    and read_adv: "inv w \<Longrightarrow> adv w = Inr w' \<Longrightarrow> inv w' \<Longrightarrow> inb w p \<Longrightarrow> inb w' p \<Longrightarrow>
                   read w' p = read w p"
begin

text \<open>Writing a list of positions one after the other, as the loops of the clients do.\<close>

definition store_all :: "('p \<Rightarrow> 'v) \<Rightarrow> 'p list \<Rightarrow> 'w \<Rightarrow> go_panic + 'w" where
  "store_all f ps w = fold_res (\<lambda>p w. store w p (f p)) ps w"

lemma store_all_ok:
  assumes "inv w" and "\<forall>p \<in> set ps. inb w p"
  shows "\<exists>w'. store_all f ps w = Inr w' \<and> inv w' \<and> (\<forall>q. inb w' q = inb w q) \<and>
              (\<forall>q. inb w q \<longrightarrow> read w' q = (if q \<in> set ps then Inr (f q) else read w q))"
  using assms
proof (induction ps arbitrary: w)
  case Nil
  then show ?case by (simp add: store_all_def)
next
  case (Cons p ps)
  then obtain w1 where w1: "store w p (f p) = Inr w1" using store_ok [of w p "f p"] by auto
  have "inv w1" and inb1: "\<And>q. inb w1 q = inb w q"
    using store_inv [OF _ _ w1] store_inb [OF _ _ w1] Cons.prems by auto
  then obtain w' where w': "store_all f ps w1 = Inr w'" "inv w'" "\<forall>q. inb w' q = inb w1 q"
      "\<forall>q. inb w1 q \<longrightarrow> read w' q = (if q \<in> set ps then Inr (f q) else read w1 q)"
    using Cons.IH [of w1] Cons.prems by auto
  moreover have "read w1 q = (if q = p then Inr (f p) else read w q)" if "inb w q" for q
    using read_store [OF _ _ that w1] Cons.prems by simp
  ultimately show ?case using w1 inb1 by (auto simp: store_all_def)
qed

text \<open>Reading back what was stored, wherever the window has moved in the meantime.\<close>

lemma read_back_after_adv:
  assumes "inv w" and "inb w p" and "store w p v = Inr w1"
    and "adv w1 = Inr w2" and "inv w2" and "inb w2 p"
  shows "read w2 p = Inr v"
proof -
  have "inv w1" and "inb w1 p" using assms store_inv store_inb by blast+
  then have "read w2 p = read w1 p" using assms read_adv by blast
  then show ?thesis using assms read_store by simp
qed

end

section \<open>\<open>DataWindow\<close>: positions are state frames\<close>

record 'v data_window =
  dw_first :: int   \<comment> \<open>\<open>first\<close>: lowest frame in the window\<close>
  dw_start :: int   \<comment> \<open>\<open>start\<close>: index of that frame in \<open>data\<close>\<close>
  dw_data :: "'v list"

definition new_data_window :: "'v \<Rightarrow> int \<Rightarrow> int \<Rightarrow> go_panic + 'v data_window" where
  "new_data_window zero n start =
     (if n < 0 then Inl MakeNegative
      else Inr \<lparr>dw_first = start, dw_start = 0, dw_data = replicate (nat n) zero\<rparr>)"

definition dw_len :: "'v data_window \<Rightarrow> int" where
  "dw_len w = int (length (dw_data w))"

definition dw_pos_to_index :: "'v data_window \<Rightarrow> int \<Rightarrow> go_panic + int" where
  "dw_pos_to_index w pos =
     (if dw_len w = 0 then Inl DivideByZero
      else let index = i64 (dw_start w + i32 (pos - dw_first w)) smod dw_len w
           in if pos < dw_first w \<or> i32 (dw_first w + i32 (dw_len w)) \<le> pos
              then Inl OutsideWindow else Inr index)"

definition slice_get :: "'v list \<Rightarrow> int \<Rightarrow> go_panic + 'v" where
  "slice_get xs i =
     (if 0 \<le> i \<and> i < int (length xs) then Inr (xs ! nat i) else Inl IndexOutOfRange)"

definition slice_set :: "'v list \<Rightarrow> int \<Rightarrow> 'v \<Rightarrow> go_panic + 'v list" where
  "slice_set xs i v =
     (if 0 \<le> i \<and> i < int (length xs) then Inr (xs[nat i := v]) else Inl IndexOutOfRange)"

definition dw_get :: "'v data_window \<Rightarrow> int \<Rightarrow> go_panic + 'v" where
  "dw_get w pos = seq (dw_pos_to_index w pos) (\<lambda>i. slice_get (dw_data w) i)"

definition dw_set :: "'v data_window \<Rightarrow> int \<Rightarrow> 'v \<Rightarrow> go_panic + 'v data_window" where
  "dw_set w pos v =
     seq (dw_pos_to_index w pos) (\<lambda>i.
     seq (slice_set (dw_data w) i v) (\<lambda>d. Inr (w\<lparr>dw_data := d\<rparr>)))"

definition dw_end :: "'v data_window \<Rightarrow> int" where
  "dw_end w = i32 (dw_first w + i32 (dw_len w))"

definition dw_advance :: "'v data_window \<Rightarrow> go_panic + 'v data_window" where
  "dw_advance w =
     (if dw_len w = 0 then Inl DivideByZero
      else Inr (w\<lparr>dw_first := i32 (dw_first w + 1),
                  dw_start := i64 (dw_start w + 1) smod dw_len w\<rparr>))"

text \<open>
  Well-formed windows: \<open>start\<close> indexes the ring, and no frame of the window overflows
  \<open>StateFrame\<close>.
\<close>

definition dw_ok :: "'v data_window \<Rightarrow> bool" where
  "dw_ok w \<longleftrightarrow> 0 \<le> dw_start w \<and> dw_start w < dw_len w \<and> in_i32 (dw_first w) \<and>
     dw_len w \<le> max_i32 \<and> dw_first w + dw_len w \<le> max_i32"

definition dw_inb :: "'v data_window \<Rightarrow> int \<Rightarrow> bool" where
  "dw_inb w p \<longleftrightarrow> dw_first w \<le> p \<and> p < dw_first w + dw_len w"

text \<open>The slot of a frame, and the contents of a slot: the abstraction of the ring.\<close>

definition dw_slot :: "'v data_window \<Rightarrow> int \<Rightarrow> nat" where
  "dw_slot w p = nat ((dw_start w + (p - dw_first w)) mod dw_len w)"

definition dw_at :: "'v data_window \<Rightarrow> int \<Rightarrow> 'v" where
  "dw_at w p = dw_data w ! dw_slot w p"

lemma dw_okD:
  assumes "dw_ok w"
  shows "0 < dw_len w" and "in_i32 (dw_first w)" and "dw_len w \<le> max_i32"
    and "dw_first w + dw_len w \<le> max_i32" and "0 \<le> dw_start w" and "dw_start w < dw_len w"
  using assms by (auto simp: dw_ok_def)

lemma dw_inbD: "dw_inb w p \<Longrightarrow> dw_first w \<le> p \<and> p < dw_first w + dw_len w"
  by (simp add: dw_inb_def)

lemma dw_end_eq:
  assumes "dw_ok w"
  shows "dw_end w = dw_first w + dw_len w"
  using dw_okD [OF assms] by (simp add: dw_end_def in_i32_def)

lemma dw_slot_less: "dw_ok w \<Longrightarrow> dw_slot w p < length (dw_data w)"
  using dw_okD(1) [of w] pos_mod_bound [of "dw_len w"] pos_mod_sign [of "dw_len w"]
  by (auto simp: dw_slot_def dw_len_def nat_less_iff)

lemma smod_nonneg: "0 \<le> a \<Longrightarrow> 0 < b \<Longrightarrow> a smod b = a mod (b :: int)"
  by (cases "a = 0") (auto simp: smod_int_alt_def)

lemma dw_pos_to_index_inb:
  assumes "dw_ok w" and "dw_inb w p"
  shows "dw_pos_to_index w p = Inr (int (dw_slot w p))"
proof -
  note b = dw_okD [OF assms(1)] and p = dw_inbD [OF assms(2)]
  have i: "i32 (p - dw_first w) = p - dw_first w" using b p by simp
  have j: "i64 (dw_start w + (p - dw_first w)) = dw_start w + (p - dw_first w)"
    using b p by simp
  have "(dw_start w + (p - dw_first w)) smod dw_len w = (dw_start w + (p - dw_first w)) mod dw_len w"
    using b p by (intro smod_nonneg) auto
  moreover have "0 \<le> (dw_start w + (p - dw_first w)) mod dw_len w" using b by simp
  ultimately show ?thesis using p b dw_end_eq [OF assms(1)]
    by (simp add: dw_pos_to_index_def i j dw_slot_def dw_end_def)
qed

lemma dw_pos_to_index_out:
  assumes "dw_ok w" and "\<not> dw_inb w p"
  shows "dw_pos_to_index w p = Inl OutsideWindow"
  using assms dw_okD [OF assms(1)] dw_end_eq [OF assms(1)]
  by (auto simp: dw_pos_to_index_def dw_inb_def dw_end_def Let_def)

lemma dw_get_eq: "dw_ok w \<Longrightarrow> dw_inb w p \<Longrightarrow> dw_get w p = Inr (dw_at w p)"
  using dw_slot_less [of w p]
  by (simp add: dw_get_def dw_pos_to_index_inb slice_get_def dw_at_def)

lemma dw_get_out: "dw_ok w \<Longrightarrow> \<not> dw_inb w p \<Longrightarrow> dw_get w p = Inl OutsideWindow"
  by (simp add: dw_get_def dw_pos_to_index_out)

lemma dw_get_Inr_iff: "dw_ok w \<Longrightarrow> dw_get w p = Inr v \<longleftrightarrow> dw_inb w p \<and> v = dw_at w p"
  by (cases "dw_inb w p") (auto simp: dw_get_eq dw_get_out)

lemma dw_set_eq:
  "dw_ok w \<Longrightarrow> dw_inb w p \<Longrightarrow>
   dw_set w p v = Inr (w\<lparr>dw_data := (dw_data w)[dw_slot w p := v]\<rparr>)"
  using dw_slot_less [of w p]
  by (simp add: dw_set_def dw_pos_to_index_inb slice_set_def)

lemma dw_set_out: "dw_ok w \<Longrightarrow> \<not> dw_inb w p \<Longrightarrow> dw_set w p v = Inl OutsideWindow"
  by (simp add: dw_set_def dw_pos_to_index_out)

text \<open>Two frames of the window never share a slot.\<close>

lemma ring_index_inj:
  fixes s n d e :: int
  assumes "(s + d) mod n = (s + e) mod n" and "\<bar>d - e\<bar> < n"
  shows "d = e"
proof -
  have "n dvd (s + d) - (s + e)" using assms(1) by (simp add: mod_eq_dvd_iff)
  then have "n dvd d - e" by simp
  then show ?thesis using assms(2) dvd_imp_le_int [of "d - e" n] by fastforce
qed

lemma dw_slot_inj:
  assumes "dw_ok w" and "dw_inb w p" and "dw_inb w q" and "dw_slot w p = dw_slot w q"
  shows "p = q"
proof -
  note b = dw_okD [OF assms(1)] and pq = dw_inbD [OF assms(2)] dw_inbD [OF assms(3)]
  have "(dw_start w + (p - dw_first w)) mod dw_len w = (dw_start w + (q - dw_first w)) mod dw_len w"
    using assms(4) b by (simp add: dw_slot_def eq_nat_nat_iff)
  then have "p - dw_first w = q - dw_first w"
    by (rule ring_index_inj) (use pq in linarith)
  then show ?thesis by simp
qed

text \<open>
  What every operation does to the abstraction: this is all that the proofs about the updater
  use of the ring.
\<close>

definition dw_put :: "'v data_window \<Rightarrow> int \<Rightarrow> 'v \<Rightarrow> 'v data_window" where
  "dw_put w p v = w\<lparr>dw_data := (dw_data w)[dw_slot w p := v]\<rparr>"

lemma dw_set_put: "dw_ok w \<Longrightarrow> dw_inb w p \<Longrightarrow> dw_set w p v = Inr (dw_put w p v)"
  by (simp add: dw_set_eq dw_put_def)

lemma dw_put_frame [simp]:
  "dw_first (dw_put w p v) = dw_first w"
  "dw_start (dw_put w p v) = dw_start w"
  "dw_len (dw_put w p v) = dw_len w"
  "dw_ok (dw_put w p v) = dw_ok w"
  "dw_inb (dw_put w p v) q = dw_inb w q"
  "dw_slot (dw_put w p v) q = dw_slot w q"
  by (auto simp: dw_put_def dw_len_def dw_ok_def dw_inb_def dw_slot_def)

lemma dw_put_data: "dw_data (dw_put w p v) = (dw_data w)[dw_slot w p := v]"
  by (simp add: dw_put_def)

lemma dw_at_put:
  "dw_ok w \<Longrightarrow> dw_inb w p \<Longrightarrow> dw_inb w q \<Longrightarrow>
   dw_at (dw_put w p v) q = (if q = p then v else dw_at w q)"
  using dw_slot_less [of w p] dw_slot_inj [of w p q] dw_put_frame(6) [of w p v q]
  by (auto simp: dw_at_def dw_put_data nth_list_update simp del: dw_put_frame)

definition dw_next :: "'v data_window \<Rightarrow> 'v data_window" where
  "dw_next w = w\<lparr>dw_first := dw_first w + 1, dw_start := (dw_start w + 1) mod dw_len w\<rparr>"

lemma dw_advance_next:
  assumes "dw_ok w" and "dw_first w + dw_len w < max_i32"
  shows "dw_advance w = Inr (dw_next w)" and "dw_ok (dw_next w)"
proof -
  note b = dw_okD [OF assms(1)]
  have "(dw_start w + 1) smod dw_len w = (dw_start w + 1) mod dw_len w"
    using b by (intro smod_nonneg) auto
  with b assms(2) show "dw_advance w = Inr (dw_next w)"
    by (simp add: dw_advance_def dw_next_def in_i32_def)
  show "dw_ok (dw_next w)"
    using b assms(2) by (auto simp: dw_ok_def dw_next_def dw_len_def in_i32_def)
qed

lemma dw_next_frame [simp]:
  "dw_first (dw_next w) = dw_first w + 1"
  "dw_len (dw_next w) = dw_len w"
  "dw_data (dw_next w) = dw_data w"
  by (auto simp: dw_next_def dw_len_def)

lemma dw_slot_next:
  assumes "dw_ok w"
  shows "dw_slot (dw_next w) p = dw_slot w p"
proof -
  have "((dw_start w + 1) mod dw_len w + (p - (dw_first w + 1))) mod dw_len w =
        (dw_start w + 1 + (p - (dw_first w + 1))) mod dw_len w"
    by (rule mod_add_left_eq)
  also have "dw_start w + 1 + (p - (dw_first w + 1)) = dw_start w + (p - dw_first w)"
    by simp
  finally show ?thesis by (simp add: dw_slot_def dw_next_def dw_len_def)
qed

lemma dw_at_next: "dw_ok w \<Longrightarrow> dw_at (dw_next w) p = dw_at w p"
  by (simp add: dw_at_def dw_slot_next)

text \<open>The frame after the last one shares the slot of the first.\<close>

lemma dw_at_wraps: "dw_at w (dw_first w + dw_len w) = dw_at w (dw_first w)"
  by (simp add: dw_at_def dw_slot_def)

lemma new_data_window_ok:
  assumes "0 < n" and "in_i32 f" and "n \<le> max_i32" and "f + n \<le> max_i32"
  shows "\<exists>w. new_data_window z n f = Inr w \<and> dw_ok w \<and> dw_first w = f \<and> dw_len w = n \<and>
             dw_data w = replicate (nat n) z"
  using assms by (auto simp: new_data_window_def dw_ok_def dw_len_def)

interpretation dw: sliding_window dw_ok dw_inb dw_get dw_set dw_advance
proof (unfold_locales, goal_cases)
  case (1 w p)
  then show ?case by (simp add: dw_get_eq)
next
  case (2 w p v)
  then show ?case by (simp add: dw_set_put)
next
  case (3 w p v w')
  then show ?case by (auto simp: dw_set_put)
next
  case (4 w p v w' q)
  then show ?case by (auto simp: dw_set_put)
next
  case (5 w p q v w')
  then show ?case by (auto simp: dw_set_put dw_get_eq dw_at_put)
next
  case (6 w w' p)
  note b = dw_okD [OF 6(1)]
  have "(dw_start w + 1) smod dw_len w = (dw_start w + 1) mod dw_len w"
    using b by (intro smod_nonneg) auto
  then have "w' = dw_next w" using 6(2) b by (auto simp: dw_advance_def dw_next_def in_i32_def)
  then show ?case using 6 by (simp add: dw_get_eq dw_at_next)
qed

section \<open>\<open>Window\<close> of the container package: positions are \<open>uint64\<close>\<close>

record u64_window =
  uw_first :: "64 word"
  uw_start :: int
  uw_data :: "string list"

definition uw_len :: "u64_window \<Rightarrow> int" where
  "uw_len w = int (length (uw_data w))"

definition new_u64_window :: "int \<Rightarrow> 64 word \<Rightarrow> go_panic + u64_window" where
  "new_u64_window n start =
     (if n < 0 then Inl MakeNegative
      else Inr \<lparr>uw_first = start, uw_start = 0, uw_data = replicate (nat n) ''''\<rparr>)"

text \<open>The conversion \<open>int(pos-w.first)\<close> reads the \<open>uint64\<close> difference as two's complement.\<close>

definition uw_pos_to_index :: "u64_window \<Rightarrow> 64 word \<Rightarrow> go_panic + int" where
  "uw_pos_to_index w pos =
     (if uw_len w = 0 then Inl DivideByZero
      else let index = i64 (uw_start w + sint (pos - uw_first w)) smod uw_len w
           in if index < 0 \<or> uw_len w < index then Inl OutsideWindow else Inr index)"

definition uw_get :: "u64_window \<Rightarrow> 64 word \<Rightarrow> go_panic + string" where
  "uw_get w pos = seq (uw_pos_to_index w pos) (\<lambda>i. slice_get (uw_data w) i)"

definition uw_set :: "u64_window \<Rightarrow> 64 word \<Rightarrow> string \<Rightarrow> go_panic + u64_window" where
  "uw_set w pos v =
     seq (uw_pos_to_index w pos) (\<lambda>i.
     seq (slice_set (uw_data w) i v) (\<lambda>d. Inr (w\<lparr>uw_data := d\<rparr>)))"

definition uw_end :: "u64_window \<Rightarrow> 64 word" where
  "uw_end w = uw_first w + word_of_int (uw_len w)"

definition uw_advance :: "u64_window \<Rightarrow> go_panic + u64_window" where
  "uw_advance w =
     (if uw_len w = 0 then Inl DivideByZero
      else Inr (w\<lparr>uw_first := uw_first w + 1,
                  uw_start := i64 (uw_start w + 1) smod uw_len w\<rparr>))"

text \<open>
  Positions inside the window, for windows whose positions do not wrap around \<open>uint64\<close> and
  whose length is below \<open>2 ^ 62\<close>, so that no index computation overflows.
\<close>

definition uw_ok :: "u64_window \<Rightarrow> bool" where
  "uw_ok w \<longleftrightarrow> 0 \<le> uw_start w \<and> uw_start w < uw_len w \<and> uw_len w < 2 ^ 62 \<and>
     uint (uw_first w) + uw_len w < 2 ^ 64"

definition uw_inb :: "u64_window \<Rightarrow> 64 word \<Rightarrow> bool" where
  "uw_inb w p \<longleftrightarrow> uw_first w \<le> p \<and> p < uw_end w"

definition uw_slot :: "u64_window \<Rightarrow> 64 word \<Rightarrow> nat" where
  "uw_slot w p = nat ((uw_start w + (uint p - uint (uw_first w))) mod uw_len w)"

lemma uw_okD:
  assumes "uw_ok w"
  shows "0 < uw_len w" and "0 \<le> uw_start w" and "uw_start w < uw_len w"
    and "uw_len w < 2 ^ 62" and "uint (uw_first w) + uw_len w < 2 ^ 64"
  using assms by (auto simp: uw_ok_def)

lemma uw_end_uint: "uw_ok w \<Longrightarrow> uint (uw_end w) = uint (uw_first w) + uw_len w"
  using uw_okD [of w] by (simp add: uw_end_def uint_word_ariths uint_word_of_int mod_simps)

lemma uw_inb_uint:
  "uw_ok w \<Longrightarrow> uw_inb w p \<longleftrightarrow>
     uint (uw_first w) \<le> uint p \<and> uint p < uint (uw_first w) + uw_len w"
  by (simp add: uw_inb_def word_le_def word_less_def uw_end_uint)

lemma uw_offset:
  assumes "uw_ok w" and "uw_inb w p"
  shows "sint (p - uw_first w) = uint p - uint (uw_first w)"
proof -
  have d: "0 \<le> uint p - uint (uw_first w)" "uint p - uint (uw_first w) < 2 ^ 62"
    using assms uw_okD [OF assms(1)] by (auto simp: uw_inb_uint)
  then have "uint (p - uw_first w) = uint p - uint (uw_first w)"
    by (simp add: uint_word_ariths)
  then show ?thesis using d by (simp add: sint_uint signed_take_bit_int_eq_self)
qed

lemma uw_slot_less: "uw_ok w \<Longrightarrow> uw_slot w p < length (uw_data w)"
  using uw_okD(1) [of w] pos_mod_bound [of "uw_len w"] pos_mod_sign [of "uw_len w"]
  by (auto simp: uw_slot_def uw_len_def nat_less_iff)

lemma uw_pos_to_index_inb:
  assumes "uw_ok w" and "uw_inb w p"
  shows "uw_pos_to_index w p = Inr (int (uw_slot w p))"
proof -
  note b = uw_okD [OF assms(1)]
  let ?d = "uint p - uint (uw_first w)"
  have d: "0 \<le> ?d" "?d < uw_len w" using assms by (auto simp: uw_inb_uint)
  have j: "i64 (uw_start w + ?d) = uw_start w + ?d" using b d by simp
  have m: "(uw_start w + ?d) smod uw_len w = (uw_start w + ?d) mod uw_len w"
    using b d by (intro smod_nonneg) auto
  have "\<not> (uw_start w + ?d) mod uw_len w < 0" "\<not> uw_len w < (uw_start w + ?d) mod uw_len w"
    using b(1) pos_mod_sign [of "uw_len w"] pos_mod_bound [of "uw_len w"]
    by (simp_all add: not_less less_imp_le)
  then show ?thesis using b(1)
    by (simp add: uw_pos_to_index_def uw_offset [OF assms] j m uw_slot_def Let_def not_less)
qed

lemma uw_slot_inj:
  assumes "uw_ok w" and "uw_inb w p" and "uw_inb w q" and "uw_slot w p = uw_slot w q"
  shows "p = q"
proof -
  note b = uw_okD [OF assms(1)]
  have pq: "uint (uw_first w) \<le> uint p" "uint p < uint (uw_first w) + uw_len w"
    "uint (uw_first w) \<le> uint q" "uint q < uint (uw_first w) + uw_len w"
    using assms by (auto simp: uw_inb_uint)
  have "(uw_start w + (uint p - uint (uw_first w))) mod uw_len w =
        (uw_start w + (uint q - uint (uw_first w))) mod uw_len w"
    using assms(4) b by (simp add: uw_slot_def eq_nat_nat_iff)
  then have "uint p - uint (uw_first w) = uint q - uint (uw_first w)"
    by (rule ring_index_inj) (use pq in linarith)
  then have "uint p = uint q" by simp
  then show ?thesis by (rule word_uint_eqI)
qed

lemma uw_get_eq: "uw_ok w \<Longrightarrow> uw_inb w p \<Longrightarrow> uw_get w p = Inr (uw_data w ! uw_slot w p)"
  using uw_slot_less [of w p] by (simp add: uw_get_def uw_pos_to_index_inb slice_get_def)

lemma uw_set_eq:
  "uw_ok w \<Longrightarrow> uw_inb w p \<Longrightarrow>
   uw_set w p v = Inr (w\<lparr>uw_data := (uw_data w)[uw_slot w p := v]\<rparr>)"
  using uw_slot_less [of w p] by (simp add: uw_set_def uw_pos_to_index_inb slice_set_def)

lemma uw_update_frame [simp]:
  "uw_ok (w\<lparr>uw_data := (uw_data w)[i := v]\<rparr>) = uw_ok w"
  "uw_inb (w\<lparr>uw_data := (uw_data w)[i := v]\<rparr>) p = uw_inb w p"
  "uw_slot (w\<lparr>uw_data := (uw_data w)[i := v]\<rparr>) p = uw_slot w p"
  by (auto simp: uw_ok_def uw_inb_def uw_slot_def uw_len_def uw_end_def)

lemma uw_advance_slot:
  assumes "uw_ok w" and "uw_advance w = Inr w'"
  shows "uw_slot w' p = uw_slot w p" and "uw_data w' = uw_data w"
proof -
  note b = uw_okD [OF assms(1)]
  have m: "(uw_start w + 1) smod uw_len w = (uw_start w + 1) mod uw_len w"
    using b by (intro smod_nonneg) auto
  have w': "w' = w\<lparr>uw_first := uw_first w + 1, uw_start := (uw_start w + 1) mod uw_len w\<rparr>"
    using assms(2) b m by (auto simp: uw_advance_def)
  then show "uw_data w' = uw_data w" by simp
  have f: "uint (uw_first w + 1) = uint (uw_first w) + 1"
    using b by (simp add: uint_word_ariths)
  have "((uw_start w + 1) mod uw_len w + (uint p - (uint (uw_first w) + 1))) mod uw_len w =
        (uw_start w + 1 + (uint p - (uint (uw_first w) + 1))) mod uw_len w"
    by (rule mod_add_left_eq)
  also have "uw_start w + 1 + (uint p - (uint (uw_first w) + 1)) =
             uw_start w + (uint p - uint (uw_first w))"
    by simp
  finally show "uw_slot w' p = uw_slot w p"
    by (simp add: w' uw_slot_def uw_len_def f)
qed

text \<open>
  The check of \<open>posToIndex\<close> looks at the index after the reduction modulo the length, so it does
  not stop the position after the last one, which reads the slot of the first.
\<close>

lemma uw_end_aliases:
  assumes "uw_ok w"
  shows "uw_get w (uw_end w) = uw_get w (uw_first w)" and "\<exists>s. uw_get w (uw_end w) = Inr s"
proof -
  note b = uw_okD [OF assms]
  have "sint (word_of_int (uw_len w) :: 64 word) = uw_len w"
    using b by (simp add: sint_uint uint_word_of_int signed_take_bit_int_eq_self)
  then have off: "sint (uw_end w - uw_first w) = uw_len w" by (simp add: uw_end_def)
  have i: "i64 (uw_start w + uw_len w) = uw_start w + uw_len w" using b by simp
  have "(uw_start w + uw_len w) smod uw_len w = uw_start w"
    using b by (simp add: smod_nonneg mod_pos_pos_trivial)
  moreover have "i64 (uw_start w) smod uw_len w = uw_start w"
    using b by (simp add: smod_nonneg mod_pos_pos_trivial)
  ultimately show 1: "uw_get w (uw_end w) = uw_get w (uw_first w)"
    by (simp add: uw_get_def uw_pos_to_index_def off i Let_def)
  have "uw_inb w (uw_first w)" using b assms by (simp add: uw_inb_uint)
  then show "\<exists>s. uw_get w (uw_end w) = Inr s" using 1 uw_get_eq [OF assms] by simp
qed

interpretation uw: sliding_window uw_ok uw_inb uw_get uw_set uw_advance
proof (unfold_locales, goal_cases)
  case (1 w p)
  then show ?case by (simp add: uw_get_eq)
next
  case (2 w p v)
  then show ?case by (simp add: uw_set_eq)
next
  case (3 w p v w')
  then show ?case by (auto simp: uw_set_eq)
next
  case (4 w p v w' q)
  then show ?case by (auto simp: uw_set_eq)
next
  case (5 w p q v w')
  then show ?case
    using uw_slot_inj [of w p q] uw_slot_less [of w p]
    by (auto simp: uw_set_eq uw_get_eq nth_list_update)
next
  case (6 w w' p)
  then show ?case using uw_advance_slot [of w w'] by (simp add: uw_get_eq)
qed

end
