(* ===== verification/Events.thy ===== *)
theory Events
  imports Prelude "HOL-Library.Finite_Map"
begin

text \<open>
  The data of \<open>core/event.go\<close> and \<open>core/engine.go\<close>: engine ids and their order, engine
  events, the set of known engines, bundles of events, and the two operations on bundles,
  \<open>AbsorbEventBundle\<close> and the iteration \<open>each\<close>. A Go map is a finite map inside an option
  (\<open>None\<close> is the nil map). Where the code ranges over a map, the model has the order of the
  iteration as an argument, since Go leaves it open, and proves that it does not matter.
\<close>

section \<open>Engine ids and parameters\<close>

datatype engine_id = EngineId (eid: int)   \<comment> \<open>\<open>type EngineId int64\<close>\<close>

instantiation engine_id :: linorder
begin

definition less_eq_engine_id :: "engine_id \<Rightarrow> engine_id \<Rightarrow> bool" where
  "less_eq_engine_id a b \<longleftrightarrow> eid a \<le> eid b"

definition less_engine_id :: "engine_id \<Rightarrow> engine_id \<Rightarrow> bool" where
  "less_engine_id a b \<longleftrightarrow> eid a < eid b"

instance
  by standard (auto simp: less_eq_engine_id_def less_engine_id_def intro: engine_id.expand)

end

lemma engine_id_less [simp]: "EngineId a < EngineId b \<longleftrightarrow> a < b"
  by (simp add: less_engine_id_def)

lemma engine_id_le [simp]: "EngineId a \<le> EngineId b \<longleftrightarrow> a \<le> b"
  by (simp add: less_eq_engine_id_def)

record engine_params =
  ep_id :: engine_id
  ep_delay :: int
  ep_frame_ms :: int
  ep_max_frames :: int

section \<open>Maps\<close>

text \<open>The keys of a map, in ascending order: one of the orders in which a range can go.\<close>

definition keys :: "('k::linorder, 'v) fmap \<Rightarrow> 'k list" where
  "keys m = sorted_list_of_fset (fmdom m)"

lemma keys_props [simp]:
  "set (keys m) = fmdom' m" "distinct (keys m)" "sorted (keys m)"
  by (simp_all add: keys_def fmdom'_alt_def sorted_list_of_fset.rep_eq)

lemma keys_Nil_iff: "keys m = [] \<longleftrightarrow> m = fmempty"
proof
  assume "keys m = []"
  then have "fmdom' m = {}" by (metis keys_props(1) list.set(1))
  then have "fmlookup m x = None" for x using fmdom'_notD [of x m] by simp
  then show "m = fmempty" by (intro fmap_ext) simp
next
  assume "m = fmempty"
  then have "set (keys m) = {}" by (simp del: set_empty)
  then show "keys m = []" by (simp only: set_empty)
qed

lemma keys_fmempty [simp]: "keys fmempty = []"
  by (simp add: keys_Nil_iff)

text \<open>An enumeration of a map: what a range over it can visit.\<close>

definition enumerates :: "'k list \<Rightarrow> ('k, 'v) fmap \<Rightarrow> bool" where
  "enumerates ks m \<longleftrightarrow> distinct ks \<and> set ks = fmdom' m"

lemma keys_enumerates: "enumerates (keys m) m"
  by (simp add: enumerates_def)

section \<open>Engine events and the known engines\<close>

datatype engine_event = EngineJoined engine_id | EngineDropped engine_id

record engine_info =
  ei_engines :: "(engine_id, bool) fmap option"   \<comment> \<open>\<open>map[EngineId]bool\<close>, \<open>None\<close> when nil\<close>

fun apply_engine_event :: "engine_event \<Rightarrow> engine_info \<Rightarrow> go_panic + engine_info" where
  "apply_engine_event (EngineJoined i) info =
     (case ei_engines info of
        None \<Rightarrow> Inl NilMapWrite
      | Some m \<Rightarrow> Inr (info\<lparr>ei_engines := Some (fmupd i True m)\<rparr>))"
| "apply_engine_event (EngineDropped i) info =
     (case ei_engines info of
        None \<Rightarrow> Inr info
      | Some m \<Rightarrow> Inr (info\<lparr>ei_engines := Some (fmdrop i m)\<rparr>))"

text \<open>Membership in a possibly nil map, and its contents.\<close>

definition map_of_nilable :: "('k, 'v) fmap option \<Rightarrow> ('k, 'v) fmap" where
  "map_of_nilable m = (case m of None \<Rightarrow> fmempty | Some x \<Rightarrow> x)"

lemma map_of_nilable_simps [simp]:
  "map_of_nilable None = fmempty" "map_of_nilable (Some m) = m"
  by (simp_all add: map_of_nilable_def)

definition known_engines :: "engine_info \<Rightarrow> (engine_id, bool) fmap" where
  "known_engines info = map_of_nilable (ei_engines info)"

text \<open>\<open>Copy\<close> makes a fresh map and inserts the entries in iteration order \<open>ks\<close>.\<close>

definition info_copy_with :: "engine_id list \<Rightarrow> engine_info \<Rightarrow> engine_info" where
  "info_copy_with ks info =
     \<lparr>ei_engines = Some (fold (\<lambda>k acc. fmupd k (the (fmlookup (known_engines info) k)) acc)
                            ks fmempty)\<rparr>"

definition info_copy :: "engine_info \<Rightarrow> engine_info" where
  "info_copy info = info_copy_with (keys (known_engines info)) info"

lemma fold_fmupd_lookup:
  "fmlookup (fold (\<lambda>k acc. fmupd k (f k) acc) ks m) x =
     (if x \<in> set ks then Some (f x) else fmlookup m x)"
  by (induction ks arbitrary: m) auto

lemma info_copy_with_eq:
  assumes "enumerates ks (known_engines info)"
  shows "info_copy_with ks info = \<lparr>ei_engines = Some (known_engines info)\<rparr>"
proof -
  have "fold (\<lambda>k acc. fmupd k (the (fmlookup (known_engines info) k)) acc) ks fmempty =
        known_engines info"
    using assms by (auto intro!: fmap_ext simp: fold_fmupd_lookup enumerates_def fmlookup_dom'_iff
        dest: fmdom'_notI)
  then show ?thesis by (simp add: info_copy_with_def)
qed

lemma info_copy_eq: "info_copy info = \<lparr>ei_engines = Some (known_engines info)\<rparr>"
  by (simp add: info_copy_def info_copy_with_eq keys_enumerates)

lemma known_engines_copy [simp]: "known_engines (info_copy info) = known_engines info"
  by (simp add: info_copy_eq known_engines_def)

lemma info_copy_nonnil [simp]: "ei_engines (info_copy info) \<noteq> None"
  by (simp add: info_copy_eq)

section \<open>Bundles\<close>

record 'e all_events =
  ae_game :: "'e list"
  ae_engine :: "engine_event list"

definition no_events :: "'e all_events" where
  "no_events = \<lparr>ae_game = [], ae_engine = []\<rparr>"

type_synonym 'e bundle_map = "(engine_id, 'e all_events) fmap"

type_synonym 'e event_bundle = "'e bundle_map option"

record 'e frame_bundle =
  fb_frame :: int
  fb_bundle :: "'e event_bundle"

text \<open>Reading a key of a Go map: the zero value when it is absent.\<close>

definition bundle_get :: "'e event_bundle \<Rightarrow> engine_id \<Rightarrow> 'e all_events" where
  "bundle_get b k = (case fmlookup (map_of_nilable b) k of None \<Rightarrow> no_events | Some v \<Rightarrow> v)"

definition absorb_one ::
  "'e event_bundle \<Rightarrow> engine_id \<Rightarrow> 'e event_bundle \<Rightarrow> go_panic + 'e event_bundle" where
  "absorb_one fb2 k fb =
     (if fmlookup (map_of_nilable fb) k \<noteq> None then Inl (Collision (eid k))
      else case fb of None \<Rightarrow> Inl NilMapWrite
                    | Some m \<Rightarrow> Inr (Some (fmupd k (bundle_get fb2 k) m)))"

definition absorb_with ::
  "engine_id list \<Rightarrow> 'e event_bundle \<Rightarrow> 'e event_bundle \<Rightarrow> go_panic + 'e event_bundle" where
  "absorb_with ks fb fb2 = fold_res (absorb_one fb2) ks fb"

definition absorb :: "'e event_bundle \<Rightarrow> 'e event_bundle \<Rightarrow> go_panic + 'e event_bundle" where
  "absorb fb fb2 = absorb_with (keys (map_of_nilable fb2)) fb fb2"

text \<open>
  The iteration of \<open>each\<close>: in every round it picks the least key above the last one, with
  \<open>-1\<close> as the mark for "none yet". The inner range runs over the map in an order of its own in
  each round.
\<close>

definition next_id :: "engine_id \<Rightarrow> engine_id list \<Rightarrow> engine_id" where
  "next_id mx ks =
     fold (\<lambda>k cur. if mx < k \<and> (k < cur \<or> cur = EngineId (-1)) then k else cur)
       ks (EngineId (-1))"

fun each_rounds :: "(nat \<Rightarrow> engine_id list) \<Rightarrow> nat \<Rightarrow> nat \<Rightarrow> engine_id \<Rightarrow> 'e event_bundle \<Rightarrow>
  (engine_id \<Rightarrow> 'e all_events \<Rightarrow> 's \<Rightarrow> go_panic + 's) \<Rightarrow> 's \<Rightarrow> go_panic + 's" where
  "each_rounds ord i 0 mx fb f s = Inr s"
| "each_rounds ord i (Suc n) mx fb f s =
     (let cur = next_id mx (ord i)
      in seq (f cur (bundle_get fb cur) s) (\<lambda>s'. each_rounds ord (Suc i) n cur fb f s'))"

definition each_with :: "(nat \<Rightarrow> engine_id list) \<Rightarrow> 'e event_bundle \<Rightarrow>
  (engine_id \<Rightarrow> 'e all_events \<Rightarrow> 's \<Rightarrow> go_panic + 's) \<Rightarrow> 's \<Rightarrow> go_panic + 's" where
  "each_with ord fb f s =
     each_rounds ord 0 (length (keys (map_of_nilable fb))) (EngineId (-1)) fb f s"

definition each :: "'e event_bundle \<Rightarrow>
  (engine_id \<Rightarrow> 'e all_events \<Rightarrow> 's \<Rightarrow> go_panic + 's) \<Rightarrow> 's \<Rightarrow> go_panic + 's" where
  "each fb f s = each_with (\<lambda>_. keys (map_of_nilable fb)) fb f s"

definition each_game :: "'e event_bundle \<Rightarrow>
  (engine_id \<Rightarrow> 'e list \<Rightarrow> 's \<Rightarrow> go_panic + 's) \<Rightarrow> 's \<Rightarrow> go_panic + 's" where
  "each_game fb f s = each fb (\<lambda>i all. f i (ae_game all)) s"

definition each_engine :: "'e event_bundle \<Rightarrow>
  (engine_id \<Rightarrow> engine_event list \<Rightarrow> 's \<Rightarrow> go_panic + 's) \<Rightarrow> 's \<Rightarrow> go_panic + 's" where
  "each_engine fb f s = each fb (\<lambda>i all. f i (ae_engine all)) s"

section \<open>What \<open>AbsorbEventBundle\<close> computes\<close>

definition disjoint_bundles :: "'e bundle_map \<Rightarrow> 'e bundle_map \<Rightarrow> bool" where
  "disjoint_bundles m n \<longleftrightarrow> fmdom' m \<inter> fmdom' n = {}"

lemma absorb_fold:
  assumes "distinct ks" and "set ks \<inter> fmdom' m = {}"
  shows "fold_res (absorb_one fb2) ks (Some m) =
         Inr (Some (fold (\<lambda>k acc. fmupd k (bundle_get fb2 k) acc) ks m))"
  using assms
proof (induction ks arbitrary: m)
  case (Cons k ks)
  then have "fmlookup m k = None" by auto
  moreover have "set ks \<inter> fmdom' (fmupd k (bundle_get fb2 k) m) = {}"
    using Cons.prems by auto
  ultimately show ?case using Cons by (simp add: absorb_one_def)
qed simp

lemma absorb_with_disjoint:
  assumes "enumerates ks (map_of_nilable fb2)" and "disjoint_bundles m (map_of_nilable fb2)"
  shows "absorb_with ks (Some m) fb2 = Inr (Some (m ++\<^sub>f map_of_nilable fb2))"
proof -
  have "fold (\<lambda>k acc. fmupd k (bundle_get fb2 k) acc) ks m = m ++\<^sub>f map_of_nilable fb2"
  proof (rule fmap_ext)
    fix x
    show "fmlookup (fold (\<lambda>k acc. fmupd k (bundle_get fb2 k) acc) ks m) x =
          fmlookup (m ++\<^sub>f map_of_nilable fb2) x"
      using assms(1)
      by (auto simp: fold_fmupd_lookup enumerates_def bundle_get_def fmlookup_dom_iff
          fmlookup_dom'_iff split: option.splits)
  qed
  then show ?thesis
    using assms by (simp add: absorb_with_def absorb_fold enumerates_def disjoint_bundles_def Int_commute)
qed

lemma absorb_disjoint:
  "disjoint_bundles m (map_of_nilable fb2) \<Longrightarrow>
   absorb (Some m) fb2 = Inr (Some (m ++\<^sub>f map_of_nilable fb2))"
  by (simp add: absorb_def absorb_with_disjoint keys_enumerates)

lemma absorb_with_collision:
  assumes "enumerates ks (map_of_nilable fb2)" and "\<not> disjoint_bundles m (map_of_nilable fb2)"
  shows "\<exists>k. absorb_with ks (Some m) fb2 = Inl (Collision (eid k)) \<and>
             k \<in> fmdom' m \<and> k \<in> fmdom' (map_of_nilable fb2)"
proof -
  let ?P = "\<lambda>k. k \<in> fmdom' m"
  have "\<exists>k \<in> set ks. ?P k"
    using assms by (auto simp: enumerates_def disjoint_bundles_def)
  then obtain pre k post where ks: "ks = pre @ k # post" and k: "?P k" and "\<forall>y \<in> set pre. \<not> ?P y"
    using split_list_first_prop [of ks ?P] by blast
  then have pre: "fold_res (absorb_one fb2) pre (Some m) =
      Inr (Some (fold (\<lambda>k acc. fmupd k (bundle_get fb2 k) acc) pre m))"
    using assms(1) by (intro absorb_fold) (auto simp: enumerates_def)
  have "fmlookup (fold (\<lambda>k acc. fmupd k (bundle_get fb2 k) acc) pre m) k \<noteq> None"
    using k by (auto simp: fold_fmupd_lookup fmlookup_dom'_iff)
  then have "absorb_with ks (Some m) fb2 = Inl (Collision (eid k))"
    by (simp add: absorb_with_def ks fold_res_append pre absorb_one_def)
  moreover have "k \<in> fmdom' (map_of_nilable fb2)"
    using assms(1) by (auto simp: ks enumerates_def)
  ultimately show ?thesis using k by blast
qed

lemma absorb_nil_empty: "absorb None fb2 = Inr None" if "map_of_nilable fb2 = fmempty"
  using that by (simp add: absorb_def absorb_with_def)

lemma absorb_nil:
  assumes "map_of_nilable fb2 \<noteq> fmempty"
  shows "absorb None fb2 = Inl NilMapWrite"
proof -
  obtain k ks where "keys (map_of_nilable fb2) = k # ks"
    using assms keys_Nil_iff by (metis list.exhaust)
  then show ?thesis by (simp add: absorb_def absorb_with_def absorb_one_def)
qed

lemma absorb_Inr_iff:
  "absorb (Some m) fb2 = Inr r \<longleftrightarrow>
     disjoint_bundles m (map_of_nilable fb2) \<and> r = Some (m ++\<^sub>f map_of_nilable fb2)"
proof (cases "disjoint_bundles m (map_of_nilable fb2)")
  case True
  then show ?thesis by (auto simp: absorb_disjoint)
next
  case False
  with absorb_with_collision [OF keys_enumerates False] show ?thesis
    by (auto simp: absorb_def)
qed

section \<open>What \<open>each\<close> computes\<close>

lemma fold_next_id_some:
  assumes "EngineId (-1) \<le> mx" and "mx < cur"
  shows "fold (\<lambda>k cur. if mx < k \<and> (k < cur \<or> cur = EngineId (-1)) then k else cur) ks cur =
         Min (insert cur {k \<in> set ks. mx < k})"
  using assms(2)
proof (induction ks arbitrary: cur)
  case Nil
  then show ?case by simp
next
  case (Cons k ks)
  have ne: "cur \<noteq> EngineId (-1)" using Cons.prems assms(1) by auto
  let ?S = "{k \<in> set ks. mx < k}"
  have fin: "finite ?S" by simp
  show ?case
  proof (cases "mx < k")
    case True
    have "(if mx < k \<and> (k < cur \<or> cur = EngineId (-1)) then k else cur) = min k cur"
      using True ne by (auto simp: min_def)
    moreover have "mx < min k cur" using True Cons.prems by simp
    moreover have "{x \<in> set (k # ks). mx < x} = insert k ?S" using True by auto
    ultimately show ?thesis using Cons.IH fin
      by (cases "?S = {}") (auto simp: min.assoc min.commute insert_commute)
  next
    case False
    then have "{x \<in> set (k # ks). mx < x} = ?S" by auto
    with False Cons show ?thesis by simp
  qed
qed

lemma next_id_eq:
  assumes "EngineId (-1) \<le> mx"
  shows "next_id mx ks =
    (if {k \<in> set ks. mx < k} = {} then EngineId (-1) else Min {k \<in> set ks. mx < k})"
proof (induction ks)
  case Nil
  then show ?case by (simp add: next_id_def)
next
  case (Cons k ks)
  let ?S = "{k \<in> set ks. mx < k}"
  show ?case
  proof (cases "mx < k")
    case True
    then have "{x \<in> set (k # ks). mx < x} = insert k ?S" by auto
    with True show ?thesis
      using fold_next_id_some [OF assms True, of ks] by (simp add: next_id_def)
  next
    case False
    then have "{x \<in> set (k # ks). mx < x} = ?S" by auto
    moreover have "next_id mx (k # ks) = next_id mx ks" using False by (simp add: next_id_def)
    ultimately show ?thesis using Cons by (simp only:)
  qed
qed

lemma next_id_ge: "EngineId (-1) \<le> mx \<Longrightarrow> EngineId (-1) \<le> next_id mx ks"
  using Min_in [of "{k \<in> set ks. mx < k}"] by (force simp: next_id_eq)

text \<open>The order of the inner range never matters.\<close>

lemma each_rounds_order:
  assumes "EngineId (-1) \<le> mx" and "\<And>j. set (ord j) = set (ord' j)"
  shows "each_rounds ord i n mx fb f s = each_rounds ord' i n mx fb f s"
  using assms(1)
proof (induction n arbitrary: i mx s)
  case (Suc n)
  have "next_id mx (ord i) = next_id mx (ord' i)"
    by (simp only: next_id_eq [OF Suc.prems] assms(2))
  then show ?case using Suc next_id_ge by (auto simp: Let_def intro!: seq_cong)
qed simp

lemma each_with_each:
  assumes "\<And>i. enumerates (ord i) (map_of_nilable fb)"
  shows "each_with ord fb f s = each fb f s"
  unfolding each_with_def each_def
  by (rule each_rounds_order) (use assms in \<open>auto simp: enumerates_def\<close>)

definition nonneg_ids :: "('k \<Rightarrow> int) \<Rightarrow> 'k set \<Rightarrow> bool" where
  "nonneg_ids f K \<longleftrightarrow> (\<forall>k \<in> K. 0 \<le> f k)"

text \<open>With ids from \<open>0\<close> up, \<open>each\<close> is one pass over the keys in ascending order.\<close>

lemma next_id_hd:
  assumes "EngineId (-1) \<le> mx" and "sorted (pre @ k # post)" and "distinct (pre @ k # post)"
    and "\<forall>x \<in> set pre. x \<le> mx" and "mx < k"
  shows "next_id mx (pre @ k # post) = k"
proof -
  have "{x \<in> set (pre @ k # post). mx < x} = set (k # post)"
    using assms by (auto simp: sorted_append)
  moreover have "Min (set (k # post)) = k"
    using assms(2) by (intro Min_eqI) (auto simp: sorted_append)
  ultimately show ?thesis using assms(1) by (simp add: next_id_eq)
qed

lemma each_rounds_fold:
  assumes "EngineId (-1) \<le> mx" and "sorted (pre @ post)" and "distinct (pre @ post)"
    and "\<forall>x \<in> set pre. x \<le> mx" and "\<forall>x \<in> set post. mx < x"
  shows "each_rounds (\<lambda>_. pre @ post) i (length post) mx fb f s =
         fold_res (\<lambda>k. f k (bundle_get fb k)) post s"
  using assms
proof (induction post arbitrary: pre mx i s)
  case (Cons k post)
  have k: "next_id mx (pre @ k # post) = k"
    using Cons.prems by (intro next_id_hd) auto
  have "each_rounds (\<lambda>_. (pre @ [k]) @ post) (Suc i) (length post) k fb f s' =
        fold_res (\<lambda>k. f k (bundle_get fb k)) post s'" for s'
    using Cons.prems by (intro Cons.IH) (auto simp: sorted_append less_le intro: order_trans)
  with k show ?case by (simp add: Let_def cong: seq_cong)
qed simp

lemma each_eq_fold:
  assumes "nonneg_ids eid (fmdom' (map_of_nilable fb))"
  shows "each fb f s = fold_res (\<lambda>k. f k (bundle_get fb k)) (keys (map_of_nilable fb)) s"
proof -
  have "\<forall>x \<in> set (keys (map_of_nilable fb)). EngineId (-1) < x"
    using assms by (fastforce simp: nonneg_ids_def less_engine_id_def)
  then show ?thesis
    using each_rounds_fold [of "EngineId (-1)" "[]" "keys (map_of_nilable fb)" 0 fb f s]
    by (simp add: each_def each_with_def)
qed

lemma each_total:
  assumes "\<And>k a s. \<exists>s'. f k a s = Inr s'"
  shows "\<exists>s'. each fb f s = Inr s'"
proof -
  have "\<exists>s'. each_rounds ord i n mx fb f s = Inr s'" for ord i n mx
  proof (induction n arbitrary: i mx s)
    case (Suc n)
    obtain s1 where "f (next_id mx (ord i)) (bundle_get fb (next_id mx (ord i))) s = Inr s1"
      using assms by blast
    then show ?case using Suc by (simp add: Let_def)
  qed simp
  then show ?thesis by (simp add: each_def each_with_def)
qed

end
