(* ===== verification/Game.thy ===== *)
theory Game
  imports Events
begin

text \<open>
  The games and events the engine drives. \<open>Event\<close> and \<open>Game\<close> of \<open>core/event.go\<close> are Go
  interfaces implemented by the user of the library: here a record of their methods, with the
  contract the engine relies on as the locale \<open>game_iface\<close>. The implementation that the
  repository itself contains, \<open>TestGame\<close> with the events \<open>EventA\<close> and \<open>EventB\<close>
  (\<open>core/all_specs_test.go\<close>), interprets it. The last section states what one frame is meant to
  compute, as a function on values.
\<close>

section \<open>The interfaces\<close>

text \<open>
  Games are objects with identity, and \<open>OverwriteWith\<close> gets two of them, so its model takes the
  two addresses as well as the two values. \<open>Copy\<close> returns the value of the new object; the
  updater's model allocates it. \<open>ApplyFirst\<close>, \<open>ApplyFinal\<close>, \<open>ThinkFirst\<close> and \<open>ThinkFinal\<close>
  are declared by the interfaces and never called by the engine.
\<close>

record ('e, 'g) game_ops =
  g_apply :: "'e \<Rightarrow> 'g \<Rightarrow> 'g"
  g_think :: "'g \<Rightarrow> 'g"
  g_copy :: "'g \<Rightarrow> 'g"
  g_overwrite :: "nat \<Rightarrow> nat \<Rightarrow> 'g \<Rightarrow> 'g \<Rightarrow> go_panic + 'g"

locale game_iface =
  fixes G :: "('e, 'g) game_ops"
  assumes copy_same: "g_copy G g = g"
    and overwrite_distinct: "a \<noteq> b \<Longrightarrow> g_overwrite G a b g h = Inr h"

section \<open>\<open>TestGame\<close>\<close>

record test_game =
  tg_a :: int
  tg_b :: string
  tg_thinks :: int

datatype test_event = EventA int | EventB string

fun test_apply :: "test_event \<Rightarrow> test_game \<Rightarrow> test_game" where
  "test_apply (EventA d) g = g\<lparr>tg_a := i64 (tg_a g + d)\<rparr>"
| "test_apply (EventB d) g = g\<lparr>tg_b := d\<rparr>"

definition test_think :: "test_game \<Rightarrow> test_game" where
  "test_think g = g\<lparr>tg_thinks := i64 (tg_thinks g + 1)\<rparr>"

definition test_copy :: "test_game \<Rightarrow> test_game" where
  "test_copy g = g"

definition test_overwrite :: "nat \<Rightarrow> nat \<Rightarrow> test_game \<Rightarrow> test_game \<Rightarrow> go_panic + test_game" where
  "test_overwrite a b g g2 = (if a = b then Inl UserPanic else Inr g2)"

definition test_ops :: "(test_event, test_game) game_ops" where
  "test_ops = \<lparr>g_apply = test_apply, g_think = test_think, g_copy = test_copy,
               g_overwrite = test_overwrite\<rparr>"

interpretation test: game_iface test_ops
  by unfold_locales (auto simp: test_ops_def test_copy_def test_overwrite_def)

lemma test_ops_simps [simp]:
  "g_apply test_ops = test_apply" "g_think test_ops = test_think"
  "g_copy test_ops = test_copy" "g_overwrite test_ops = test_overwrite"
  by (simp_all add: test_ops_def)

section \<open>What one frame computes\<close>

text \<open>
  The value-level meaning of a frame, which no code of the repository contains: the engine
  events of all engines in ascending order of their ids, then the game events of those engines
  that are known after that, again in ascending order, then \<open>Think\<close>.
\<close>

fun event_on_map :: "engine_event \<Rightarrow> (engine_id, bool) fmap \<Rightarrow> (engine_id, bool) fmap" where
  "event_on_map (EngineJoined i) m = fmupd i True m"
| "event_on_map (EngineDropped i) m = fmdrop i m"

definition frame_engines ::
  "'e bundle_map \<Rightarrow> (engine_id, bool) fmap \<Rightarrow> (engine_id, bool) fmap" where
  "frame_engines b m =
     fold (\<lambda>k. fold event_on_map (ae_engine (bundle_get (Some b) k))) (keys b) m"

definition frame_game ::
  "('e, 'g) game_ops \<Rightarrow> 'e bundle_map \<Rightarrow> (engine_id, bool) fmap \<Rightarrow> 'g \<Rightarrow> 'g" where
  "frame_game G b m g =
     g_think G (fold (\<lambda>k g. if k \<in> fmdom' m
                             then fold (g_apply G) (ae_game (bundle_get (Some b) k)) g else g)
                     (keys b) g)"

definition frame_step :: "('e, 'g) game_ops \<Rightarrow> 'e bundle_map \<Rightarrow>
  (engine_id, bool) fmap \<times> 'g \<Rightarrow> (engine_id, bool) fmap \<times> 'g" where
  "frame_step G b s = (let m = frame_engines b (fst s) in (m, frame_game G b m (snd s)))"

text \<open>The engine events of a bundle, executed by the code's callback, never panic on a copy.\<close>

lemma apply_engine_event_map:
  "apply_engine_event e \<lparr>ei_engines = Some m\<rparr> = Inr \<lparr>ei_engines = Some (event_on_map e m)\<rparr>"
  by (cases e) auto

lemma apply_engine_events_map:
  "fold_res apply_engine_event es \<lparr>ei_engines = Some m\<rparr> =
   Inr \<lparr>ei_engines = Some (fold event_on_map es m)\<rparr>"
  by (induction es arbitrary: m) (auto simp: apply_engine_event_map)

lemma each_engine_frame_engines:
  assumes "nonneg_ids eid (fmdom' b)"
  shows "each_engine (Some b) (\<lambda>_ es info. fold_res apply_engine_event es info) \<lparr>ei_engines = Some m\<rparr> =
         Inr \<lparr>ei_engines = Some (frame_engines b m)\<rparr>"
proof -
  have "fold_res (\<lambda>k. fold_res apply_engine_event (ae_engine (bundle_get (Some b) k))) ks
          \<lparr>ei_engines = Some m\<rparr> =
        Inr \<lparr>ei_engines = Some
          (fold (\<lambda>k. fold event_on_map (ae_engine (bundle_get (Some b) k))) ks m)\<rparr>" for ks
    by (induction ks arbitrary: m) (auto simp: apply_engine_events_map)
  with assms show ?thesis
    by (simp add: each_engine_def each_eq_fold frame_engines_def)
qed

end
