(* ===== verification/Updater.thy ===== *)
theory Updater
  imports Windows Game
begin

text \<open>
  The updater of \<open>core/updater.go\<close>: it stores the bundles of every frame of a sliding window,
  rewinds and replays the frames that late bundles make dirty, finalises complete frames, and
  answers requests for game states. Games live in a heap (a list, a pointer is an index,
  \<open>None\<close> is nil), because the window's slots own their game objects, \<open>OverwriteWith\<close> mutates
  them in place and the answers hand out the pointers themselves. Bundle maps and engine maps
  are values: the updater is the only one to write its own, and the ones it passes on are never
  written again.
\<close>

section \<open>State\<close>

record 'e frame_data =
  fd_info :: engine_info
  fd_game :: "nat option"
  fd_bundle :: "'e event_bundle"

definition zero_frame_data :: "'e frame_data" where
  "zero_frame_data = \<lparr>fd_info = \<lparr>ei_engines = None\<rparr>, fd_game = None, fd_bundle = None\<rparr>"

record boot_frame =
  bf_frame :: int
  bf_game :: "nat option"
  bf_info :: engine_info

record state_request =
  rq_frame :: int
  rq_chan :: nat          \<comment> \<open>the response channel, identified by a number\<close>
  rq_final :: bool

text \<open>What the updater sends: on \<open>Broadcast_bundles\<close>, on \<open>Bootstrap_frames\<close>, on the response
  channel of a request (game pointer and frame), and on \<open>info_response\<close>.\<close>

datatype 'e upd_out =
    Broadcast "'e frame_bundle"
  | BootstrapOut boot_frame
  | Respond nat "nat option" int
  | InfoResponse int
  | CloseBroadcast

record ('e, 'g) updater =
  up_params :: engine_params
  up_hosting :: bool                        \<comment> \<open>\<open>Bootstrap_frames != nil\<close>\<close>
  up_window :: "'e frame_data data_window"  \<comment> \<open>\<open>data_window\<close>\<close>
  up_heap :: "'g list"
  up_skip :: int                            \<comment> \<open>\<open>skip_to_frame\<close>\<close>
  up_local :: int                           \<comment> \<open>\<open>local_frame\<close>\<close>
  up_global :: int                          \<comment> \<open>\<open>global_frame\<close>\<close>
  up_dirty :: int                           \<comment> \<open>\<open>oldest_dirty_frame\<close>\<close>
  up_final :: "state_request list"          \<comment> \<open>\<open>final_requests\<close>\<close>
  up_fast :: "state_request list"           \<comment> \<open>\<open>fast_requests\<close>\<close>
  up_shutdown :: bool                       \<comment> \<open>is the channel \<open>shutdown\<close> non-nil\<close>
  up_out :: "'e upd_out list"               \<comment> \<open>everything sent so far, oldest first\<close>

section \<open>Games in the heap\<close>

definition load :: "'g list \<Rightarrow> nat option \<Rightarrow> go_panic + 'g" where
  "load h p = (case p of None \<Rightarrow> Inl NilDereference
     | Some a \<Rightarrow> if a < length h then Inr (h ! a) else Inl NilDereference)"

definition copy_game ::
  "('e, 'g) game_ops \<Rightarrow> 'g list \<Rightarrow> nat option \<Rightarrow> go_panic + 'g list \<times> nat option" where
  "copy_game G h p = seq (load h p) (\<lambda>g. Inr (h @ [g_copy G g], Some (length h)))"

definition overwrite_with ::
  "('e, 'g) game_ops \<Rightarrow> 'g list \<Rightarrow> nat option \<Rightarrow> nat option \<Rightarrow> go_panic + 'g list" where
  "overwrite_with G h dst src =
     seq (load h dst) (\<lambda>g. seq (load h src) (\<lambda>g2.
     seq (g_overwrite G (the dst) (the src) g g2) (\<lambda>g'. Inr (h[the dst := g']))))"

definition on_game :: "('g \<Rightarrow> 'g) \<Rightarrow> nat option \<Rightarrow> 'g list \<Rightarrow> go_panic + 'g list" where
  "on_game f p h = seq (load h p) (\<lambda>g. Inr (h[the p := f g]))"

section \<open>Operations\<close>

definition send :: "'e upd_out \<Rightarrow> ('e, 'g) updater \<Rightarrow> ('e, 'g) updater" where
  "send m u = u\<lparr>up_out := up_out u @ [m]\<rparr>"

abbreviation win_start :: "('e, 'g) updater \<Rightarrow> int" where
  "win_start u \<equiv> dw_first (up_window u)"

definition fulfill_final_requests :: "('e, 'g) updater \<Rightarrow> go_panic + ('e, 'g) updater" where
  "fulfill_final_requests u =
     (case sweep (\<lambda>r. rq_frame r = win_start u) 0 (up_final u) of (hs, rest) \<Rightarrow>
        if hs = [] then Inr u
        else seq (dw_get (up_window u) (win_start u)) (\<lambda>data.
             Inr (u\<lparr>up_final := rest,
                    up_out := up_out u @
                      map (\<lambda>r. Respond (rq_chan r) (fd_game data) (win_start u)) hs\<rparr>)))"

definition fulfill_fast_requests :: "('e, 'g) updater \<Rightarrow> go_panic + ('e, 'g) updater" where
  "fulfill_fast_requests u =
     (case sweep (\<lambda>r. rq_frame r = up_local u) 0 (up_fast u) of (hs, rest) \<Rightarrow>
        if hs = [] then Inr u
        else seq (dw_get (up_window u) (up_local u)) (\<lambda>data.
             Inr (u\<lparr>up_fast := rest,
                    up_out := up_out u @
                      map (\<lambda>r. Respond (rq_chan r) (fd_game data) (up_local u)) hs\<rparr>)))"

text \<open>The body of the first loop of \<open>advance\<close>: recompute one frame from the previous one.\<close>

definition apply_game_events :: "('e, 'g) game_ops \<Rightarrow> engine_info \<Rightarrow> nat option \<Rightarrow>
  engine_id \<Rightarrow> 'e list \<Rightarrow> 'g list \<Rightarrow> go_panic + 'g list" where
  "apply_game_events G info p i es h =
     (if fmlookup (known_engines info) i = None then Inr h
      else fold_res (\<lambda>e. on_game (g_apply G e) p) es h)"

definition rethink_frame :: "('e, 'g) game_ops \<Rightarrow> int \<Rightarrow>
  ('e, 'g) updater \<times> 'e frame_data \<Rightarrow> go_panic + ('e, 'g) updater \<times> 'e frame_data" where
  "rethink_frame G frame s =
     (let u = fst s; prev = snd s in
      seq (dw_get (up_window u) frame) (\<lambda>data.
      seq (overwrite_with G (up_heap u) (fd_game data) (fd_game prev)) (\<lambda>h1.
      seq (each_engine (fd_bundle data) (\<lambda>_ es info. fold_res apply_engine_event es info)
             (info_copy (fd_info prev))) (\<lambda>info.
      seq (each_game (fd_bundle data) (apply_game_events G info (fd_game data)) h1) (\<lambda>h2.
      seq (if ei_engines info \<noteq> None then on_game (g_think G) (fd_game data) h2 else Inr h2) (\<lambda>h3.
      let data' = data\<lparr>fd_info := info\<rparr> in
      seq (dw_set (up_window u) frame data') (\<lambda>w.
      Inr (u\<lparr>up_window := w, up_heap := h3\<rparr>, data'))))))))"

definition rethink :: "('e, 'g) game_ops \<Rightarrow> ('e, 'g) updater \<Rightarrow> go_panic + ('e, 'g) updater" where
  "rethink G u =
     seq (dw_get (up_window u) (i32 (up_dirty u - 1))) (\<lambda>prev.
     seq (for_le (up_dirty u) (up_global u) (rethink_frame G) (u, prev)) (\<lambda>s.
     Inr ((fst s)\<lparr>up_dirty := i32 (up_global (fst s) + 1)\<rparr>)))"

text \<open>Are events of all engines listed in the frame's own \<open>Info\<close> present?\<close>

definition all_present :: "engine_id list \<Rightarrow> 'e event_bundle \<Rightarrow> bool" where
  "all_present ks b =
     fold (\<lambda>i ok. if fmlookup (map_of_nilable b) i = None then False else ok) ks True"

text \<open>
  The second loop of \<open>advance\<close>. Each round moves the window by one frame and its guard is
  \<open>Start() < global_frame\<close>, so the fuel \<open>global_frame - Start()\<close> is never exhausted.
\<close>

fun finalize_loop :: "nat \<Rightarrow> ('e, 'g) updater \<Rightarrow> go_panic + ('e, 'g) updater" where
  "finalize_loop 0 u = (if win_start u < up_global u then Inl OutOfFuel else Inr u)"
| "finalize_loop (Suc n) u =
     (if win_start u < up_global u
      then seq (dw_get (up_window u) (i32 (win_start u + 1))) (\<lambda>data.
           if all_present (keys (known_engines (fd_info data))) (fd_bundle data)
           then seq (dw_advance (up_window u)) (\<lambda>w.
                let u1 = u\<lparr>up_window := w\<rparr>;
                    u2 = (if up_hosting u1
                          then send (BootstrapOut \<lparr>bf_frame = win_start u1, bf_game = fd_game data,
                                                   bf_info = fd_info data\<rparr>) u1
                          else u1)
                in seq (fulfill_final_requests u2) (finalize_loop n))
           else Inr u)
      else Inr u)"

definition advance :: "('e, 'g) game_ops \<Rightarrow> ('e, 'g) updater \<Rightarrow> go_panic + ('e, 'g) updater" where
  "advance G u =
     seq (rethink G u) (\<lambda>u'. finalize_loop (nat (up_global u' - win_start u')) u')"

definition init_frame_data :: "int \<Rightarrow> ('e, 'g) updater \<Rightarrow> go_panic + ('e, 'g) updater" where
  "init_frame_data frame u =
     (if i32 (frame - 1) < win_start u then Inr u
      else seq (dw_get (up_window u) (i32 (frame - 1))) (\<lambda>prev.
           seq (dw_get (up_window u) frame) (\<lambda>data.
           seq (dw_set (up_window u) frame
                 (data\<lparr>fd_bundle := Some fmempty, fd_info := info_copy (fd_info prev)\<rparr>)) (\<lambda>w.
           Inr (u\<lparr>up_window := w\<rparr>)))))"

text \<open>Put the events of a bundle into the window: the \<open>Get\<close>, \<open>AbsorbEventBundle\<close>, \<open>Set\<close> of
  the three places that do so.\<close>

definition absorb_at ::
  "int \<Rightarrow> 'e event_bundle \<Rightarrow> ('e, 'g) updater \<Rightarrow> go_panic + ('e, 'g) updater" where
  "absorb_at frame b u =
     seq (dw_get (up_window u) frame) (\<lambda>data.
     seq (absorb (fd_bundle data) b) (\<lambda>b'.
     seq (dw_set (up_window u) frame (data\<lparr>fd_bundle := b'\<rparr>)) (\<lambda>w.
     Inr (u\<lparr>up_window := w\<rparr>))))"

section \<open>The handlers of \<open>routine\<close>\<close>

definition dummy_bundle :: "engine_id \<Rightarrow> 'e event_bundle" where
  "dummy_bundle i = Some (fmupd i no_events fmempty)"

text \<open>
  An engine that has just learned the frame it joins on fills the frames up to its first local
  bundle with empty events of its own.
\<close>

definition fill_skipped_one :: "int \<Rightarrow> ('e, 'g) updater \<Rightarrow> go_panic + ('e, 'g) updater" where
  "fill_skipped_one frame u =
     seq (absorb_at frame (dummy_bundle (ep_id (up_params u))) u) (\<lambda>u'.
     Inr (send (Broadcast \<lparr>fb_frame = frame,
                           fb_bundle = dummy_bundle (ep_id (up_params u))\<rparr>) u'))"

definition fill_skipped :: "int \<Rightarrow> ('e, 'g) updater \<Rightarrow> go_panic + ('e, 'g) updater" where
  "fill_skipped local_frame u =
     (let u1 = (if up_skip u < up_dirty u then u\<lparr>up_dirty := up_skip u\<rparr> else u) in
      seq (for_lt (up_skip u) local_frame fill_skipped_one u1) (\<lambda>u2.
      Inr (u2\<lparr>up_skip := 0\<rparr>)))"

definition extend_to :: "int \<Rightarrow> ('e, 'g) updater \<Rightarrow> ('e, 'g) updater" where
  "extend_to frame u =
     (let u1 = (if up_global u < frame then u\<lparr>up_global := frame\<rparr> else u)
      in if frame < up_dirty u1 then u1\<lparr>up_dirty := frame\<rparr> else u1)"

definition handle_local :: "('e, 'g) game_ops \<Rightarrow> 'e frame_bundle \<Rightarrow> ('e, 'g) updater \<Rightarrow>
  go_panic + ('e, 'g) updater" where
  "handle_local G lb u =
     (if up_skip u = -1 \<or> fb_frame lb < up_skip u then Inr u
      else seq (if 0 < up_skip u then fill_skipped (fb_frame lb) u else Inr u) (\<lambda>u1.
           let u2 = u1\<lparr>up_local := fb_frame lb\<rparr>;
               start = i32 (up_global u2 + 1);
               start' = (if start < up_skip u2 then up_skip u2 else start)
           in seq (for_le start' (up_local u2) init_frame_data u2) (\<lambda>u3.
              seq (absorb_at (fb_frame lb) (fb_bundle lb) (extend_to (up_local u3) u3)) (\<lambda>u4.
              seq (advance G (send (Broadcast lb) u4)) fulfill_fast_requests))))"

text \<open>While bootstrapping, look for the event that announces this engine.\<close>

definition note_joined :: "engine_id \<Rightarrow> int \<Rightarrow> engine_event list \<Rightarrow> int \<Rightarrow> go_panic + int" where
  "note_joined me frame es skip =
     fold_res (\<lambda>e sk. Inr (case e of EngineJoined j \<Rightarrow> if j = me then frame else sk
                                  | EngineDropped j \<Rightarrow> sk)) es skip"

definition remote_one :: "'e frame_bundle \<Rightarrow> ('e, 'g) updater \<Rightarrow> go_panic + ('e, 'g) updater" where
  "remote_one rb u =
     (if fb_frame rb \<le> win_start u then Inr u
      else seq (for_le (i32 (up_global u + 1)) (fb_frame rb) init_frame_data u) (\<lambda>u1.
           let u2 = extend_to (fb_frame rb) u1 in
           seq (if up_skip u2 = -1
                then seq (each_engine (fb_bundle rb)
                            (\<lambda>_. note_joined (ep_id (up_params u2)) (fb_frame rb)) (up_skip u2))
                       (\<lambda>sk. Inr (u2\<lparr>up_skip := sk\<rparr>))
                else Inr u2)
             (absorb_at (fb_frame rb) (fb_bundle rb))))"

definition handle_remote :: "('e, 'g) game_ops \<Rightarrow> 'e frame_bundle list \<Rightarrow> ('e, 'g) updater \<Rightarrow>
  go_panic + ('e, 'g) updater" where
  "handle_remote G rbs u = seq (fold_res remote_one rbs u) (advance G)"

definition respond_from ::
  "int \<Rightarrow> state_request \<Rightarrow> ('e, 'g) updater \<Rightarrow> go_panic + ('e, 'g) updater" where
  "respond_from frame r u =
     seq (dw_get (up_window u) frame) (\<lambda>data.
     Inr (send (Respond (rq_chan r) (fd_game data) frame) u))"

definition handle_request :: "state_request \<Rightarrow> ('e, 'g) updater \<Rightarrow> go_panic + ('e, 'g) updater" where
  "handle_request r u =
     (if rq_final r
      then if rq_frame r < 0 \<or> rq_frame r = win_start u then respond_from (win_start u) r u
           else if rq_frame r < win_start u then Inr (send (Respond (rq_chan r) None 0) u)
           else Inr (u\<lparr>up_final := up_final u @ [r]\<rparr>)
      else if rq_frame r < 0 then respond_from (up_local u) r u
           else if rq_frame r < win_start u then Inr (send (Respond (rq_chan r) None 0) u)
           else if rq_frame r \<le> up_local u then respond_from (rq_frame r) r u
           else Inr (u\<lparr>up_fast := up_fast u @ [r]\<rparr>))"

definition handle_info :: "('e, 'g) updater \<Rightarrow> go_panic + ('e, 'g) updater" where
  "handle_info u =
     seq (dw_get (up_window u) (win_start u)) (\<lambda>data.
     Inr (send (InfoResponse (int (length (keys (known_engines (fd_info data)))))) u))"

text \<open>
  One round of the \<open>select\<close> of \<open>routine\<close>. \<open>None\<close>: the case cannot be chosen (a receive from a
  nil channel blocks for ever).
\<close>

datatype 'e upd_in =
    LocalBundle "'e frame_bundle"
  | RemoteBundles "'e frame_bundle list"
  | RequestState state_request
  | InfoRequest
  | ShutdownSignal

fun upd_step :: "('e, 'g) game_ops \<Rightarrow> 'e upd_in \<Rightarrow> ('e, 'g) updater \<Rightarrow>
  (go_panic + ('e, 'g) updater) option" where
  "upd_step G (LocalBundle lb) u = Some (handle_local G lb u)"
| "upd_step G (RemoteBundles rbs) u = Some (handle_remote G rbs u)"
| "upd_step G (RequestState r) u = Some (handle_request r u)"
| "upd_step G InfoRequest u = Some (handle_info u)"
| "upd_step G ShutdownSignal u =
     (if up_shutdown u then Some (Inr (send CloseBroadcast u)) else None)"

section \<open>Starting\<close>

definition zero_updater :: "engine_params \<Rightarrow> bool \<Rightarrow> 'g list \<Rightarrow> ('e, 'g) updater" where
  "zero_updater p hosting h =
     \<lparr>up_params = p, up_hosting = hosting,
      up_window = \<lparr>dw_first = 0, dw_start = 0, dw_data = []\<rparr>, up_heap = h,
      up_skip = 0, up_local = 0, up_global = 0, up_dirty = 0, up_final = [], up_fast = [],
      up_shutdown = False, up_out = []\<rparr>"

text \<open>The loop that gives every slot of the window a copy of a game.\<close>

definition seed_game :: "('e, 'g) game_ops \<Rightarrow> nat option \<Rightarrow> int \<Rightarrow>
  'e frame_data data_window \<times> 'g list \<Rightarrow> go_panic + 'e frame_data data_window \<times> 'g list" where
  "seed_game G p i s =
     (case s of (w, h) \<Rightarrow>
        seq (dw_get w i) (\<lambda>fd.
        seq (copy_game G h p) (\<lambda>c.
        seq (dw_set w i (fd\<lparr>fd_game := snd c\<rparr>)) (\<lambda>w'. Inr (w', fst c)))))"

definition start :: "('e, 'g) game_ops \<Rightarrow> int \<Rightarrow> 'e frame_data \<Rightarrow> ('e, 'g) updater \<Rightarrow>
  go_panic + ('e, 'g) updater" where
  "start G frame data u =
     seq (new_data_window zero_frame_data (i64 (ep_max_frames (up_params u) + 1)) frame) (\<lambda>w0.
     seq (dw_set w0 frame data) (\<lambda>w1.
     seq (for_lt (dw_first w1) (dw_end w1) (seed_game G (fd_game data)) (w1, up_heap u)) (\<lambda>s.
     Inr (u\<lparr>up_window := fst s, up_heap := snd s, up_local := frame, up_global := frame,
            up_dirty := i32 (frame + 1)\<rparr>))))"

definition bootstrap_bundle :: "engine_info \<Rightarrow> 'e event_bundle" where
  "bootstrap_bundle info =
     Some (fold (\<lambda>i b. fmupd i no_events b) (keys (known_engines info)) fmempty)"

definition bootstrap :: "('e, 'g) game_ops \<Rightarrow> boot_frame \<Rightarrow> ('e, 'g) updater \<Rightarrow>
  go_panic + ('e, 'g) updater" where
  "bootstrap G boot u =
     seq (new_data_window zero_frame_data (i64 (ep_max_frames (up_params u) + 1)) (bf_frame boot)) (\<lambda>w0.
     seq (for_lt (dw_first w0) (dw_end w0) (seed_game G (bf_game boot)) (w0, up_heap u)) (\<lambda>s.
     seq (copy_game G (snd s) (bf_game boot)) (\<lambda>c1.
     seq (dw_set (fst s) (bf_frame boot)
            \<lparr>fd_info = bf_info boot, fd_game = snd c1, fd_bundle = bootstrap_bundle (bf_info boot)\<rparr>) (\<lambda>w2.
     seq (copy_game G (fst c1) (bf_game boot)) (\<lambda>c2.
     seq (dw_set w2 (i32 (bf_frame boot + 1))
            \<lparr>fd_info = bf_info boot, fd_game = snd c2, fd_bundle = Some fmempty\<rparr>) (\<lambda>w3.
     Inr (u\<lparr>up_window := w3, up_heap := fst c2, up_skip := -1,
            up_local := i32 (bf_frame boot + 1), up_global := i32 (bf_frame boot + 1),
            up_dirty := i32 (bf_frame boot + 2)\<rparr>)))))))"

section \<open>Nagling\<close>

text \<open>
  \<open>nagle\<close> groups the remote bundles that arrive within a microsecond. Its input is the sequence
  of arrivals and timer ticks as they happen; a tick matters only while a group is open.
\<close>

datatype 'e nagle_in = Arrival "'e frame_bundle" | TimerFires

fun nagle :: "'e frame_bundle list option \<Rightarrow> 'e nagle_in list \<Rightarrow>
  'e frame_bundle list list \<times> 'e frame_bundle list option" where
  "nagle grp [] = ([], grp)"
| "nagle None (Arrival b # is) = nagle (Some [b]) is"
| "nagle (Some g) (Arrival b # is) = nagle (Some (g @ [b])) is"
| "nagle None (TimerFires # is) = nagle None is"
| "nagle (Some g) (TimerFires # is) = (case nagle None is of (gs, r) \<Rightarrow> (g # gs, r))"

end
