(* ===== verification/Updater_Replay.thy ===== *)
theory Updater_Replay
  imports Updater
begin

text \<open>
  The invariant of the updater and its refinement: whatever the order in which bundles arrive,
  the games in the window are those of a replay of all events, frame by frame, from the frame
  the updater started on.
\<close>

section \<open>Views of the state\<close>

definition fd_at :: "('e, 'g) updater \<Rightarrow> int \<Rightarrow> 'e frame_data" where
  "fd_at u f = dw_at (up_window u) f"

definition game_at :: "('e, 'g) updater \<Rightarrow> int \<Rightarrow> 'g" where
  "game_at u f = up_heap u ! the (fd_game (fd_at u f))"

definition engines_at :: "('e, 'g) updater \<Rightarrow> int \<Rightarrow> (engine_id, bool) fmap" where
  "engines_at u f = known_engines (fd_info (fd_at u f))"

text \<open>Every slot of the window owns a game object of its own.\<close>

definition games_ok :: "'e frame_data list \<Rightarrow> 'g list \<Rightarrow> bool" where
  "games_ok ds h \<longleftrightarrow> (\<forall>d \<in> set ds. \<exists>a < length h. fd_game d = Some a) \<and> distinct (map fd_game ds)"

definition win_ok :: "('e, 'g) updater \<Rightarrow> bool" where
  "win_ok u \<longleftrightarrow> dw_ok (up_window u) \<and> games_ok (dw_data (up_window u)) (up_heap u)"

abbreviation inwin :: "('e, 'g) updater \<Rightarrow> int \<Rightarrow> bool" where
  "inwin u f \<equiv> dw_inb (up_window u) f"

lemma win_ok_dw: "win_ok u \<Longrightarrow> dw_ok (up_window u)"
  by (simp add: win_ok_def)

lemma fd_at_mem: "win_ok u \<Longrightarrow> fd_at u f \<in> set (dw_data (up_window u))"
  using dw_slot_less [of "up_window u" f] by (simp add: fd_at_def dw_at_def win_ok_def)

lemma game_ptr:
  assumes "win_ok u"
  obtains a where "fd_game (fd_at u f) = Some a" and "a < length (up_heap u)"
  using assms fd_at_mem [OF assms, of f] by (auto simp: win_ok_def games_ok_def)

lemma game_ptr_inj:
  assumes "win_ok u" and "inwin u f" and "inwin u f'"
    and "fd_game (fd_at u f) = fd_game (fd_at u f')"
  shows "f = f'"
proof -
  let ?w = "up_window u"
  have w: "dw_ok ?w" and d: "distinct (map fd_game (dw_data ?w))"
    using assms(1) by (auto simp: win_ok_def games_ok_def)
  have "dw_slot ?w f = dw_slot ?w f'"
    using assms(4) nth_eq_iff_index_eq [OF d] dw_slot_less [OF w]
    by (simp add: fd_at_def dw_at_def)
  with w assms(2,3) show ?thesis by (rule dw_slot_inj)
qed

lemma dw_get_fd_at: "win_ok u \<Longrightarrow> inwin u f \<Longrightarrow> dw_get (up_window u) f = Inr (fd_at u f)"
  by (simp add: dw_get_eq fd_at_def win_ok_def)

lemma games_ok_put:
  assumes "games_ok ds h" and "i < length ds" and "fd_game d = fd_game (ds ! i)"
  shows "games_ok (ds[i := d]) h"
proof -
  have "map fd_game (ds[i := d]) = map fd_game ds"
    using assms(2,3) by (simp add: map_update list_update_same_conv)
  moreover have "\<forall>x \<in> set (ds[i := d]). \<exists>a < length h. fd_game x = Some a"
    using assms set_update_subset_insert [of ds i d] nth_mem [OF assms(2)]
    by (fastforce simp: games_ok_def)
  ultimately show ?thesis using assms(1) by (simp add: games_ok_def)
qed

text \<open>Writing back a slot with the game it had.\<close>

lemma win_ok_put:
  assumes "win_ok u" and "fd_game d = fd_game (fd_at u f)" and "length h = length (up_heap u)"
  shows "win_ok (u\<lparr>up_window := dw_put (up_window u) f d, up_heap := h\<rparr>)"
  using assms dw_slot_less [of "up_window u" f]
    games_ok_put [of "dw_data (up_window u)" "up_heap u" "dw_slot (up_window u) f" d]
  by (auto simp: win_ok_def dw_put_data fd_at_def dw_at_def games_ok_def)

lemma fd_at_put:
  "win_ok u \<Longrightarrow> inwin u f \<Longrightarrow> inwin u f' \<Longrightarrow>
   fd_at (u\<lparr>up_window := dw_put (up_window u) f d, up_heap := h\<rparr>) f' =
     (if f' = f then d else fd_at u f')"
  by (simp add: fd_at_def dw_at_put win_ok_def)

lemma game_at_put:
  assumes "win_ok u" and "inwin u f" and "inwin u f'"
    and "fd_game d = fd_game (fd_at u f)"
  shows "game_at (u\<lparr>up_window := dw_put (up_window u) f d,
                    up_heap := (up_heap u)[the (fd_game (fd_at u f)) := g]\<rparr>) f' =
         (if f' = f then g else game_at u f')"
proof -
  obtain a where a: "fd_game (fd_at u f) = Some a" "a < length (up_heap u)"
    using game_ptr [OF assms(1)] by blast
  obtain b where b: "fd_game (fd_at u f') = Some b" using game_ptr [OF assms(1)] by blast
  have "f' \<noteq> f \<Longrightarrow> b \<noteq> a" using game_ptr_inj [OF assms(1-3)] a b by auto
  then show ?thesis using assms a b by (auto simp: game_at_def fd_at_put)
qed

section \<open>One frame, executed\<close>

lemma on_game_eq:
  "a < length h \<Longrightarrow> on_game f (Some a) h = Inr (h[a := f (h ! a)])"
  by (simp add: on_game_def load_def)

lemma fold_on_game:
  assumes "a < length h"
  shows "fold_res (\<lambda>e. on_game (f e) (Some a)) es h = Inr (h[a := fold f es (h ! a)])"
  using assms by (induction es arbitrary: h) (auto simp: on_game_eq)

lemma apply_game_events_eq:
  assumes "a < length h"
  shows "apply_game_events G info (Some a) i es h =
         Inr (h[a := if i \<in> fmdom' (known_engines info) then fold (g_apply G) es (h ! a) else h ! a])"
  using assms by (auto simp: apply_game_events_def fold_on_game fmlookup_dom'_iff)

lemma each_game_eq:
  assumes "a < length h" and "nonneg_ids eid (fmdom' b)"
  shows "each_game (Some b) (apply_game_events G info (Some a)) h =
         Inr (h[a := fold (\<lambda>k g. if k \<in> fmdom' (known_engines info)
                            then fold (g_apply G) (ae_game (bundle_get (Some b) k)) g else g)
                        (keys b) (h ! a)])"
proof -
  have "fold_res (\<lambda>k. apply_game_events G info (Some a) k (ae_game (bundle_get (Some b) k))) ks h =
        Inr (h[a := fold (\<lambda>k g. if k \<in> fmdom' (known_engines info)
                            then fold (g_apply G) (ae_game (bundle_get (Some b) k)) g else g)
                        ks (h ! a)])" for ks
    using assms(1) by (induction ks arbitrary: h) (auto simp: apply_game_events_eq)
  with assms(2) show ?thesis by (simp add: each_game_def each_eq_fold)
qed

context game_iface
begin

lemma rethink_frame_eq:
  assumes "win_ok u" and "inwin u f" and "inwin u (f - 1)" and "fd_bundle (fd_at u f) = Some b"
    and "nonneg_ids eid (fmdom' b)"
  defines "m \<equiv> frame_engines b (engines_at u (f - 1))"
  defines "d \<equiv> (fd_at u f)\<lparr>fd_info := \<lparr>ei_engines = Some m\<rparr>\<rparr>"
  shows "rethink_frame G f (u, fd_at u (f - 1)) =
         Inr (u\<lparr>up_window := dw_put (up_window u) f d,
                up_heap := (up_heap u)[the (fd_game (fd_at u f)) := frame_game G b m (game_at u (f - 1))]\<rparr>, d)"
proof -
  let ?p = "fd_at u (f - 1)" and ?d = "fd_at u f"
  obtain a where a: "fd_game ?d = Some a" "a < length (up_heap u)"
    using game_ptr [OF assms(1)] by blast
  obtain c where c: "fd_game ?p = Some c" "c < length (up_heap u)"
    using game_ptr [OF assms(1)] by blast
  have "a \<noteq> c" using game_ptr_inj [OF assms(1-3)] a c by auto
  then have ow: "overwrite_with G (up_heap u) (fd_game ?d) (fd_game ?p) =
      Inr ((up_heap u)[a := game_at u (f - 1)])"
    using a c by (simp add: overwrite_with_def load_def overwrite_distinct game_at_def)
  have info: "each_engine (Some b) (\<lambda>_ es info. fold_res apply_engine_event es info)
      (info_copy (fd_info ?p)) = Inr \<lparr>ei_engines = Some m\<rparr>"
    by (simp add: info_copy_eq each_engine_frame_engines assms(5) m_def engines_at_def)
  let ?ev = "\<lambda>g. fold (\<lambda>k g. if k \<in> fmdom' m
               then fold (g_apply G) (ae_game (bundle_get (Some b) k)) g else g) (keys b) g"
  have ev: "each_game (Some b) (apply_game_events G \<lparr>ei_engines = Some m\<rparr> (Some a))
      ((up_heap u)[a := game_at u (f - 1)]) = Inr ((up_heap u)[a := ?ev (game_at u (f - 1))])"
    using a by (simp add: each_game_eq assms(5) known_engines_def)
  show ?thesis
    using assms(1,2) a ow info ev
    by (simp add: rethink_frame_def Let_def dw_get_fd_at assms(4) on_game_eq win_ok_dw
        dw_set_put frame_game_def d_def)
qed

end

section \<open>The history a state stands for\<close>

text \<open>
  The abstract state: the frame, engines and game the updater started from, and all bundles
  it has accepted for later frames. A bootstrapped updater keeps a placeholder (a copy of the
  game it was sent) on the first frame after the base until a bundle for that frame arrives;
  \<open>hi_pending\<close> says that this is still so.
\<close>

record ('e, 'g) history =
  hi_base :: int
  hi_engines :: "(engine_id, bool) fmap"
  hi_game :: 'g
  hi_bundles :: "int \<Rightarrow> 'e bundle_map"
  hi_pending :: bool

primrec replay :: "('e, 'g) game_ops \<Rightarrow> ('e, 'g) history \<Rightarrow> nat \<Rightarrow> (engine_id, bool) fmap \<times> 'g" where
  "replay G s 0 = (hi_engines s, hi_game s)"
| "replay G s (Suc n) =
     (if n = 0 \<and> hi_pending s then replay G s n
      else frame_step G (hi_bundles s (hi_base s + int (Suc n))) (replay G s n))"

definition state_at :: "('e, 'g) game_ops \<Rightarrow> ('e, 'g) history \<Rightarrow> int \<Rightarrow> (engine_id, bool) fmap \<times> 'g" where
  "state_at G s f = replay G s (nat (f - hi_base s))"

lemma state_at_base: "state_at G s (hi_base s) = (hi_engines s, hi_game s)"
  by (simp add: state_at_def)

lemma state_at_pending:
  "hi_pending s \<Longrightarrow> state_at G s (hi_base s + 1) = (hi_engines s, hi_game s)"
  by (simp add: state_at_def)

lemma state_at_step:
  assumes "hi_base s < f" and "hi_pending s \<Longrightarrow> f \<noteq> hi_base s + 1"
  shows "state_at G s f = frame_step G (hi_bundles s f) (state_at G s (f - 1))"
proof -
  obtain n where n: "f - hi_base s = int (Suc n)"
    using assms by (metis diff_gt_0_iff_gt zero_less_imp_eq_int gr0_implies_Suc)
  then have "nat (f - hi_base s) = Suc n" and "nat (f - 1 - hi_base s) = n"
    and f: "hi_base s + int (Suc n) = f"
    by auto
  moreover have "\<not> (n = 0 \<and> hi_pending s)" using assms(2) f by auto
  ultimately show ?thesis by (auto simp: state_at_def simp del: of_nat_Suc)
qed

text \<open>The replay of a frame looks at the bundles up to that frame only.\<close>

lemma state_at_cong:
  assumes "hi_base s = hi_base t" and "hi_engines s = hi_engines t" and "hi_game s = hi_game t"
    and "hi_base s < f \<Longrightarrow> hi_pending s = hi_pending t"
    and "\<And>k. hi_base s < k \<Longrightarrow> k \<le> f \<Longrightarrow> hi_bundles s k = hi_bundles t k"
  shows "state_at G s f = state_at G t f"
proof -
  have "n \<le> nat (f - hi_base s) \<Longrightarrow> replay G s n = replay G t n" for n
  proof (induction n)
    case (Suc n)
    then have "hi_bundles s (hi_base s + int (Suc n)) = hi_bundles t (hi_base s + int (Suc n))"
      by (intro assms(5)) auto
    moreover have "hi_pending s = hi_pending t" using Suc.prems assms(4) by auto
    ultimately show ?case using Suc by (auto simp: assms(1-3))
  qed (simp add: assms)
  then show ?thesis by (simp add: state_at_def assms(1))
qed

definition add_bundle :: "int \<Rightarrow> 'e bundle_map \<Rightarrow> ('e, 'g) history \<Rightarrow> ('e, 'g) history" where
  "add_bundle f b s = s\<lparr>hi_bundles := (hi_bundles s)(f := hi_bundles s f ++\<^sub>f b),
                        hi_pending := hi_pending s \<and> f \<noteq> hi_base s + 1\<rparr>"

lemma add_bundle_simps [simp]:
  "hi_base (add_bundle f b s) = hi_base s"
  "hi_engines (add_bundle f b s) = hi_engines s"
  "hi_game (add_bundle f b s) = hi_game s"
  "hi_bundles (add_bundle f b s) = (hi_bundles s)(f := hi_bundles s f ++\<^sub>f b)"
  by (simp_all add: add_bundle_def)

lemma state_at_add_bundle:
  assumes "hi_base s < f" and "k < f"
  shows "state_at G (add_bundle f b s) k = state_at G s k"
  by (rule state_at_cong) (use assms in \<open>auto simp: add_bundle_def\<close>)

section \<open>The invariant\<close>

definition upd_shape :: "('e, 'g) updater \<Rightarrow> bool" where
  "upd_shape u \<longleftrightarrow> win_ok u \<and> win_start u \<le> up_global u \<and>
     up_global u < win_start u + dw_len (up_window u) \<and>
     up_global u + dw_len (up_window u) \<le> max_i32 \<and>
     win_start u < up_dirty u \<and> up_dirty u \<le> up_global u + 1"

definition clean :: "('e, 'g) game_ops \<Rightarrow> ('e, 'g) history \<Rightarrow> ('e, 'g) updater \<Rightarrow> int \<Rightarrow> bool" where
  "clean G s u hi \<longleftrightarrow>
     (\<forall>f. win_start u \<le> f \<and> f < hi \<longrightarrow> (engines_at u f, game_at u f) = state_at G s f)"

definition bundles_match :: "('e, 'g) history \<Rightarrow> ('e, 'g) updater \<Rightarrow> int \<Rightarrow> bool" where
  "bundles_match s u hi \<longleftrightarrow>
     (\<forall>f. win_start u < f \<and> f < hi \<longrightarrow> fd_bundle (fd_at u f) = Some (hi_bundles s f))"

definition history_ok :: "('e, 'g) history \<Rightarrow> int \<Rightarrow> bool" where
  "history_ok s hi \<longleftrightarrow> (\<forall>f. nonneg_ids eid (fmdom' (hi_bundles s f))) \<and>
     (\<forall>f > hi. hi_bundles s f = fmempty) \<and>
     (hi_pending s \<longrightarrow> hi_base s < hi \<and> hi_bundles s (hi_base s + 1) = fmempty)"

definition upd_inv :: "('e, 'g) game_ops \<Rightarrow> ('e, 'g) history \<Rightarrow> ('e, 'g) updater \<Rightarrow> bool" where
  "upd_inv G s u \<longleftrightarrow> upd_shape u \<and> hi_base s \<le> win_start u \<and> clean G s u (up_dirty u) \<and>
     bundles_match s u (up_global u + 1) \<and> history_ok s (up_global u) \<and>
     (hi_pending s \<longrightarrow> hi_base s + 1 < up_dirty u)"

lemma upd_shapeD:
  assumes "upd_shape u"
  shows "win_ok u" and "dw_ok (up_window u)" and "win_start u \<le> up_global u"
    and "up_global u < win_start u + dw_len (up_window u)"
    and "up_global u + dw_len (up_window u) \<le> max_i32"
    and "win_start u < up_dirty u" and "up_dirty u \<le> up_global u + 1"
    and "- 2147483648 \<le> win_start u" and "0 < dw_len (up_window u)"
  using assms dw_okD [of "up_window u"] by (auto simp: upd_shape_def win_ok_def in_i32_def)

lemma upd_invD:
  assumes "upd_inv G s u"
  shows "upd_shape u" and "hi_base s \<le> win_start u" and "clean G s u (up_dirty u)"
    and "bundles_match s u (up_global u + 1)" and "history_ok s (up_global u)"
    and "hi_pending s \<Longrightarrow> hi_base s + 1 < up_dirty u"
  using assms by (auto simp: upd_inv_def)

section \<open>The rethinking loop\<close>

context game_iface
begin

definition rethink_inv :: "('e, 'g) history \<Rightarrow> ('e, 'g) updater \<Rightarrow> int \<Rightarrow>
  ('e, 'g) updater \<times> 'e frame_data \<Rightarrow> bool" where
  "rethink_inv s u i st \<longleftrightarrow>
     (\<exists>w h. fst st = u\<lparr>up_window := w, up_heap := h\<rparr> \<and> dw_first w = win_start u \<and>
            dw_len w = dw_len (up_window u) \<and> win_ok (fst st) \<and>
            snd st = fd_at (fst st) (i - 1) \<and> clean G s (fst st) i \<and>
            bundles_match s (fst st) (up_global u + 1))"

lemma rethink_step:
  assumes u: "upd_inv G s u" and i: "up_dirty u \<le> i" "i \<le> up_global u"
    and st: "rethink_inv s u i st"
  shows "\<exists>st'. rethink_frame G i st = Inr st' \<and> rethink_inv s u (i + 1) st'"
proof -
  note sh = upd_shapeD [OF upd_invD(1) [OF u]]
  obtain v w h where v: "st = (v, fd_at v (i - 1))" "v = u\<lparr>up_window := w, up_heap := h\<rparr>"
      and w: "dw_first w = win_start u" "dw_len w = dw_len (up_window u)"
      and ok: "win_ok v" and cl: "clean G s v i" and bm: "bundles_match s v (up_global u + 1)"
    using st unfolding rethink_inv_def by (metis prod.collapse)
  have inw: "inwin v i" "inwin v (i - 1)" using v w i sh by (auto simp: dw_inb_def)
  let ?b = "hi_bundles s i" and ?d = "fd_at v i"
  have b: "fd_bundle ?d = Some ?b" using bm v w i sh by (simp add: bundles_match_def)
  have nn: "nonneg_ids eid (fmdom' ?b)" using upd_invD(5) [OF u] by (simp add: history_ok_def)
  define m where "m = frame_engines ?b (engines_at v (i - 1))"
  define d where "d = ?d\<lparr>fd_info := \<lparr>ei_engines = Some m\<rparr>\<rparr>"
  define g where "g = frame_game G ?b m (game_at v (i - 1))"
  define v' where "v' = v\<lparr>up_window := dw_put (up_window v) i d,
                         up_heap := (up_heap v)[the (fd_game ?d) := g]\<rparr>"
  have run: "rethink_frame G i st = Inr (v', d)"
    using rethink_frame_eq [OF ok inw b nn] by (simp add: v(1) v'_def d_def m_def g_def)
  have dg: "fd_game d = fd_game ?d" by (simp add: d_def)
  have ok': "win_ok v'" unfolding v'_def by (rule win_ok_put) (use ok dg in auto)
  have fd': "fd_at v' f = (if f = i then d else fd_at v f)" if "inwin v f" for f
    unfolding v'_def using ok inw(1) that by (rule fd_at_put)
  have gm': "game_at v' f = (if f = i then g else game_at v f)" if "inwin v f" for f
    unfolding v'_def using ok inw(1) that dg by (rule game_at_put)
  have st: "win_start v' = win_start v" by (simp add: v'_def)
  have clean': "clean G s v' (i + 1)"
  proof (unfold clean_def, intro allI impI)
    fix f assume f: "win_start v' \<le> f \<and> f < i + 1"
    then have inf: "inwin v f" using inw st by (auto simp: dw_inb_def)
    show "(engines_at v' f, game_at v' f) = state_at G s f"
    proof (cases "f = i")
      case False
      with f inf cl st show ?thesis by (simp add: engines_at_def fd' gm' clean_def)
    next
      case True
      have prev: "(engines_at v (i - 1), game_at v (i - 1)) = state_at G s (i - 1)"
        using cl w v(2) sh i by (simp add: clean_def)
      have "hi_base s < i" using upd_invD(2) [OF u] sh i by linarith
      moreover have "hi_pending s \<Longrightarrow> i \<noteq> hi_base s + 1" using upd_invD(6) [OF u] i by linarith
      ultimately have "state_at G s i = frame_step G ?b (state_at G s (i - 1))"
        by (rule state_at_step)
      also have "\<dots> = (m, g)"
        by (simp add: prev [symmetric] frame_step_def m_def g_def Let_def)
      finally show ?thesis using True inf
        by (simp add: engines_at_def fd' gm' d_def known_engines_def)
    qed
  qed
  have bm': "bundles_match s v' (up_global u + 1)"
    using bm fd' b v w sh by (auto simp: bundles_match_def st dw_inb_def d_def)
  have "rethink_inv s u (i + 1) (v', d)"
    unfolding rethink_inv_def
    by (rule exI [of _ "dw_put (up_window v) i d"], rule exI [of _ "(up_heap v)[the (fd_game ?d) := g]"])
      (use ok' clean' bm' fd' [OF inw(1)] w v(2) in \<open>auto simp: v'_def\<close>)
  with run show ?thesis by blast
qed

lemma rethink_ok:
  assumes u: "upd_inv G s u"
  shows "\<exists>w h. let u' = u\<lparr>up_window := w, up_heap := h, up_dirty := up_global u + 1\<rparr> in
           rethink G u = Inr u' \<and> upd_inv G s u' \<and> dw_first w = win_start u \<and>
           dw_len w = dw_len (up_window u)"
proof -
  note sh = upd_shapeD [OF upd_invD(1) [OF u]]
  have in1: "inwin u (up_dirty u - 1)" using sh by (auto simp: dw_inb_def)
  have prev: "dw_get (up_window u) (i32 (up_dirty u - 1)) = Inr (fd_at u (up_dirty u - 1))"
    using dw_get_fd_at [OF sh(1) in1] sh by simp
  have start: "rethink_inv s u (up_dirty u) (u, fd_at u (up_dirty u - 1))"
    unfolding rethink_inv_def
    by (rule exI [of _ "up_window u"], rule exI [of _ "up_heap u"])
      (use u sh in \<open>auto simp: upd_inv_def\<close>)
  have "\<exists>st. for_le (up_dirty u) (up_global u) (rethink_frame G) (u, fd_at u (up_dirty u - 1)) = Inr st
          \<and> rethink_inv s u (up_global u + 1) st"
    by (rule for_le_invariant [where I = "rethink_inv s u"])
      (use start sh rethink_step [OF u] in auto)
  then obtain st where st: "for_le (up_dirty u) (up_global u) (rethink_frame G)
      (u, fd_at u (up_dirty u - 1)) = Inr st" "rethink_inv s u (up_global u + 1) st" by blast
  then obtain w h where w: "fst st = u\<lparr>up_window := w, up_heap := h\<rparr>" "dw_first w = win_start u"
      "dw_len w = dw_len (up_window u)" "win_ok (fst st)" "clean G s (fst st) (up_global u + 1)"
      "bundles_match s (fst st) (up_global u + 1)"
    unfolding rethink_inv_def by blast
  let ?u = "u\<lparr>up_window := w, up_heap := h, up_dirty := up_global u + 1\<rparr>"
  have "rethink G u = Inr ?u"
    using prev st w(1) sh by (simp add: rethink_def)
  moreover have "upd_inv G s ?u"
    using u w sh by (auto simp: upd_inv_def upd_shape_def win_ok_def clean_def bundles_match_def
        engines_at_def game_at_def fd_at_def)
  ultimately show ?thesis using w by (auto simp: Let_def)
qed

end

end
