(* ===== verification/Updater_Final.thy ===== *)
theory Updater_Final
  imports Updater_Replay
begin

text \<open>
  The second half of \<open>advance\<close>: moving the window over complete frames, handing them to the
  Communicator and answering the requests that wait for them.
\<close>

section \<open>What the loop sends\<close>

fun boot_outs :: "'e upd_out list \<Rightarrow> boot_frame list" where
  "boot_outs [] = []"
| "boot_outs (BootstrapOut b # ms) = b # boot_outs ms"
| "boot_outs (m # ms) = boot_outs ms"

fun resp_chans :: "'e upd_out list \<Rightarrow> nat list" where
  "resp_chans [] = []"
| "resp_chans (Respond c p f # ms) = c # resp_chans ms"
| "resp_chans (m # ms) = resp_chans ms"

lemma boot_outs_append [simp]: "boot_outs (xs @ ys) = boot_outs xs @ boot_outs ys"
  by (induction xs rule: boot_outs.induct) auto

lemma resp_chans_append [simp]: "resp_chans (xs @ ys) = resp_chans xs @ resp_chans ys"
  by (induction xs rule: resp_chans.induct) auto

lemma boot_outs_responds [simp]: "boot_outs (map (\<lambda>r. Respond (c r) p f) hs) = []"
  by (induction hs) auto

lemma resp_chans_responds [simp]: "resp_chans (map (\<lambda>r. Respond (c r) p f) hs) = map c hs"
  by (induction hs) auto

lemma fulfill_final_ok:
  assumes "win_ok u" and "inwin u (win_start u)"
  defines "sw \<equiv> sweep (\<lambda>r. rq_frame r = win_start u) 0 (up_final u)"
  shows "fulfill_final_requests u =
    Inr (u\<lparr>up_final := snd sw,
           up_out := up_out u @ map (\<lambda>r. Respond (rq_chan r) (fd_game (fd_at u (win_start u))) (win_start u)) (fst sw)\<rparr>)"
proof (cases "fst sw = []")
  case True
  then have "snd sw = up_final u" unfolding sw_def by (rule sweep_nil)
  with True show ?thesis unfolding fulfill_final_requests_def sw_def [symmetric]
    by (simp add: split_def)
next
  case False
  then show ?thesis unfolding fulfill_final_requests_def sw_def [symmetric]
    by (simp add: split_def dw_get_fd_at [OF assms(1,2)])
qed

lemma all_present_iff: "all_present ks b \<longleftrightarrow> (\<forall>i \<in> set ks. i \<in> fmdom' (map_of_nilable b))"
proof -
  have "fold (\<lambda>i ok. if fmlookup (map_of_nilable b) i = None then False else ok) ks a \<longleftrightarrow>
        a \<and> (\<forall>i \<in> set ks. i \<in> fmdom' (map_of_nilable b))" for a
    by (induction ks arbitrary: a) (auto simp: fmlookup_dom'_iff)
  then show ?thesis by (simp add: all_present_def)
qed

section \<open>The loop\<close>

text \<open>A frame is complete when every engine known on it has sent its events for it.\<close>

definition complete :: "('e, 'g) game_ops \<Rightarrow> ('e, 'g) history \<Rightarrow> int \<Rightarrow> bool" where
  "complete G s f \<longleftrightarrow> fmdom' (fst (state_at G s f)) \<subseteq> fmdom' (hi_bundles s f)"

definition boot_of :: "('e, 'g) updater \<Rightarrow> int \<Rightarrow> boot_frame" where
  "boot_of u f = \<lparr>bf_frame = f, bf_game = fd_game (fd_at u f), bf_info = fd_info (fd_at u f)\<rparr>"

text \<open>
  What moving the window from \<open>lo\<close> to \<open>hi\<close> does to the list of waiting requests: some leave it, and
  of those that wait alone for a frame that the window reached, none remains.
\<close>

definition clears :: "int \<Rightarrow> int \<Rightarrow> state_request list \<Rightarrow> state_request list \<Rightarrow> bool" where
  "clears lo hi q q' \<longleftrightarrow> mset q' \<subseteq># mset q \<and>
     (\<forall>f. lo < f \<and> f \<le> hi \<and> length (filter (\<lambda>r. rq_frame r = f) q) \<le> 1 \<longrightarrow> (\<forall>r \<in> set q'. rq_frame r \<noteq> f))"

lemma clears_subset: "clears lo hi q q' \<Longrightarrow> set q' \<subseteq> set q"
  by (metis clears_def set_mset_mono set_mset_mset)

lemma clears_refl [simp]: "clears lo lo q q"
  by (auto simp: clears_def)

lemma clears_trans:
  assumes "clears lo mid q q'" and "clears mid hi q' q''"
  shows "clears lo hi q q''"
  unfolding clears_def
proof (intro conjI allI impI)
  have c: "mset q' \<subseteq># mset q" "\<And>f. mid < f \<Longrightarrow> f \<le> hi \<Longrightarrow> length (filter (\<lambda>r. rq_frame r = f) q') \<le> 1 \<Longrightarrow>
      \<forall>r \<in> set q''. rq_frame r \<noteq> f"
    using assms unfolding clears_def by blast+
  show "mset q'' \<subseteq># mset q" using assms by (meson clears_def subset_mset.order_trans)
  fix f assume f: "lo < f \<and> f \<le> hi \<and> length (filter (\<lambda>r. rq_frame r = f) q) \<le> 1"
  show "\<forall>r \<in> set q''. rq_frame r \<noteq> f"
  proof (cases "f \<le> mid")
    case True
    with assms(1) f have "\<forall>r \<in> set q'. rq_frame r \<noteq> f" unfolding clears_def by blast
    then show ?thesis using clears_subset [OF assms(2)] by blast
  next
    case False
    have "size (filter_mset (\<lambda>r. rq_frame r = f) (mset q')) \<le> size (filter_mset (\<lambda>r. rq_frame r = f) (mset q))"
      using c(1) by (intro size_mset_mono multiset_filter_mono)
    then have "length (filter (\<lambda>r. rq_frame r = f) q') \<le> length (filter (\<lambda>r. rq_frame r = f) q)"
      by (simp flip: size_mset)
    with f have "length (filter (\<lambda>r. rq_frame r = f) q') \<le> 1" by linarith
    then show ?thesis using c(2) f False by (meson not_le)
  qed
qed

lemma clears_sweep: "clears lo (lo + 1) q (snd (sweep (\<lambda>r. rq_frame r = lo + 1) 0 q))"
proof -
  define sw where "sw = sweep (\<lambda>r. rq_frame r = lo + 1) 0 q"
  have "mset (fst sw) + mset (snd sw) = mset q" unfolding sw_def by (rule sweep_mset)
  then have "mset (snd sw) \<subseteq># mset q" using mset_subset_eq_add_right [of "mset (snd sw)" "mset (fst sw)"] by simp
  moreover have "\<forall>r \<in> set (snd sw). rq_frame r \<noteq> f" if "lo < f" "f \<le> lo + 1" "length (filter (\<lambda>r. rq_frame r = f) q) \<le> 1" for f
  proof -
    have f: "f = lo + 1" using that by simp
    show ?thesis unfolding f sw_def by (rule conjunct2 [OF sweep_single]) (use that(3) f in auto)
  qed
  ultimately show ?thesis unfolding clears_def sw_def [symmetric] by blast
qed

text \<open>What the loop may do to a state, as a relation between the states before and after.\<close>

definition final_moves :: "('e, 'g) game_ops \<Rightarrow> ('e, 'g) history \<Rightarrow> ('e, 'g) updater \<Rightarrow>
  'e frame_data data_window \<Rightarrow> state_request list \<Rightarrow> 'e upd_out list \<Rightarrow> bool" where
  "final_moves G s u w fin out \<longleftrightarrow>
     win_start u \<le> dw_first w \<and> dw_first w \<le> up_global u \<and> dw_len w = dw_len (up_window u) \<and>
     (\<forall>f. dw_at w f = fd_at u f) \<and>
     (\<forall>f. win_start u < f \<and> f \<le> dw_first w \<longrightarrow> complete G s f) \<and>
     boot_outs out = (if up_hosting u then map (boot_of u) [win_start u + 1..dw_first w] else []) \<and>
     mset (map rq_chan (up_final u)) = mset (map rq_chan fin) + mset (resp_chans out) \<and>
     clears (win_start u) (dw_first w) (up_final u) fin \<and>
     (\<forall>c p f. Respond c p f \<in> set out \<longrightarrow> win_start u < f \<and> f \<le> dw_first w \<and>
        p = fd_game (fd_at u f) \<and> (\<exists>r \<in> set (up_final u). rq_chan r = c \<and> rq_frame r = f)) \<and>
     (\<forall>m \<in> set out. (\<exists>b. m = BootstrapOut b) \<or> (\<exists>c p f. m = Respond c p f))"

lemma final_moves_refl:
  "final_moves G s u (up_window u) (up_final u) []" if "win_start u \<le> up_global u"
  using that by (auto simp: final_moves_def fd_at_def)

lemma upto_append:
  fixes a b c :: int
  assumes "a \<le> b" and "b \<le> c"
  shows "[a + 1..c] = [a + 1..b] @ [b + 1..c]"
  using assms upto_split2 [of "a + 1" b c] by (cases "a = b") auto

lemma final_moves_trans:
  assumes "final_moves G s u w fin out"
    and "final_moves G s (u\<lparr>up_window := w, up_final := fin, up_out := o1\<rparr>) w' fin' out'"
  shows "final_moves G s u w' fin' (out @ out')"
proof -
  let ?v = "u\<lparr>up_window := w, up_final := fin, up_out := o1\<rparr>"
  have fd: "fd_at ?v f = fd_at u f" for f using assms(1) by (simp add: final_moves_def fd_at_def)
  then have boot: "boot_of ?v = boot_of u" by (simp add: boot_of_def fun_eq_iff)
  have le: "win_start u \<le> dw_first w" "dw_first w \<le> dw_first w'"
    using assms by (auto simp: final_moves_def)
  then have up: "[win_start u + 1..dw_first w'] = [win_start u + 1..dw_first w] @ [dw_first w + 1..dw_first w']"
    by (rule upto_append)
  note fm = assms(1) [unfolded final_moves_def] and fm' = assms(2) [unfolded final_moves_def]
  show ?thesis
    unfolding final_moves_def
  proof (intro conjI)
    show "\<forall>f. win_start u < f \<and> f \<le> dw_first w' \<longrightarrow> complete G s f"
    proof (intro allI impI)
      fix f assume "win_start u < f \<and> f \<le> dw_first w'"
      with fm fm' show "complete G s f" by (cases "f \<le> dw_first w") auto
    qed
    show "boot_outs (out @ out') =
        (if up_hosting u then map (boot_of u) [win_start u + 1..dw_first w'] else [])"
      using fm fm' boot up by simp
    show "mset (map rq_chan (up_final u)) = mset (map rq_chan fin') + mset (resp_chans (out @ out'))"
      using fm fm' by (simp add: add.assoc add.commute)
    show "\<forall>c p f. Respond c p f \<in> set (out @ out') \<longrightarrow> win_start u < f \<and> f \<le> dw_first w' \<and>
        p = fd_game (fd_at u f) \<and> (\<exists>r \<in> set (up_final u). rq_chan r = c \<and> rq_frame r = f)"
    proof (intro allI impI)
      fix c p f assume r: "Respond c p f \<in> set (out @ out')"
      show "win_start u < f \<and> f \<le> dw_first w' \<and> p = fd_game (fd_at u f) \<and>
            (\<exists>r \<in> set (up_final u). rq_chan r = c \<and> rq_frame r = f)"
      proof (cases "Respond c p f \<in> set out")
        case True
        with fm le show ?thesis by (meson order_trans)
      next
        case False
        then have "dw_first w < f \<and> f \<le> dw_first w' \<and> p = fd_game (fd_at u f) \<and>
            (\<exists>r \<in> set fin. rq_chan r = c \<and> rq_frame r = f)"
          using r fm' fd by simp
        moreover have "set fin \<subseteq> set (up_final u)" using fm clears_subset by blast
        ultimately show ?thesis using le by (meson subsetD order.strict_trans1)
      qed
    qed
    show "\<forall>m \<in> set (out @ out'). (\<exists>b. m = BootstrapOut b) \<or> (\<exists>c p f. m = Respond c p f)"
      using fm fm' by auto
    show "clears (win_start u) (dw_first w') (up_final u) fin'"
      using fm fm' by (intro clears_trans [of "win_start u" "dw_first w" "up_final u" fin "dw_first w'" fin']) auto
  qed (use fm fm' le fd in auto)
qed

context game_iface
begin

lemma keys_present:
  assumes "upd_inv G s u" and "win_start u < f" and "f \<le> up_global u" and "f < up_dirty u"
  shows "all_present (keys (known_engines (fd_info (fd_at u f)))) (fd_bundle (fd_at u f)) \<longleftrightarrow>
         complete G s f"
proof -
  have "engines_at u f = fst (state_at G s f)"
    using upd_invD(3) [OF assms(1)] assms(2-4) by (metis clean_def fst_conv less_imp_le)
  moreover have "fd_bundle (fd_at u f) = Some (hi_bundles s f)"
    using upd_invD(4) [OF assms(1)] assms(2-4) by (simp add: bundles_match_def)
  ultimately show ?thesis by (auto simp: all_present_iff complete_def engines_at_def)
qed

text \<open>One round: move the window, hand the frame over, answer the requests for it.\<close>

definition finalize_one :: "('e, 'g) updater \<Rightarrow> ('e, 'g) updater" where
  "finalize_one u =
     (let u1 = u\<lparr>up_window := dw_next (up_window u)\<rparr>;
          sw = sweep (\<lambda>r. rq_frame r = win_start u + 1) 0 (up_final u);
          boot = (if up_hosting u then [BootstrapOut (boot_of u (win_start u + 1))] else [])
      in u1\<lparr>up_final := snd sw,
            up_out := up_out u @ boot @
              map (\<lambda>r. Respond (rq_chan r) (fd_game (fd_at u (win_start u + 1))) (win_start u + 1)) (fst sw)\<rparr>)"

lemma next_shape:
  assumes "upd_inv G s u" and "win_start u < up_global u" and "up_dirty u = up_global u + 1"
  shows "upd_inv G s (u\<lparr>up_window := dw_next (up_window u), up_final := fin, up_out := out\<rparr>)"
proof -
  note sh = upd_shapeD [OF upd_invD(1) [OF assms(1)]]
  have ok: "dw_ok (dw_next (up_window u))" using sh assms(2) by (intro dw_advance_next) auto
  let ?u = "u\<lparr>up_window := dw_next (up_window u), up_final := fin, up_out := out\<rparr>"
  have fd: "fd_at ?u f = fd_at u f" for f by (simp add: fd_at_def dw_at_next sh)
  have "win_ok ?u" using sh(1) ok by (simp add: win_ok_def)
  then show ?thesis using assms sh
    by (auto simp: upd_inv_def upd_shape_def clean_def bundles_match_def fd engines_at_def game_at_def)
qed

lemma finalize_round:
  assumes u: "upd_inv G s u" and lt: "win_start u < up_global u" and d: "up_dirty u = up_global u + 1"
  shows "finalize_loop (Suc n) u =
         (if complete G s (win_start u + 1) then finalize_loop n (finalize_one u) else Inr u)"
proof -
  note sh = upd_shapeD [OF upd_invD(1) [OF u]]
  have inw: "inwin u (win_start u + 1)" using sh lt by (simp add: dw_inb_def)
  have i32: "i32 (win_start u + 1) = win_start u + 1" using sh lt by simp
  have adv: "dw_advance (up_window u) = Inr (dw_next (up_window u))"
    using sh lt by (intro dw_advance_next) auto
  let ?f = "win_start u + 1"
  let ?u2 = "if up_hosting u then send (BootstrapOut (boot_of u ?f)) (u\<lparr>up_window := dw_next (up_window u)\<rparr>)
             else u\<lparr>up_window := dw_next (up_window u)\<rparr>"
  have fd: "fd_at ?u2 k = fd_at u k" for k by (simp add: fd_at_def dw_at_next sh send_def)
  have "win_ok ?u2"
    using next_shape [OF u lt d, THEN upd_invD(1), THEN upd_shapeD(1)] by (simp add: win_ok_def send_def)
  moreover have "inwin ?u2 (win_start ?u2)" using sh by (simp add: dw_inb_def send_def)
  ultimately have "fulfill_final_requests ?u2 = Inr (finalize_one u)"
    using fulfill_final_ok [of ?u2] fd by (simp add: finalize_one_def send_def Let_def split: if_splits)
  with keys_present [OF u, of ?f] lt d show ?thesis
    by (simp add: dw_get_fd_at [OF sh(1) inw] i32 adv boot_of_def Let_def split: if_splits)
qed

lemma finalize_one_moves:
  assumes u: "upd_inv G s u" and lt: "win_start u < up_global u"
    and c: "complete G s (win_start u + 1)"
  shows "\<exists>w fin out. finalize_one u = u\<lparr>up_window := w, up_final := fin, up_out := up_out u @ out\<rparr> \<and>
                     w = dw_next (up_window u) \<and> final_moves G s u w fin out"
proof -
  note sh = upd_shapeD [OF upd_invD(1) [OF u]]
  let ?f = "win_start u + 1"
  define sw where "sw = sweep (\<lambda>r. rq_frame r = ?f) 0 (up_final u)"
  define out :: "'e upd_out list" where "out = (if up_hosting u then [BootstrapOut (boot_of u ?f)] else []) @
      map (\<lambda>r. Respond (rq_chan r) (fd_game (fd_at u ?f)) ?f) (fst sw)"
  have ms: "mset (fst sw) + mset (snd sw) = mset (up_final u)"
    unfolding sw_def by (rule sweep_mset)
  then have sub: "set (snd sw) \<subseteq> set (up_final u)" "set (fst sw) \<subseteq> set (up_final u)"
    by (metis mset_subset_eq_add_right set_mset_mono set_mset_mset, metis mset_subset_eq_add_left set_mset_mono set_mset_mset)
  have hit: "r \<in> set (fst sw) \<Longrightarrow> rq_frame r = ?f" for r
    unfolding sw_def by (rule sweep_hits)
  have "final_moves G s u (dw_next (up_window u)) (snd sw) out"
    unfolding final_moves_def
  proof (intro conjI)
    show "mset (map rq_chan (up_final u)) = mset (map rq_chan (snd sw)) + mset (resp_chans out)"
      using arg_cong [OF ms, of "image_mset rq_chan"] by (simp add: out_def add.commute)
    show "\<forall>c p f. Respond c p f \<in> set out \<longrightarrow> win_start u < f \<and> f \<le> dw_first (dw_next (up_window u)) \<and>
        p = fd_game (fd_at u f) \<and> (\<exists>r \<in> set (up_final u). rq_chan r = c \<and> rq_frame r = f)"
      using hit sub by (auto simp: out_def split: if_splits)
    show "\<forall>f. win_start u < f \<and> f \<le> dw_first (dw_next (up_window u)) \<longrightarrow> complete G s f"
      using c by (metis dw_next_frame(1) add.commute zless_imp_add1_zle order_antisym)
    show "clears (win_start u) (dw_first (dw_next (up_window u))) (up_final u) (snd sw)"
      unfolding sw_def using clears_sweep by simp
  qed (use sh lt sub in \<open>auto simp: dw_at_next fd_at_def out_def split: if_splits\<close>)
  then show ?thesis
    by (intro exI [of _ "dw_next (up_window u)"] exI [of _ "snd sw"] exI [of _ out])
      (auto simp: finalize_one_def Let_def sw_def out_def)
qed

lemma finalize_loop_ok:
  assumes "upd_inv G s u" and "up_dirty u = up_global u + 1"
    and "n = nat (up_global u - win_start u)"
  shows "\<exists>w fin out. let u' = u\<lparr>up_window := w, up_final := fin, up_out := up_out u @ out\<rparr> in
           finalize_loop n u = Inr u' \<and> upd_inv G s u' \<and> final_moves G s u w fin out \<and>
           (dw_first w < up_global u \<longrightarrow> \<not> complete G s (dw_first w + 1))"
  using assms
proof (induction n arbitrary: u)
  case 0
  note sh = upd_shapeD [OF upd_invD(1) [OF 0(1)]]
  from 0 sh have eq: "win_start u = up_global u" by simp
  then show ?case using 0 final_moves_refl [of u G s]
    by (intro exI [of _ "up_window u"] exI [of _ "up_final u"] exI [of _ "[]"]) simp
next
  case (Suc n)
  note sh = upd_shapeD [OF upd_invD(1) [OF Suc.prems(1)]]
  from Suc.prems have lt: "win_start u < up_global u" by simp
  note round = finalize_round [OF Suc.prems(1) lt Suc.prems(2), of n]
  show ?case
  proof (cases "complete G s (win_start u + 1)")
    case False
    then show ?thesis using round Suc.prems final_moves_refl [of u G s] lt
      by (intro exI [of _ "up_window u"] exI [of _ "up_final u"] exI [of _ "[]"])
        (simp del: finalize_loop.simps)
  next
    case True
    obtain w fin out where one: "finalize_one u = u\<lparr>up_window := w, up_final := fin, up_out := up_out u @ out\<rparr>"
        "w = dw_next (up_window u)" "final_moves G s u w fin out"
      using finalize_one_moves [OF Suc.prems(1) lt True] by blast
    let ?v = "finalize_one u"
    have inv: "upd_inv G s ?v" unfolding one(1,2) by (rule next_shape) (use Suc.prems lt in auto)
    have "n = nat (up_global ?v - win_start ?v)" using Suc.prems(3) by (simp add: one)
    then obtain w' fin' out' where v: "finalize_loop n ?v = Inr (?v\<lparr>up_window := w', up_final := fin', up_out := up_out ?v @ out'\<rparr>)"
        "upd_inv G s (?v\<lparr>up_window := w', up_final := fin', up_out := up_out ?v @ out'\<rparr>)"
        "final_moves G s ?v w' fin' out'" "dw_first w' < up_global ?v \<longrightarrow> \<not> complete G s (dw_first w' + 1)"
      using Suc.IH [OF inv] Suc.prems(2) by (auto simp: one(1) Let_def)
    have "final_moves G s u w' fin' (out @ out')"
      by (rule final_moves_trans [OF one(3)]) (use v(3) in \<open>simp add: one(1)\<close>)
    then show ?thesis using v round True
      by (intro exI [of _ w'] exI [of _ fin'] exI [of _ "out @ out'"])
        (simp add: one(1) Let_def del: finalize_loop.simps)
  qed
qed

text \<open>All of \<open>advance\<close>.\<close>

lemma advance_ok:
  assumes "upd_inv G s u"
  shows "\<exists>w h w' fin out.
    let u1 = u\<lparr>up_window := w, up_heap := h, up_dirty := up_global u + 1\<rparr>;
        u' = u1\<lparr>up_window := w', up_final := fin, up_out := up_out u @ out\<rparr>
    in advance G u = Inr u' \<and> upd_inv G s u1 \<and> upd_inv G s u' \<and> dw_first w = win_start u \<and>
       dw_len w = dw_len (up_window u) \<and> final_moves G s u1 w' fin out \<and>
       (dw_first w' < up_global u \<longrightarrow> \<not> complete G s (dw_first w' + 1))"
proof -
  obtain w h where w: "rethink G u = Inr (u\<lparr>up_window := w, up_heap := h, up_dirty := up_global u + 1\<rparr>)"
      "upd_inv G s (u\<lparr>up_window := w, up_heap := h, up_dirty := up_global u + 1\<rparr>)"
      "dw_first w = win_start u" "dw_len w = dw_len (up_window u)"
    using rethink_ok [OF assms] by (auto simp: Let_def)
  let ?u1 = "u\<lparr>up_window := w, up_heap := h, up_dirty := up_global u + 1\<rparr>"
  obtain w' fin out where "finalize_loop (nat (up_global ?u1 - win_start ?u1)) ?u1 =
        Inr (?u1\<lparr>up_window := w', up_final := fin, up_out := up_out ?u1 @ out\<rparr>)"
      "upd_inv G s (?u1\<lparr>up_window := w', up_final := fin, up_out := up_out ?u1 @ out\<rparr>)"
      "final_moves G s ?u1 w' fin out" "dw_first w' < up_global ?u1 \<longrightarrow> \<not> complete G s (dw_first w' + 1)"
    using finalize_loop_ok [OF w(2)] by (auto simp: Let_def)
  with w show ?thesis
    by (intro exI [of _ w] exI [of _ h] exI [of _ w'] exI [of _ fin] exI [of _ out])
      (simp add: advance_def Let_def)
qed

end

end
