(* ===== verification/Updater_Handlers.thy ===== *)
theory Updater_Handlers
  imports Updater_Final
begin

text \<open>
  The handlers of \<open>routine\<close> against the invariant: under the conditions the code leaves to its
  callers (its two "check that the bundle is in bounds" TODOs, and the collision panic of
  \<open>AbsorbEventBundle\<close>) every handler returns, and the new state stands for the old history with
  the new bundles added.
\<close>

section \<open>Opening frames\<close>

text \<open>The invariant between \<open>extend_to\<close> and the absorption of the bundle: the pending frame may
  already be marked dirty.\<close>

definition upd_pre :: "('e, 'g) game_ops \<Rightarrow> ('e, 'g) history \<Rightarrow> ('e, 'g) updater \<Rightarrow> bool" where
  "upd_pre G s u \<longleftrightarrow> upd_shape u \<and> hi_base s \<le> win_start u \<and> clean G s u (up_dirty u) \<and>
     bundles_match s u (up_global u + 1) \<and> history_ok s (up_global u)"

lemma upd_inv_pre:
  "upd_inv G s u \<longleftrightarrow> upd_pre G s u \<and> (hi_pending s \<longrightarrow> hi_base s + 1 < up_dirty u)"
  by (auto simp: upd_inv_def upd_pre_def)

lemma extend_to_simps [simp]:
  "up_window (extend_to f u) = up_window u"
  "up_heap (extend_to f u) = up_heap u"
  "up_global (extend_to f u) = max (up_global u) f"
  "up_dirty (extend_to f u) = min (up_dirty u) f"
  "up_params (extend_to f u) = up_params u"
  "up_hosting (extend_to f u) = up_hosting u"
  "up_skip (extend_to f u) = up_skip u"
  "up_local (extend_to f u) = up_local u"
  "up_final (extend_to f u) = up_final u"
  "up_fast (extend_to f u) = up_fast u"
  "up_shutdown (extend_to f u) = up_shutdown u"
  "up_out (extend_to f u) = up_out u"
  by (auto simp: extend_to_def Let_def)

context game_iface
begin

definition open_inv :: "('e, 'g) history \<Rightarrow> ('e, 'g) updater \<Rightarrow> int \<Rightarrow> ('e, 'g) updater \<Rightarrow> bool" where
  "open_inv s u i v \<longleftrightarrow>
     (\<exists>w. v = u\<lparr>up_window := w\<rparr> \<and> dw_first w = win_start u \<and> dw_len w = dw_len (up_window u) \<and>
          win_ok v \<and> clean G s v (up_dirty u) \<and> bundles_match s v i)"

lemma open_step:
  assumes u: "upd_inv G s u" and i: "up_global u < i" "i < win_start u + dw_len (up_window u)"
    and v: "open_inv s u i v"
  shows "\<exists>v'. init_frame_data i v = Inr v' \<and> open_inv s u (i + 1) v'"
proof -
  note sh = upd_shapeD [OF upd_invD(1) [OF u]]
  obtain w where w: "v = u\<lparr>up_window := w\<rparr>" "dw_first w = win_start u" "dw_len w = dw_len (up_window u)"
      "win_ok v" "clean G s v (up_dirty u)" "bundles_match s v i"
    using v unfolding open_inv_def by blast
  have inw: "inwin v i" "inwin v (i - 1)" using w i sh by (auto simp: dw_inb_def)
  define d where "d = (fd_at v i)\<lparr>fd_bundle := Some fmempty, fd_info := info_copy (fd_info (fd_at v (i - 1)))\<rparr>"
  define v' where "v' = v\<lparr>up_window := dw_put (up_window v) i d, up_heap := up_heap v\<rparr>"
  have i32: "i32 (i - 1) = i - 1" and ge: "\<not> i - 1 < win_start v" using i sh w by auto
  have run: "init_frame_data i v = Inr v'"
    unfolding init_frame_data_def i32
    using inw ge by (simp add: dw_get_fd_at [OF w(4)] win_ok_dw [OF w(4)] dw_set_put d_def v'_def)
  have ok: "win_ok v'" unfolding v'_def by (rule win_ok_put) (use w(4) in \<open>auto simp: d_def\<close>)
  have fd: "fd_at v' f = (if f = i then d else fd_at v f)" if "inwin v f" for f
    unfolding v'_def using w(4) inw(1) that by (rule fd_at_put)
  have heap: "up_heap v' = up_heap v" and ws: "win_start v' = win_start v" by (simp_all add: v'_def)
  have cl: "clean G s v' (up_dirty u)"
  proof (unfold clean_def, intro allI impI)
    fix f assume f: "win_start v' \<le> f \<and> f < up_dirty u"
    then have "inwin v f" "f \<noteq> i" using w i sh by (auto simp: ws dw_inb_def)
    with f w(5) show "(engines_at v' f, game_at v' f) = state_at G s f"
      by (simp add: engines_at_def game_at_def fd heap clean_def ws)
  qed
  have bm: "bundles_match s v' (i + 1)"
  proof (unfold bundles_match_def, intro allI impI)
    fix f assume f: "win_start v' < f \<and> f < i + 1"
    then have inf: "inwin v f" using w i by (auto simp: ws dw_inb_def)
    show "fd_bundle (fd_at v' f) = Some (hi_bundles s f)"
    proof (cases "f = i")
      case True
      then have "hi_bundles s f = fmempty" using upd_invD(5) [OF u] i by (simp add: history_ok_def)
      with True inf show ?thesis by (simp add: fd d_def)
    next
      case False
      with f w(6) inf show ?thesis by (simp add: fd bundles_match_def ws)
    qed
  qed
  have "open_inv s u (i + 1) v'"
    unfolding open_inv_def
    by (rule exI [of _ "dw_put (up_window v) i d"]) (use w ok cl bm in \<open>simp add: v'_def\<close>)
  with run show ?thesis by blast
qed

lemma open_frames:
  assumes u: "upd_inv G s u" and f: "win_start u < f" "f < win_start u + dw_len (up_window u)"
    and b: "f + dw_len (up_window u) \<le> max_i32"
  shows "\<exists>w. for_le (i32 (up_global u + 1)) f init_frame_data u = Inr (u\<lparr>up_window := w\<rparr>) \<and>
             upd_pre G s (extend_to f (u\<lparr>up_window := w\<rparr>)) \<and>
             dw_first w = win_start u \<and> dw_len w = dw_len (up_window u)"
proof -
  note sh = upd_shapeD [OF upd_invD(1) [OF u]]
  have i32: "i32 (up_global u + 1) = up_global u + 1" using sh by simp
  have fin: "\<exists>w. v = u\<lparr>up_window := w\<rparr> \<and> upd_pre G s (extend_to f (u\<lparr>up_window := w\<rparr>)) \<and>
             dw_first w = win_start u \<and> dw_len w = dw_len (up_window u)"
    if op: "open_inv s u (max (up_global u) f + 1) v" for v
  proof -
    obtain w where w: "v = u\<lparr>up_window := w\<rparr>" "dw_first w = win_start u" "dw_len w = dw_len (up_window u)"
      "win_ok v" "clean G s v (up_dirty u)" "bundles_match s v (max (up_global u) f + 1)"
      using op unfolding open_inv_def by blast
    have "history_ok s (max (up_global u) f)"
      using upd_invD(5) [OF u] by (auto simp: history_ok_def)
    then have "upd_pre G s (extend_to f (u\<lparr>up_window := w\<rparr>))"
      using w sh f b upd_invD(2) [OF u]
      by (auto simp: upd_pre_def upd_shape_def win_ok_def clean_def bundles_match_def
          engines_at_def game_at_def fd_at_def)
    with w show ?thesis by blast
  qed
  have start: "open_inv s u (up_global u + 1) u"
    unfolding open_inv_def by (rule exI [of _ "up_window u"]) (use u sh in \<open>auto simp: upd_inv_def\<close>)
  show ?thesis
  proof (cases "up_global u < f")
    case False
    then show ?thesis using fin [of u] start by (auto simp: i32 max_def)
  next
    case True
    have "\<exists>v. for_le (up_global u + 1) f init_frame_data u = Inr v \<and> open_inv s u (f + 1) v"
      by (rule for_le_invariant [where I = "open_inv s u"])
        (use start True f b sh open_step [OF u] in auto)
    with fin True show ?thesis by (auto simp: i32 max_def)
  qed
qed

section \<open>Absorbing a bundle\<close>

lemma absorb_at_ok:
  assumes u: "upd_pre G s u" and f: "win_start u < f" "f \<le> up_global u" "up_dirty u \<le> f"
    and p: "hi_pending s \<Longrightarrow> hi_base s + 1 < up_dirty u \<or> f = hi_base s + 1"
    and dj: "disjoint_bundles (hi_bundles s f) (map_of_nilable b)"
    and nn: "nonneg_ids eid (fmdom' (map_of_nilable b))"
  shows "\<exists>w. absorb_at f b u = Inr (u\<lparr>up_window := w\<rparr>) \<and> dw_first w = win_start u \<and>
             dw_len w = dw_len (up_window u) \<and>
             upd_inv G (add_bundle f (map_of_nilable b) s) (u\<lparr>up_window := w\<rparr>)"
proof -
  have shape: "upd_shape u" using u by (simp add: upd_pre_def)
  note sh = upd_shapeD [OF shape]
  have inw: "inwin u f" using f sh by (auto simp: dw_inb_def)
  let ?b = "hi_bundles s f ++\<^sub>f map_of_nilable b" and ?s = "add_bundle f (map_of_nilable b) s"
  have fb: "fd_bundle (fd_at u f) = Some (hi_bundles s f)"
    using u f by (simp add: upd_pre_def bundles_match_def)
  define d where "d = (fd_at u f)\<lparr>fd_bundle := Some ?b\<rparr>"
  define w where "w = dw_put (up_window u) f d"
  have run: "absorb_at f b u = Inr (u\<lparr>up_window := w\<rparr>)"
    using inw sh(1,2) dj
    by (simp add: absorb_at_def dw_get_fd_at fb absorb_disjoint dw_set_put d_def w_def)
  define u' where "u' = u\<lparr>up_window := w\<rparr>"
  have u'_simps: "dw_first w = win_start u" "up_window u' = w" "up_heap u' = up_heap u"
    "up_global u' = up_global u" "up_dirty u' = up_dirty u" "dw_len w = dw_len (up_window u)"
    by (simp_all add: u'_def w_def)
  have ok: "win_ok u'"
    using win_ok_put [where u = u and d = d and f = f and h = "up_heap u"] sh(1)
    by (simp add: d_def w_def u'_def)
  have fd: "fd_at u' k = (if k = f then d else fd_at u k)" if "inwin u k" for k
    using fd_at_put [OF sh(1) inw that, where d = d and h = "up_heap u"] by (simp add: w_def u'_def)
  have base: "hi_base s < f" using u f by (simp add: upd_pre_def)
  have cl: "clean G ?s u' (up_dirty u)"
  proof (unfold clean_def, intro allI impI)
    fix k assume k: "win_start u' \<le> k \<and> k < up_dirty u"
    then have "inwin u k" "k \<noteq> f" "k < f" using f sh by (auto simp: u'_simps dw_inb_def)
    with k u base show "(engines_at u' k, game_at u' k) = state_at G ?s k"
      by (simp add: engines_at_def game_at_def fd state_at_add_bundle upd_pre_def clean_def u'_simps)
  qed
  have bm: "bundles_match ?s u' (up_global u + 1)"
  proof (unfold bundles_match_def, intro allI impI)
    fix k assume k: "win_start u' < k \<and> k < up_global u + 1"
    then have "inwin u k" using sh by (auto simp: u'_simps dw_inb_def)
    with k u show "fd_bundle (fd_at u' k) = Some (hi_bundles ?s k)"
      by (auto simp: fd d_def upd_pre_def bundles_match_def u'_simps)
  qed
  have "history_ok ?s (up_global u)"
    using u f nn by (auto simp: upd_pre_def history_ok_def nonneg_ids_def add_bundle_def fmdom'_alt_def)
  then have "upd_inv G ?s u'"
    using u ok cl bm sh p f by (auto simp: upd_inv_def upd_pre_def upd_shape_def u'_simps add_bundle_def)
  with run show ?thesis by (auto simp: w_def u'_def)
qed

end

text \<open>Fields the invariant does not look at.\<close>

lemma upd_pre_frame [simp]:
  "upd_pre G s (u\<lparr>up_skip := x\<rparr>) = upd_pre G s u"
  "upd_pre G s (u\<lparr>up_local := y\<rparr>) = upd_pre G s u"
  "upd_pre G s (u\<lparr>up_out := o1\<rparr>) = upd_pre G s u"
  "upd_pre G s (u\<lparr>up_fast := q\<rparr>) = upd_pre G s u"
  "upd_pre G s (u\<lparr>up_final := q\<rparr>) = upd_pre G s u"
  by (simp_all add: upd_pre_def upd_shape_def win_ok_def clean_def bundles_match_def
      engines_at_def game_at_def fd_at_def)

lemma upd_inv_frame [simp]:
  "upd_inv G s (u\<lparr>up_skip := x\<rparr>) = upd_inv G s u"
  "upd_inv G s (u\<lparr>up_local := y\<rparr>) = upd_inv G s u"
  "upd_inv G s (u\<lparr>up_out := o1\<rparr>) = upd_inv G s u"
  "upd_inv G s (u\<lparr>up_fast := q\<rparr>) = upd_inv G s u"
  "upd_inv G s (u\<lparr>up_final := q\<rparr>) = upd_inv G s u"
  by (simp_all add: upd_inv_pre)

section \<open>What a bundle must satisfy\<close>

text \<open>
  The bundle lies in the open part of the window, no engine sends twice for the frame, its ids
  are not negative, and frame numbers stay clear of \<open>MaxInt32\<close>.
\<close>

definition fits :: "('e, 'g) history \<Rightarrow> int \<Rightarrow> int \<Rightarrow> int \<Rightarrow> 'e event_bundle \<Rightarrow> bool" where
  "fits s lo len f b \<longleftrightarrow> lo < f \<and> f < lo + len \<and> f + len \<le> max_i32 \<and>
     disjoint_bundles (hi_bundles s f) (map_of_nilable b) \<and>
     nonneg_ids eid (fmdom' (map_of_nilable b))"

definition accept :: "int \<Rightarrow> 'e frame_bundle \<Rightarrow> ('e, 'g) history \<Rightarrow> ('e, 'g) history" where
  "accept lo rb s = (if fb_frame rb \<le> lo then s
                     else add_bundle (fb_frame rb) (map_of_nilable (fb_bundle rb)) s)"

fun fits_all :: "('e, 'g) history \<Rightarrow> int \<Rightarrow> int \<Rightarrow> 'e frame_bundle list \<Rightarrow> bool" where
  "fits_all s lo len [] = True"
| "fits_all s lo len (rb # rbs) =
     ((fb_frame rb \<le> lo \<or> fits s lo len (fb_frame rb) (fb_bundle rb)) \<and>
      fits_all (accept lo rb s) lo len rbs)"

abbreviation win_len :: "('e, 'g) updater \<Rightarrow> int" where
  "win_len u \<equiv> dw_len (up_window u)"

section \<open>Remote bundles\<close>

lemma note_joined_eq:
  "note_joined me frame es sk = Inr (if EngineJoined me \<in> set es then frame else sk)"
  unfolding note_joined_def
  by (induction es arbitrary: sk) (auto split: engine_event.splits)

lemma note_joined_total: "\<exists>sk'. each_engine b (\<lambda>_. note_joined me frame) sk = Inr sk'"
  unfolding each_engine_def by (rule each_total) (simp add: note_joined_eq)

context game_iface
begin

lemma pending_extend:
  assumes "upd_inv G s u" and "win_start u < f" and "hi_pending s"
  shows "hi_base s + 1 < min (up_dirty u) f \<or> f = hi_base s + 1"
  using upd_invD(2,6) [OF assms(1)] assms(2,3) by auto

lemma remote_one_ok:
  assumes u: "upd_inv G s u" and f: "fits s (win_start u) (win_len u) (fb_frame rb) (fb_bundle rb)"
  shows "\<exists>w sk. let u' = (extend_to (fb_frame rb) u)\<lparr>up_window := w, up_skip := sk\<rparr> in
           remote_one rb u = Inr u' \<and> dw_first w = win_start u \<and> dw_len w = win_len u \<and>
           upd_inv G (add_bundle (fb_frame rb) (map_of_nilable (fb_bundle rb)) s) u'"
proof -
  let ?f = "fb_frame rb" and ?b = "fb_bundle rb"
  note ff = f [unfolded fits_def]
  obtain w where w: "for_le (i32 (up_global u + 1)) ?f init_frame_data u = Inr (u\<lparr>up_window := w\<rparr>)"
      "upd_pre G s (extend_to ?f (u\<lparr>up_window := w\<rparr>))" "dw_first w = win_start u" "dw_len w = win_len u"
    using open_frames [OF u, of ?f] ff by auto
  let ?v = "extend_to ?f (u\<lparr>up_window := w\<rparr>)"
  obtain sk where sk: "(if up_skip ?v = -1
        then seq (each_engine ?b (\<lambda>_. note_joined (ep_id (up_params ?v)) ?f) (up_skip ?v))
               (\<lambda>sk. Inr (?v\<lparr>up_skip := sk\<rparr>))
        else Inr ?v) = Inr (?v\<lparr>up_skip := sk\<rparr>)"
  proof (cases "up_skip ?v = -1")
    case True
    then show thesis
      using that note_joined_total [of ?b "ep_id (up_params ?v)" ?f "up_skip ?v"] by auto
  next
    case False
    then show thesis using that [of "up_skip ?v"] by simp
  qed
  obtain w' where w': "absorb_at ?f ?b (?v\<lparr>up_skip := sk\<rparr>) = Inr (?v\<lparr>up_skip := sk, up_window := w'\<rparr>)"
      "dw_first w' = dw_first w" "dw_len w' = dw_len w"
      "upd_inv G (add_bundle ?f (map_of_nilable ?b) s) (?v\<lparr>up_skip := sk, up_window := w'\<rparr>)"
    using absorb_at_ok [of s "?v\<lparr>up_skip := sk\<rparr>" ?f ?b] w ff pending_extend [OF u, of ?f]
    by auto
  have eq: "?v\<lparr>up_skip := sk, up_window := w'\<rparr> = (extend_to ?f u)\<lparr>up_window := w', up_skip := sk\<rparr>"
    by (simp add: extend_to_def Let_def)
  have "remote_one rb u = Inr ((extend_to ?f u)\<lparr>up_window := w', up_skip := sk\<rparr>)"
    unfolding remote_one_def Let_def using ff w(1) sk w'(1) eq by simp
  with w w' eq show ?thesis by (intro exI [of _ w'] exI [of _ sk]) (simp add: Let_def)
qed

lemma remote_one_drop: "fb_frame rb \<le> win_start u \<Longrightarrow> remote_one rb u = Inr u"
  by (simp add: remote_one_def)

end

text \<open>Absorbing a whole group: only the window, the two frame marks and \<open>skip_to_frame\<close> change.\<close>

definition absorbed :: "('e, 'g) updater \<Rightarrow> ('e, 'g) updater \<Rightarrow> bool" where
  "absorbed u v \<longleftrightarrow> (\<exists>w gl di sk. v = u\<lparr>up_window := w, up_global := gl, up_dirty := di, up_skip := sk\<rparr> \<and>
     dw_first w = win_start u \<and> dw_len w = win_len u \<and> up_global u \<le> gl)"

lemma absorbedD:
  assumes "absorbed u v"
  shows "win_start v = win_start u" "win_len v = win_len u" "up_global u \<le> up_global v"
    "up_out v = up_out u" "up_final v = up_final u" "up_fast v = up_fast u"
    "up_hosting v = up_hosting u" "up_params v = up_params u" "up_local v = up_local u"
    "up_shutdown v = up_shutdown u"
  using assms by (auto simp: absorbed_def)

lemma absorbedI:
  "dw_first w = win_start u \<Longrightarrow> dw_len w = win_len u \<Longrightarrow> up_global u \<le> gl \<Longrightarrow>
   absorbed u (u\<lparr>up_window := w, up_global := gl, up_dirty := di, up_skip := sk\<rparr>)"
  unfolding absorbed_def by blast

lemma absorbed_refl: "absorbed u u"
  using absorbedI [of "up_window u" u "up_global u", where di = "up_dirty u" and sk = "up_skip u"]
  by simp

lemma absorbed_extend:
  assumes "absorbed ((extend_to f u)\<lparr>up_window := w, up_skip := sk\<rparr>) v"
    and "dw_first w = win_start u" and "dw_len w = win_len u"
  shows "absorbed u v"
proof -
  let ?u1 = "(extend_to f u)\<lparr>up_window := w, up_skip := sk\<rparr>"
  obtain w' gl di sk' where v: "v = ?u1\<lparr>up_window := w', up_global := gl, up_dirty := di, up_skip := sk'\<rparr>"
      "dw_first w' = win_start ?u1" "dw_len w' = win_len ?u1" "up_global ?u1 \<le> gl"
    using assms(1) unfolding absorbed_def by blast
  have "v = u\<lparr>up_window := w', up_global := gl, up_dirty := di, up_skip := sk'\<rparr>"
    unfolding v(1) by (simp add: extend_to_def Let_def)
  with v assms show ?thesis by (simp add: absorbedI)
qed

context game_iface
begin

lemma absorb_group_ok:
  assumes "upd_inv G s u" and "fits_all s (win_start u) (win_len u) rbs"
  shows "\<exists>v. fold_res remote_one rbs u = Inr v \<and> absorbed u v \<and>
             upd_inv G (fold (accept (win_start u)) rbs s) v \<and>
             (\<forall>rb \<in> set rbs. fb_frame rb \<le> up_global v)"
  using assms
proof (induction rbs arbitrary: s u)
  case Nil
  then show ?case by (simp add: absorbed_refl)
next
  case (Cons rb rbs)
  show ?case
  proof (cases "fb_frame rb \<le> win_start u")
    case True
    then have eqs: "accept (win_start u) rb s = s" "remote_one rb u = Inr u"
      by (simp_all add: accept_def remote_one_drop)
    then obtain v where "fold_res remote_one rbs u = Inr v" "absorbed u v"
        "upd_inv G (fold (accept (win_start u)) rbs s) v" "\<forall>rb \<in> set rbs. fb_frame rb \<le> up_global v"
      using Cons by fastforce
    then show ?thesis using eqs True absorbedD(3) [of u v] upd_shapeD(3) [OF upd_invD(1) [OF Cons.prems(1)]]
      by auto
  next
    case False
    then have fit: "fits s (win_start u) (win_len u) (fb_frame rb) (fb_bundle rb)"
      using Cons.prems(2) by simp
    obtain w sk where one: "remote_one rb u = Inr ((extend_to (fb_frame rb) u)\<lparr>up_window := w, up_skip := sk\<rparr>)"
        "dw_first w = win_start u" "dw_len w = win_len u"
        "upd_inv G (accept (win_start u) rb s) ((extend_to (fb_frame rb) u)\<lparr>up_window := w, up_skip := sk\<rparr>)"
      using remote_one_ok [OF Cons.prems(1) fit] False by (auto simp: Let_def accept_def)
    define u1 where "u1 = (extend_to (fb_frame rb) u)\<lparr>up_window := w, up_skip := sk\<rparr>"
    have "fits_all (accept (win_start u) rb s) (win_start u1) (win_len u1) rbs"
      using Cons.prems(2) one by (simp add: u1_def)
    then obtain v where v: "fold_res remote_one rbs u1 = Inr v" "absorbed u1 v"
        "upd_inv G (fold (accept (win_start u1)) rbs (accept (win_start u) rb s)) v"
        "\<forall>rb \<in> set rbs. fb_frame rb \<le> up_global v"
      using Cons.IH one(4) unfolding u1_def [symmetric] by blast
    have "absorbed u v" using v(2) one(2,3) unfolding u1_def by (rule absorbed_extend)
    moreover have "fb_frame rb \<le> up_global v" using absorbedD(3) [OF v(2)] by (simp add: u1_def)
    ultimately show ?thesis using v one by (auto simp: u1_def)
  qed
qed

end

section \<open>The invariant between two handlers\<close>

text \<open>
  Between two rounds of \<open>routine\<close> nothing is dirty, and all frames up to the first of the
  window are complete. \<open>maximal\<close> adds that the window cannot move further.
\<close>

definition settled :: "('e, 'g) game_ops \<Rightarrow> ('e, 'g) history \<Rightarrow> ('e, 'g) updater \<Rightarrow> bool" where
  "settled G s u \<longleftrightarrow> upd_inv G s u \<and> up_dirty u = up_global u + 1 \<and>
     (\<forall>f. hi_base s < f \<and> f \<le> win_start u \<longrightarrow> complete G s f)"

definition maximal :: "('e, 'g) game_ops \<Rightarrow> ('e, 'g) history \<Rightarrow> ('e, 'g) updater \<Rightarrow> bool" where
  "maximal G s u \<longleftrightarrow> (win_start u < up_global u \<longrightarrow> \<not> complete G s (win_start u + 1))"

lemma settledD:
  assumes "settled G s u"
  shows "upd_inv G s u" and "up_dirty u = up_global u + 1"
    and "hi_base s < f \<Longrightarrow> f \<le> win_start u \<Longrightarrow> complete G s f"
  using assms by (auto simp: settled_def)

lemma complete_add:
  assumes "hi_base s < k" and "f < k"
  shows "complete G (add_bundle k b s) f = complete G s f"
  using assms by (simp add: complete_def state_at_add_bundle)

lemma complete_accept:
  assumes "hi_base s \<le> lo" and "f \<le> lo"
  shows "complete G (accept lo rb s) f = complete G s f"
  using assms by (auto simp: accept_def complete_add)

lemma accept_base [simp]: "hi_base (accept lo rb s) = hi_base s"
  by (simp add: accept_def)

lemma fold_accept_base [simp]: "hi_base (fold (accept lo) rbs s) = hi_base s"
  by (induction rbs arbitrary: s) auto

lemma complete_fold_accept:
  assumes "hi_base s \<le> lo" and "f \<le> lo"
  shows "complete G (fold (accept lo) rbs s) f = complete G s f"
  using assms(1)
proof (induction rbs arbitrary: s)
  case (Cons rb rbs)
  then show ?case using complete_accept [OF Cons.prems assms(2)] by simp
qed simp

text \<open>What \<open>advance\<close> leaves: the relation between the states before and after it.\<close>

definition advanced :: "('e, 'g) game_ops \<Rightarrow> ('e, 'g) history \<Rightarrow> ('e, 'g) updater \<Rightarrow> ('e, 'g) updater \<Rightarrow> bool" where
  "advanced G s u v \<longleftrightarrow> settled G s v \<and> maximal G s v \<and> win_start u \<le> win_start v \<and>
     win_len v = win_len u \<and> up_global v = up_global u \<and> up_local v = up_local u \<and>
     up_params v = up_params u \<and> up_hosting v = up_hosting u \<and> up_skip v = up_skip u \<and>
     up_fast v = up_fast u \<and> up_shutdown v = up_shutdown u \<and>
     (\<forall>f. win_start u \<le> f \<and> f \<le> up_global u \<longrightarrow> (engines_at v f, game_at v f) = state_at G s f) \<and>
     (\<exists>out. up_out v = up_out u @ out \<and>
        boot_outs out = (if up_hosting u then map (boot_of v) [win_start u + 1..win_start v] else []) \<and>
        mset (map rq_chan (up_final u)) = mset (map rq_chan (up_final v)) + mset (resp_chans out) \<and>
        clears (win_start u) (win_start v) (up_final u) (up_final v) \<and>
        (\<forall>c p f. Respond c p f \<in> set out \<longrightarrow> win_start u < f \<and> f \<le> win_start v \<and>
           p = fd_game (fd_at v f) \<and> (\<exists>r \<in> set (up_final u). rq_chan r = c \<and> rq_frame r = f)) \<and>
        (\<forall>m \<in> set out. (\<exists>b. m = BootstrapOut b) \<or> (\<exists>c p f. m = Respond c p f)))"

lemma advancedD:
  assumes "advanced G s u v"
  shows "settled G s v" and "maximal G s v" and "win_start u \<le> win_start v" and "win_len v = win_len u"
    and "up_global v = up_global u" and "up_local v = up_local u" and "up_skip v = up_skip u"
    and "up_params v = up_params u" and "up_fast v = up_fast u"
    and "up_shutdown v = up_shutdown u"
    and "win_start u \<le> f \<Longrightarrow> f \<le> up_global u \<Longrightarrow> (engines_at v f, game_at v f) = state_at G s f"
  using assms unfolding advanced_def by blast+

context game_iface
begin

lemma advance_settles:
  assumes u: "upd_inv G s u" and c: "\<And>f. hi_base s < f \<Longrightarrow> f \<le> win_start u \<Longrightarrow> complete G s f"
  shows "\<exists>v. advance G u = Inr v \<and> advanced G s u v"
proof -
  obtain w h w' fin out where a:
    "advance G u = Inr (u\<lparr>up_window := w, up_heap := h, up_dirty := up_global u + 1\<rparr>
       \<lparr>up_window := w', up_final := fin, up_out := up_out u @ out\<rparr>)"
    "upd_inv G s (u\<lparr>up_window := w, up_heap := h, up_dirty := up_global u + 1\<rparr>
       \<lparr>up_window := w', up_final := fin, up_out := up_out u @ out\<rparr>)"
    "dw_first w = win_start u" "dw_len w = win_len u"
    "final_moves G s (u\<lparr>up_window := w, up_heap := h, up_dirty := up_global u + 1\<rparr>) w' fin out"
    "dw_first w' < up_global u \<longrightarrow> \<not> complete G s (dw_first w' + 1)"
    "upd_inv G s (u\<lparr>up_window := w, up_heap := h, up_dirty := up_global u + 1\<rparr>)"
    using advance_ok [OF u] unfolding Let_def by blast
  let ?u1 = "u\<lparr>up_window := w, up_heap := h, up_dirty := up_global u + 1\<rparr>"
  let ?v = "?u1\<lparr>up_window := w', up_final := fin, up_out := up_out u @ out\<rparr>"
  note fm = a(5) [unfolded final_moves_def, simplified]
  have fd: "fd_at ?v f = fd_at ?u1 f" for f using fm by (simp add: fd_at_def)
  have boot: "boot_of ?v = boot_of ?u1" by (rule ext) (simp only: boot_of_def fd)
  have st: "settled G s ?v"
    unfolding settled_def
  proof (intro conjI allI impI)
    fix f assume f: "hi_base s < f \<and> f \<le> win_start ?v"
    show "complete G s f"
    proof (cases "f \<le> win_start u")
      case False
      with f fm a(3) show ?thesis by auto
    qed (use c f in auto)
  qed (use a(2) in auto)
  have mx: "maximal G s ?v" using a(6) by (simp add: maximal_def)
  have vw: "\<forall>f. win_start u \<le> f \<and> f \<le> up_global u \<longrightarrow>
      (engines_at ?v f, game_at ?v f) = state_at G s f"
  proof -
    have "engines_at ?v f = engines_at ?u1 f \<and> game_at ?v f = game_at ?u1 f" for f
      by (simp only: engines_at_def game_at_def fd) simp
    then show ?thesis using upd_invD(3) [OF a(7)] a(3) by (simp add: clean_def)
  qed
  have ou: "\<exists>o1. up_out ?v = up_out u @ o1 \<and>
        boot_outs o1 = (if up_hosting u then map (boot_of ?v) [win_start u + 1..win_start ?v] else []) \<and>
        mset (map rq_chan (up_final u)) = mset (map rq_chan (up_final ?v)) + mset (resp_chans o1) \<and>
        clears (win_start u) (win_start ?v) (up_final u) (up_final ?v) \<and>
        (\<forall>c p f. Respond c p f \<in> set o1 \<longrightarrow> win_start u < f \<and> f \<le> win_start ?v \<and>
           p = fd_game (fd_at ?v f) \<and> (\<exists>r \<in> set (up_final u). rq_chan r = c \<and> rq_frame r = f)) \<and>
        (\<forall>m \<in> set o1. (\<exists>b. m = BootstrapOut b) \<or> (\<exists>c p f. m = Respond c p f))"
    unfolding fd boot using fm a(3,4) by (intro exI [of _ out]) auto
  have "advanced G s u ?v"
    unfolding advanced_def
  proof (intro conjI)
    show "settled G s ?v" by (rule st)
    show "maximal G s ?v" by (rule mx)
    show "\<forall>f. win_start u \<le> f \<and> f \<le> up_global u \<longrightarrow> (engines_at ?v f, game_at ?v f) = state_at G s f"
      by (rule vw)
  qed (rule ou | use fm a(3,4) in simp)+
  with a(1) show ?thesis by blast
qed

text \<open>The handler of a group of remote bundles.\<close>

lemma handle_remote_ok:
  assumes u: "settled G s u" and f: "fits_all s (win_start u) (win_len u) rbs"
  shows "\<exists>v v'. handle_remote G rbs u = Inr v' \<and> absorbed u v \<and>
           advanced G (fold (accept (win_start u)) rbs s) v v' \<and>
           (\<forall>rb \<in> set rbs. fb_frame rb \<le> up_global v') \<and> fold_res remote_one rbs u = Inr v"
proof -
  let ?s = "fold (accept (win_start u)) rbs s"
  obtain v where v: "fold_res remote_one rbs u = Inr v" "absorbed u v" "upd_inv G ?s v"
      "\<forall>rb \<in> set rbs. fb_frame rb \<le> up_global v"
    using absorb_group_ok [OF settledD(1) [OF u] f] by blast
  have "complete G ?s k" if "hi_base ?s < k" "k \<le> win_start v" for k
    using that absorbedD(1) [OF v(2)] settledD(3) [OF u, of k]
      upd_invD(2) [OF settledD(1) [OF u]] by (simp add: complete_fold_accept)
  then obtain v' where "advance G v = Inr v'" "advanced G ?s v v'"
    using advance_settles [OF v(3)] by blast
  with v show ?thesis using advancedD(5) [of G ?s v v'] by (auto simp: handle_remote_def)
qed

end

section \<open>Local bundles\<close>

lemma fulfill_fast_ok:
  assumes "win_ok u"
    and "inwin u (up_local u) \<or> (\<forall>r \<in> set (up_fast u). rq_frame r \<noteq> up_local u)"
  defines "sw \<equiv> sweep (\<lambda>r. rq_frame r = up_local u) 0 (up_fast u)"
  shows "fulfill_fast_requests u =
    Inr (u\<lparr>up_fast := snd sw,
           up_out := up_out u @ map (\<lambda>r. Respond (rq_chan r) (fd_game (fd_at u (up_local u))) (up_local u)) (fst sw)\<rparr>)"
proof (cases "fst sw = []")
  case True
  then have "snd sw = up_fast u" unfolding sw_def by (rule sweep_nil)
  with True show ?thesis unfolding fulfill_fast_requests_def sw_def [symmetric]
    by (simp add: split_def)
next
  case False
  then have "inwin u (up_local u)"
    using assms(2) sweep_none [of "up_fast u" "\<lambda>r. rq_frame r = up_local u" 0] unfolding sw_def
    by auto
  with False show ?thesis unfolding fulfill_fast_requests_def sw_def [symmetric]
    by (simp add: split_def dw_get_fd_at [OF assms(1)])
qed

text \<open>The state in which \<open>advance\<close> is called for a local bundle.\<close>

definition local_absorbed ::
  "'e frame_bundle \<Rightarrow> ('e, 'g) updater \<Rightarrow> 'e frame_data data_window \<Rightarrow> ('e, 'g) updater" where
  "local_absorbed lb u w =
     (extend_to (fb_frame lb) (u\<lparr>up_local := fb_frame lb\<rparr>))
       \<lparr>up_window := w, up_out := up_out u @ [Broadcast lb]\<rparr>"

definition fast_answered :: "('e, 'g) updater \<Rightarrow> ('e, 'g) updater" where
  "fast_answered u =
     (let sw = sweep (\<lambda>r. rq_frame r = up_local u) 0 (up_fast u)
      in u\<lparr>up_fast := snd sw,
           up_out := up_out u @ map (\<lambda>r. Respond (rq_chan r) (fd_game (fd_at u (up_local u))) (up_local u)) (fst sw)\<rparr>)"

context game_iface
begin

lemma local_tail_ok:
  assumes u: "upd_inv G s u" and c: "\<And>f. hi_base s < f \<Longrightarrow> f \<le> win_start u \<Longrightarrow> complete G s f"
    and skip: "up_skip u = 0" and gl: "0 \<le> win_start u"
    and f: "fits s (win_start u) (win_len u) (fb_frame lb) (fb_bundle lb)"
    and fast: "(\<forall>r \<in> set (up_fast u). rq_frame r \<noteq> fb_frame lb) \<or> up_global u \<le> fb_frame lb \<or>
               \<not> complete G (add_bundle (fb_frame lb) (map_of_nilable (fb_bundle lb)) s) (fb_frame lb + 1)"
  shows "\<exists>w v. handle_local G lb u = Inr (fast_answered v) \<and>
           (inwin v (up_local v) \<or> (\<forall>r \<in> set (up_fast v). rq_frame r \<noteq> up_local v)) \<and>
           dw_first w = win_start u \<and> dw_len w = win_len u \<and>
           advanced G (add_bundle (fb_frame lb) (map_of_nilable (fb_bundle lb)) s) (local_absorbed lb u w) v"
proof -
  let ?f = "fb_frame lb" and ?b = "fb_bundle lb"
  let ?s = "add_bundle ?f (map_of_nilable ?b) s" and ?u = "u\<lparr>up_local := ?f\<rparr>"
  note ff = f [unfolded fits_def] and sh = upd_shapeD [OF upd_invD(1) [OF u]]
  have inv: "upd_inv G s ?u" using u by simp
  obtain w where w: "for_le (i32 (up_global ?u + 1)) ?f init_frame_data ?u = Inr (?u\<lparr>up_window := w\<rparr>)"
      "upd_pre G s (extend_to ?f (?u\<lparr>up_window := w\<rparr>))" "dw_first w = win_start u" "dw_len w = win_len u"
    using open_frames [OF inv, of ?f] ff by auto
  let ?v = "extend_to ?f (?u\<lparr>up_window := w\<rparr>)"
  obtain w' where w': "absorb_at ?f ?b ?v = Inr (?v\<lparr>up_window := w'\<rparr>)"
      "dw_first w' = dw_first w" "dw_len w' = dw_len w" "upd_inv G ?s (?v\<lparr>up_window := w'\<rparr>)"
    using absorb_at_ok [of s ?v ?f ?b] w ff pending_extend [OF u, of ?f] by auto
  have la: "send (Broadcast lb) (?v\<lparr>up_window := w'\<rparr>) = local_absorbed lb u w'"
    by (simp add: send_def local_absorbed_def extend_to_def Let_def)
  have "local_absorbed lb u w' = ?v\<lparr>up_window := w'\<rparr>\<lparr>up_out := up_out u @ [Broadcast lb]\<rparr>"
    by (simp add: local_absorbed_def extend_to_def Let_def)
  then have inv': "upd_inv G ?s (local_absorbed lb u w')" using w'(4) by simp
  have ws: "win_start (local_absorbed lb u w') = win_start u" using w w' by (simp add: local_absorbed_def)
  have "complete G ?s k" if "hi_base ?s < k" "k \<le> win_start (local_absorbed lb u w')" for k
    using that c [of k] complete_add [where s = s and k = ?f and f = k and G = G] ff upd_invD(2) [OF u] by (simp add: ws)
  then obtain v where v: "advance G (local_absorbed lb u w') = Inr v"
      "advanced G ?s (local_absorbed lb u w') v"
    using advance_settles [OF inv'] by blast
  have vs: "settled G ?s v" "up_local v = ?f" "up_fast v = up_fast u" "up_global v = max (up_global u) ?f"
    "win_start u \<le> win_start v" "win_len v = win_len u"
    using advancedD [OF v(2)] w w' by (simp_all add: local_absorbed_def)
  note shv = upd_shapeD [OF upd_invD(1) [OF settledD(1) [OF vs(1)]]]
  have iw: "inwin v (up_local v) \<or> (\<forall>r \<in> set (up_fast v). rq_frame r \<noteq> up_local v)"
  proof (cases "win_start v \<le> ?f")
    case True
    then show ?thesis using vs ff by (auto simp: dw_inb_def)
  next
    case False
    then have "complete G ?s (?f + 1)"
      using settledD(3) [OF vs(1), of "?f + 1"] ff upd_invD(2) [OF u] by simp
    moreover have "\<not> up_global u \<le> ?f" using False shv(3) vs(4) by auto
    ultimately show ?thesis using fast vs by auto
  qed
  then have "fulfill_fast_requests v = Inr (fast_answered v)"
    using fulfill_fast_ok [OF shv(1)] by (simp add: fast_answered_def Let_def)
  moreover have "\<not> i32 (up_global u + 1) < 0" using gl sh by simp
  ultimately have "handle_local G lb u = Inr (fast_answered v)"
    unfolding handle_local_def using skip gl ff w(1) w'(1) la v(1) sh upd_invD(2) [OF u]
    by (simp add: Let_def)
  with v w w' iw show ?thesis by (intro exI [of _ w'] exI [of _ v]) simp
qed

end

section \<open>Joining: the skipped frames\<close>

definition dummy_map :: "engine_id \<Rightarrow> 'e bundle_map" where
  "dummy_map i = fmupd i no_events fmempty"

lemma dummy_bundle_map [simp]: "map_of_nilable (dummy_bundle i) = dummy_map i"
  by (simp add: dummy_bundle_def dummy_map_def)

text \<open>The history with an empty bundle of engine \<open>me\<close> for the frames from \<open>lo\<close> to below \<open>hi\<close>.\<close>

definition join_history :: "engine_id \<Rightarrow> int \<Rightarrow> int \<Rightarrow> ('e, 'g) history \<Rightarrow> ('e, 'g) history" where
  "join_history me lo hi s = fold (\<lambda>k. add_bundle k (dummy_map me)) [lo..hi - 1] s"

lemma join_history_empty [simp]: "hi \<le> lo \<Longrightarrow> join_history me lo hi s = s"
  by (simp add: join_history_def)

lemma join_history_step:
  assumes "lo \<le> hi"
  shows "join_history me lo (hi + 1) s = add_bundle hi (dummy_map me) (join_history me lo hi s)"
proof -
  have "[lo..hi] = [lo..hi - 1] @ [hi]" using assms by (simp add: upto_rec2)
  then show ?thesis by (simp add: join_history_def)
qed

lemma join_history_base [simp]: "hi_base (join_history me lo hi s) = hi_base s"
proof -
  have "hi_base (fold (\<lambda>k. add_bundle k (dummy_map me)) ks s) = hi_base s" for ks
    by (induction ks arbitrary: s) auto
  then show ?thesis by (simp add: join_history_def)
qed

lemma join_history_later:
  assumes "hi \<le> k"
  shows "hi_bundles (join_history me lo hi s) k = hi_bundles s k"
proof -
  have "k \<notin> set ks \<Longrightarrow> hi_bundles (fold (\<lambda>j. add_bundle j (dummy_map me)) ks s) k = hi_bundles s k" for ks
    by (induction ks arbitrary: s) auto
  then show ?thesis using assms by (simp add: join_history_def)
qed

lemma join_history_pending:
  "hi_pending (join_history me lo hi s) \<Longrightarrow> hi_pending s"
proof -
  have "hi_pending (fold (\<lambda>j. add_bundle j (dummy_map me)) ks s) \<Longrightarrow> hi_pending s" for ks
  proof (induction ks arbitrary: s)
    case (Cons k ks)
    show ?case using Cons.IH [of "add_bundle k (dummy_map me) s"] Cons.prems
      by (simp add: add_bundle_def)
  qed simp
  then show "hi_pending (join_history me lo hi s) \<Longrightarrow> hi_pending s"
    unfolding join_history_def by blast
qed

lemma complete_join:
  assumes "hi_base s < lo" and "f < lo"
  shows "complete G (join_history me lo hi s) f = complete G s f"
proof -
  have "\<forall>k \<in> set ks. lo \<le> k \<Longrightarrow> hi_base s < lo \<Longrightarrow>
        complete G (fold (\<lambda>j. add_bundle j (dummy_map me)) ks s) f = complete G s f" for ks
    by (induction ks arbitrary: s) (use assms(2) in \<open>auto simp: complete_add\<close>)
  then show ?thesis using assms(1) by (simp add: join_history_def)
qed

definition skip_outs :: "engine_id \<Rightarrow> int \<Rightarrow> int \<Rightarrow> 'e upd_out list" where
  "skip_outs me lo hi = map (\<lambda>k. Broadcast \<lparr>fb_frame = k, fb_bundle = dummy_bundle me\<rparr>) [lo..hi - 1]"

lemma skip_outs_step: "lo \<le> hi \<Longrightarrow>
  skip_outs me lo (hi + 1) = skip_outs me lo hi @ [Broadcast \<lparr>fb_frame = hi, fb_bundle = dummy_bundle me\<rparr>]"
  by (simp add: skip_outs_def upto_rec2)

context game_iface
begin

definition skip_inv :: "('e, 'g) history \<Rightarrow> ('e, 'g) updater \<Rightarrow> int \<Rightarrow> int \<Rightarrow> ('e, 'g) updater \<Rightarrow> bool" where
  "skip_inv s u lo i v \<longleftrightarrow>
     (\<exists>w. v = u\<lparr>up_window := w, up_out := up_out u @ skip_outs (ep_id (up_params u)) lo i\<rparr> \<and>
          dw_first w = win_start u \<and> dw_len w = win_len u \<and>
          upd_inv G (join_history (ep_id (up_params u)) lo i s) v)"

lemma fill_skipped_ok:
  assumes u: "upd_inv G s u" and lo: "win_start u < up_skip u" "up_skip u \<le> f" "f \<le> up_global u + 1"
    and me: "0 \<le> eid (ep_id (up_params u))"
    and new: "\<And>k. up_skip u \<le> k \<Longrightarrow> k < f \<Longrightarrow> ep_id (up_params u) \<notin> fmdom' (hi_bundles s k)"
    and p: "hi_pending s \<Longrightarrow> hi_base s + 1 < up_skip u"
  shows "\<exists>w. let u' = u\<lparr>up_window := w, up_dirty := min (up_dirty u) (up_skip u), up_skip := 0,
                         up_out := up_out u @ skip_outs (ep_id (up_params u)) (up_skip u) f\<rparr> in
           fill_skipped f u = Inr u' \<and> dw_first w = win_start u \<and> dw_len w = win_len u \<and>
           upd_inv G (join_history (ep_id (up_params u)) (up_skip u) f s) u'"
proof -
  let ?me = "ep_id (up_params u)" and ?lo = "up_skip u"
  define u1 where "u1 = u\<lparr>up_dirty := min (up_dirty u) ?lo\<rparr>"
  note sh = upd_shapeD [OF upd_invD(1) [OF u]]
  have u1: "upd_inv G s u1" using u lo p
    by (auto simp: upd_inv_def upd_shape_def u1_def win_ok_def clean_def bundles_match_def
        engines_at_def game_at_def fd_at_def)
  have start: "skip_inv s u1 ?lo ?lo u1"
    unfolding skip_inv_def using u1
    by (intro exI [of _ "up_window u1"]) (simp add: skip_outs_def)
  have step: "\<exists>v'. fill_skipped_one i v = Inr v' \<and> skip_inv s u1 ?lo (i + 1) v'"
    if i: "?lo \<le> i" "i < f" and v: "skip_inv s u1 ?lo i v" for i v
  proof -
    let ?s = "join_history ?me ?lo i s"
    obtain w where w: "v = u1\<lparr>up_window := w, up_out := up_out u1 @ skip_outs ?me ?lo i\<rparr>"
        "dw_first w = win_start u" "dw_len w = win_len u" "upd_inv G ?s v"
      using v by (auto simp: skip_inv_def u1_def)
    have "disjoint_bundles (hi_bundles ?s i) (dummy_map ?me)"
      using new [of i] i by (auto simp: disjoint_bundles_def join_history_later dummy_map_def fmlookup_dom'_iff split: if_splits)
    moreover have "nonneg_ids eid (fmdom' (dummy_map ?me))" using me by (simp add: nonneg_ids_def dummy_map_def)
    moreover have "hi_pending ?s \<Longrightarrow> hi_base ?s + 1 < up_dirty v \<or> i = hi_base ?s + 1"
      using upd_invD(6) [OF w(4)] by simp
    moreover have "up_dirty v \<le> i" "win_start v < i" "i \<le> up_global v"
      using i lo w by (auto simp: u1_def)
    ultimately obtain w' where w': "absorb_at i (dummy_bundle ?me) v = Inr (v\<lparr>up_window := w'\<rparr>)"
        "dw_first w' = win_start v" "dw_len w' = win_len v"
        "upd_inv G (add_bundle i (dummy_map ?me) ?s) (v\<lparr>up_window := w'\<rparr>)"
      using absorb_at_ok [of ?s v i "dummy_bundle ?me"] w(4) by (auto simp: upd_inv_pre)
    have par: "ep_id (up_params v) = ?me" using w by (simp add: u1_def)
    let ?v = "send (Broadcast \<lparr>fb_frame = i, fb_bundle = dummy_bundle ?me\<rparr>) (v\<lparr>up_window := w'\<rparr>)"
    have "?v = v\<lparr>up_window := w'\<rparr>\<lparr>up_out := up_out v @ [Broadcast \<lparr>fb_frame = i, fb_bundle = dummy_bundle ?me\<rparr>]\<rparr>"
      by (simp add: send_def)
    then have inv: "upd_inv G (join_history ?me ?lo (i + 1) s) ?v"
      using w'(4) i by (simp add: join_history_step)
    have "?v = u1\<lparr>up_window := w', up_out := up_out u1 @ skip_outs ?me ?lo (i + 1)\<rparr>"
      using i by (simp add: send_def w(1) skip_outs_step)
    with inv w w' have "skip_inv s u1 ?lo (i + 1) ?v"
      unfolding skip_inv_def by (intro exI [of _ w']) (auto simp: u1_def)
    with w'(1) par show ?thesis by (simp add: fill_skipped_one_def)
  qed
  obtain v where v: "for_lt ?lo f fill_skipped_one u1 = Inr v" "skip_inv s u1 ?lo f v"
    using for_lt_invariant [where I = "skip_inv s u1 ?lo" and body = fill_skipped_one, OF start lo(2)] step
    by blast
  have u1eq: "(if ?lo < up_dirty u then u\<lparr>up_dirty := ?lo\<rparr> else u) = u1"
    by (simp add: u1_def min_def)
  obtain w where w: "v = u1\<lparr>up_window := w, up_out := up_out u @ skip_outs ?me ?lo f\<rparr>"
      "dw_first w = win_start u" "dw_len w = win_len u" "upd_inv G (join_history ?me ?lo f s) v"
    using v(2) by (auto simp: skip_inv_def u1_def)
  let ?u' = "u\<lparr>up_window := w, up_dirty := min (up_dirty u) ?lo, up_skip := 0,
               up_out := up_out u @ skip_outs ?me ?lo f\<rparr>"
  have eq: "v\<lparr>up_skip := 0\<rparr> = ?u'" by (simp add: w(1) u1_def)
  then have "fill_skipped f u = Inr ?u'" using v(1) by (simp add: fill_skipped_def u1eq)
  moreover have "upd_inv G (join_history ?me ?lo f s) ?u'" using w(4) eq upd_inv_frame(1) by metis
  ultimately show ?thesis using w(2,3) by (auto simp: Let_def)
qed

text \<open>The first local bundle of a joining engine is an ordinary one after the skipped frames.\<close>

lemma handle_local_join:
  assumes "0 < up_skip u" and "up_skip u \<le> fb_frame lb" and "fill_skipped (fb_frame lb) u = Inr u1"
    and "up_skip u1 = 0"
  shows "handle_local G lb u = handle_local G lb u1"
  using assms by (simp add: handle_local_def)

lemma handle_local_ignored:
  "up_skip u = -1 \<or> fb_frame lb < up_skip u \<Longrightarrow> handle_local G lb u = Inr u"
  by (simp add: handle_local_def)

end

end
