(* ===== verification/Updater_Start.thy ===== *)
theory Updater_Start
  imports Updater_Handlers
begin

text \<open>
  \<open>Start\<close> and \<open>Bootstrap\<close> establish the invariant: a fresh window whose slots own fresh copies
  of the initial game.
\<close>

section \<open>Seeding the slots\<close>

lemma slot_fresh:
  assumes "dw_ok w" and "dw_start w = 0" and "j < length (dw_data w)"
  shows "dw_slot w (dw_first w + int j) = j"
  using assms by (simp add: dw_slot_def dw_len_def)

definition seeded :: "'e frame_data list \<Rightarrow> nat \<Rightarrow> nat \<Rightarrow> 'e frame_data list" where
  "seeded ds base m =
     map (\<lambda>j. if j < m then (ds ! j)\<lparr>fd_game := Some (base + j)\<rparr> else ds ! j) [0..<length ds]"

lemma seeded_length [simp]: "length (seeded ds base m) = length ds"
  by (simp add: seeded_def)

lemma seeded_0: "seeded ds base 0 = ds"
  by (simp add: seeded_def map_nth)

lemma seeded_Suc:
  "m < length ds \<Longrightarrow>
   (seeded ds base m)[m := (seeded ds base m ! m)\<lparr>fd_game := Some (base + m)\<rparr>] = seeded ds base (Suc m)"
  by (auto intro!: nth_equalityI simp: seeded_def nth_list_update)

lemma seeded_nth:
  "j < length ds \<Longrightarrow> seeded ds base (length ds) ! j = (ds ! j)\<lparr>fd_game := Some (base + j)\<rparr>"
  by (simp add: seeded_def)

definition seed_inv :: "'e frame_data data_window \<Rightarrow> 'g list \<Rightarrow> nat \<Rightarrow> int \<Rightarrow>
  'e frame_data data_window \<times> 'g list \<Rightarrow> bool" where
  "seed_inv w h a i st \<longleftrightarrow>
     fst st = w\<lparr>dw_data := seeded (dw_data w) (length h) (nat (i - dw_first w))\<rparr> \<and>
     snd st = h @ replicate (nat (i - dw_first w)) (h ! a)"

definition history0 :: "int \<Rightarrow> (engine_id, bool) fmap \<Rightarrow> 'g \<Rightarrow> bool \<Rightarrow> ('e, 'g) history" where
  "history0 f m g p = \<lparr>hi_base = f, hi_engines = m, hi_game = g, hi_bundles = (\<lambda>_. fmempty), hi_pending = p\<rparr>"

context game_iface
begin

lemma seed_step:
  assumes w: "dw_ok w" "dw_start w = 0" and a: "a < length h"
    and i: "dw_first w \<le> i" "i < dw_end w" and st: "seed_inv w h a i st"
  shows "\<exists>st'. seed_game G (Some a) i st = Inr st' \<and> seed_inv w h a (i + 1) st'"
proof -
  define m where "m = nat (i - dw_first w)"
  have i': "i = dw_first w + int m" and m: "m < length (dw_data w)" and mi: "nat (i + 1 - dw_first w) = Suc m"
    using i dw_end_eq [OF w(1)] by (auto simp: m_def dw_len_def)
  let ?w = "w\<lparr>dw_data := seeded (dw_data w) (length h) m\<rparr>" and ?h = "h @ replicate m (h ! a)"
  have s: "st = (?w, ?h)" using st by (cases st) (simp add: seed_inv_def m_def)
  have ok: "dw_ok ?w" using w(1) by (simp add: dw_ok_def dw_len_def)
  have inw: "dw_inb ?w i" using i dw_end_eq [OF w(1)] by (simp add: dw_inb_def dw_len_def)
  have sl: "dw_slot ?w i = m" using slot_fresh [OF ok, of m] w(2) m i' by simp
  have ld: "load ?h (Some a) = Inr (h ! a)" using a by (simp add: load_def nth_append)
  show ?thesis
    using seeded_Suc [OF m, of "length h"]
    by (simp add: seed_game_def s dw_get_eq [OF ok inw] dw_at_def sl copy_game_def ld copy_same
        dw_set_eq [OF ok inw] seed_inv_def mi replicate_append_same)
qed

lemma seed_all:
  assumes w: "dw_ok w" "dw_start w = 0" and a: "a < length h"
  shows "for_lt (dw_first w) (dw_end w) (seed_game G (Some a)) (w, h) =
         Inr (w\<lparr>dw_data := seeded (dw_data w) (length h) (length (dw_data w))\<rparr>,
              h @ replicate (length (dw_data w)) (h ! a))"
proof -
  have e: "dw_end w = dw_first w + int (length (dw_data w))"
    using dw_end_eq [OF w(1)] by (simp add: dw_len_def)
  have "\<exists>st. for_lt (dw_first w) (dw_end w) (seed_game G (Some a)) (w, h) = Inr st \<and>
             seed_inv w h a (dw_end w) st"
    by (rule for_lt_invariant [where I = "seed_inv w h a"])
      (use seed_step [OF w a] in \<open>auto simp: seed_inv_def seeded_0 e\<close>)
  then show ?thesis by (auto simp: seed_inv_def e)
qed

lemma games_ok_seeded:
  assumes "length ds = n"
  shows "games_ok (seeded ds (length h) n) (h @ replicate n g)"
proof -
  have "map fd_game (seeded ds (length h) n) = map (\<lambda>j. Some (length h + j)) [0..<n]"
    using assms by (auto intro!: nth_equalityI simp: seeded_def)
  moreover have "distinct (map (\<lambda>j. Some (length h + j)) [0..<n])"
    by (simp add: distinct_map inj_on_def)
  ultimately have "distinct (map fd_game (seeded ds (length h) n))" by simp
  moreover have "\<forall>d \<in> set (seeded ds (length h) n). \<exists>a < length (h @ replicate n g). fd_game d = Some a"
    using assms by (auto simp: seeded_def)
  ultimately show ?thesis unfolding games_ok_def by blast
qed

section \<open>\<open>Start\<close>\<close>

lemma start_ok:
  assumes a: "fd_game d = Some a" "a < length (up_heap u)"
    and n: "0 \<le> ep_max_frames (up_params u)" "f + ep_max_frames (up_params u) < max_i32"
      "ep_max_frames (up_params u) < max_i32"
    and f: "- 2147483648 \<le> f"
  shows "\<exists>w h. let u' = u\<lparr>up_window := w, up_heap := h, up_local := f, up_global := f, up_dirty := f + 1\<rparr> in
           start G f d u = Inr u' \<and> dw_first w = f \<and> dw_len w = ep_max_frames (up_params u) + 1 \<and>
           settled G (history0 f (known_engines (fd_info d)) (up_heap u ! a) False) u'"
proof -
  define n where "n = ep_max_frames (up_params u) + 1"
  define w0 :: "'e frame_data data_window" where
    "w0 = \<lparr>dw_first = f, dw_start = 0, dw_data = replicate (nat n) zero_frame_data\<rparr>"
  have new: "new_data_window zero_frame_data (i64 n) f = Inr w0"
    using n by (simp add: new_data_window_def w0_def n_def)
  have ok0: "dw_ok w0" using n f by (simp add: w0_def dw_ok_def dw_len_def n_def in_i32_def)
  have len0: "dw_len w0 = n" using n by (simp add: w0_def dw_len_def n_def)
  have in0: "dw_inb w0 f" using n len0 by (simp add: dw_inb_def w0_def n_def)
  define w1 where "w1 = dw_put w0 f d"
  have set1: "dw_set w0 f d = Inr w1" using ok0 in0 by (simp add: dw_set_put w1_def)
  have ok1: "dw_ok w1" "dw_start w1 = 0" "dw_first w1 = f" "dw_len w1 = n"
    using ok0 len0 by (simp_all add: w1_def) (simp_all add: w0_def)
  have ln: "length (dw_data w1) = nat n" using ok1(4) by (simp add: dw_len_def)
  have at1: "dw_data w1 ! 0 = d"
  proof -
    have "dw_slot w0 f = 0" using slot_fresh [OF ok0, of 0] n by (simp add: w0_def n_def)
    moreover have "0 < length (dw_data w0)" using n by (simp add: w0_def n_def)
    ultimately show ?thesis by (simp add: w1_def dw_put_data)
  qed
  define w where "w = w1\<lparr>dw_data := seeded (dw_data w1) (length (up_heap u)) (nat n)\<rparr>"
  define h where "h = up_heap u @ replicate (nat n) (up_heap u ! a)"
  have seed: "for_lt (dw_first w1) (dw_end w1) (seed_game G (fd_game d)) (w1, up_heap u) = Inr (w, h)"
    using seed_all [OF ok1(1,2) a(2)] by (simp add: a(1) w_def h_def ln)
  define u' where "u' = u\<lparr>up_window := w, up_heap := h, up_local := f, up_global := f, up_dirty := f + 1\<rparr>"
  have run: "start G f d u = Inr u'"
    using new set1 seed n f by (simp add: start_def u'_def n_def)
  have wf: "dw_first w = f" "dw_len w = n" "dw_ok w" "dw_start w = 0"
    using ok1 by (auto simp: w_def dw_len_def dw_ok_def)
  have win: "win_ok u'"
    using wf games_ok_seeded [OF ln, of "up_heap u"] by (simp add: win_ok_def u'_def w_def h_def)
  have pos: "0 < nat n" using n by (simp add: n_def)
  have fd: "fd_at u' f = d\<lparr>fd_game := Some (length (up_heap u))\<rparr>"
    using slot_fresh [OF wf(3,4), of 0] seeded_nth [of 0 "dw_data w1" "length (up_heap u)"] pos ln at1 wf
    by (simp add: fd_at_def dw_at_def u'_def w_def)
  have gm: "game_at u' f = up_heap u ! a" using pos
    by (simp add: game_at_def fd) (simp add: u'_def h_def nth_append)
  have en: "engines_at u' f = known_engines (fd_info d)" by (simp add: engines_at_def fd)
  have cl: "clean G (history0 f (known_engines (fd_info d)) (up_heap u ! a) False) u' (f + 1)"
  proof (unfold clean_def, intro allI impI)
    fix k assume "win_start u' \<le> k \<and> k < f + 1"
    then have k: "k = f" using wf by (simp add: u'_def)
    show "(engines_at u' k, game_at u' k) =
        state_at G (history0 f (known_engines (fd_info d)) (up_heap u ! a) False) k"
      by (simp only: k gm en) (simp add: state_at_def history0_def)
  qed
  have "settled G (history0 f (known_engines (fd_info d)) (up_heap u ! a) False) u'"
    using win cl wf n
    by (auto simp: settled_def upd_inv_def upd_shape_def bundles_match_def history_ok_def history0_def
        u'_def n_def nonneg_ids_def)
  then show ?thesis using run wf by (auto simp: u'_def Let_def n_def)
qed

section \<open>\<open>Bootstrap\<close>\<close>

lemma games_ok_two:
  assumes "length ds = n" and "2 \<le> n"
    and "fd_game d0 = Some (length h + n)" and "fd_game d1 = Some (length h + Suc n)"
  shows "games_ok ((seeded ds (length h) n)[0 := d0, 1 := d1]) (h @ replicate n g @ [g, g])"
proof -
  let ?ds = "(seeded ds (length h) n)[0 := d0, 1 := d1]"
  define p where "p j = (if j = 0 then length h + n else if j = 1 then length h + Suc n else length h + j)" for j
  have eq: "map fd_game ?ds = map (\<lambda>j. Some (p j)) [0..<n]"
  proof (rule nth_equalityI)
    fix i assume "i < length (map fd_game ?ds)"
    then have "i < n" using assms(1) by simp
    then show "map fd_game ?ds ! i = map (\<lambda>j. Some (p j)) [0..<n] ! i"
      using assms by (simp add: nth_list_update p_def) (simp add: seeded_def)
  qed (simp add: assms(1))
  have "inj_on p {0..<n}" by (auto simp: inj_on_def p_def split: if_splits)
  then have "distinct (map fd_game ?ds)" unfolding eq by (auto simp: distinct_map inj_on_def)
  moreover have "\<forall>x \<in> set (map fd_game ?ds). \<exists>a < length h + n + 2. x = Some a"
    unfolding eq by (auto simp: p_def)
  ultimately show ?thesis unfolding games_ok_def by auto
qed

lemma bootstrap_ok:
  assumes a: "bf_game b = Some a" "a < length (up_heap u)"
    and n: "1 \<le> ep_max_frames (up_params u)" "bf_frame b + ep_max_frames (up_params u) + 2 \<le> max_i32"
      "ep_max_frames (up_params u) < max_i32"
    and f: "- 2147483648 \<le> bf_frame b"
  shows "\<exists>w h. let u' = u\<lparr>up_window := w, up_heap := h, up_skip := -1, up_local := bf_frame b + 1,
                          up_global := bf_frame b + 1, up_dirty := bf_frame b + 2\<rparr> in
           bootstrap G b u = Inr u' \<and> dw_first w = bf_frame b \<and> dw_len w = ep_max_frames (up_params u) + 1 \<and>
           settled G (history0 (bf_frame b) (known_engines (bf_info b)) (up_heap u ! a) True) u'"
proof -
  define n where "n = ep_max_frames (up_params u) + 1"
  let ?f = "bf_frame b" and ?g = "up_heap u ! a" and ?L = "length (up_heap u)"
  define w0 :: "'e frame_data data_window" where
    "w0 = \<lparr>dw_first = ?f, dw_start = 0, dw_data = replicate (nat n) zero_frame_data\<rparr>"
  have new: "new_data_window zero_frame_data (i64 n) ?f = Inr w0"
    using n by (simp add: new_data_window_def w0_def n_def)
  have ok0: "dw_ok w0" using n f by (simp add: w0_def dw_ok_def dw_len_def n_def in_i32_def)
  have w0s: "dw_start w0 = 0" "dw_first w0 = ?f" "length (dw_data w0) = nat n" by (simp_all add: w0_def)
  define w1 where "w1 = w0\<lparr>dw_data := seeded (dw_data w0) ?L (nat n)\<rparr>"
  define h where "h = up_heap u @ replicate (nat n) ?g"
  have seed: "for_lt (dw_first w0) (dw_end w0) (seed_game G (bf_game b)) (w0, up_heap u) = Inr (w1, h)"
    using seed_all [OF ok0 w0s(1) a(2)] by (simp add: a(1) w1_def h_def w0s)
  have ok1: "dw_ok w1" "dw_start w1 = 0" "dw_first w1 = ?f" "dw_len w1 = n"
    using ok0 w0s n by (auto simp: w1_def dw_ok_def dw_len_def n_def)
  have c1: "copy_game G h (Some a) = Inr (h @ [?g], Some (?L + nat n))"
    using a(2) by (simp add: copy_game_def load_def h_def nth_append copy_same)
  have c2: "copy_game G (h @ [?g]) (Some a) = Inr (h @ [?g, ?g], Some (?L + Suc (nat n)))"
    using a(2) by (simp add: copy_game_def load_def h_def nth_append copy_same)
  define d0 :: "'e frame_data" where
    "d0 = \<lparr>fd_info = bf_info b, fd_game = Some (?L + nat n), fd_bundle = bootstrap_bundle (bf_info b)\<rparr>"
  define d1 :: "'e frame_data" where
    "d1 = \<lparr>fd_info = bf_info b, fd_game = Some (?L + Suc (nat n)), fd_bundle = Some fmempty\<rparr>"
  have in1: "dw_inb w1 ?f" "dw_inb w1 (?f + 1)" using ok1 n by (auto simp: dw_inb_def n_def)
  have ln1: "length (dw_data w1) = nat n" using ok1(4) by (simp add: dw_len_def)
  have sl: "dw_slot w1 ?f = 0" "dw_slot w1 (?f + 1) = 1"
    using slot_fresh [OF ok1(1,2), of 0] slot_fresh [OF ok1(1,2), of 1] ln1 n ok1(3)
    by (auto simp: n_def)
  define w where "w = dw_put (dw_put w1 ?f d0) (?f + 1) d1"
  have sets: "dw_set w1 ?f d0 = Inr (dw_put w1 ?f d0)" "dw_set (dw_put w1 ?f d0) (?f + 1) d1 = Inr w"
    using ok1 in1 by (simp_all add: dw_set_put w_def)
  define u' where "u' = u\<lparr>up_window := w, up_heap := h @ [?g, ?g], up_skip := -1, up_local := ?f + 1,
                          up_global := ?f + 1, up_dirty := ?f + 2\<rparr>"
  have bnd: "i32 (?f + 1) = ?f + 1" "i32 (?f + 2) = ?f + 2" "i64 n = n" using n f by (simp_all add: n_def)
  have run: "bootstrap G b u = Inr u'"
    using new seed c1 c2 sets bnd a(1)
    by (simp add: bootstrap_def u'_def d0_def d1_def n_def)
  have wf: "dw_first w = ?f" "dw_len w = n" "dw_ok w" using ok1 by (simp_all add: w_def)
  have data: "dw_data w = (seeded (dw_data w0) ?L (nat n))[0 := d0, 1 := d1]"
    using sl by (simp add: w_def dw_put_data w1_def)
  have win: "win_ok u'"
    using games_ok_two [OF w0s(3), of d0 "up_heap u" d1 ?g] n wf
    by (simp add: win_ok_def u'_def data h_def d0_def d1_def n_def)
  have fd: "fd_at u' ?f = d0" "fd_at u' (?f + 1) = d1"
    using ok1 in1 by (simp_all add: fd_at_def u'_def w_def dw_at_put)
  have gm: "game_at u' ?f = ?g" "game_at u' (?f + 1) = ?g"
    unfolding game_at_def fd by (simp_all add: d0_def d1_def u'_def h_def nth_append)
  have en: "engines_at u' ?f = known_engines (bf_info b)" "engines_at u' (?f + 1) = known_engines (bf_info b)"
    by (simp_all add: engines_at_def fd d0_def d1_def)
  let ?s = "history0 ?f (known_engines (bf_info b)) ?g True :: ('e, 'g) history"
  have cl: "clean G ?s u' (?f + 2)"
  proof (unfold clean_def, intro allI impI)
    fix k assume "win_start u' \<le> k \<and> k < ?f + 2"
    then consider "k = ?f" | "k = ?f + 1" using wf by (fastforce simp: u'_def)
    then show "(engines_at u' k, game_at u' k) = state_at G ?s k"
      by cases (simp_all only: gm en, simp_all add: state_at_def history0_def)
  qed
  have bm: "bundles_match ?s u' (up_global u' + 1)"
  proof (unfold bundles_match_def, intro allI impI)
    fix k assume "win_start u' < k \<and> k < up_global u' + 1"
    then have k: "k = ?f + 1" using wf by (fastforce simp: u'_def)
    show "fd_bundle (fd_at u' k) = Some (hi_bundles ?s k)"
      by (simp only: k fd) (simp add: d1_def history0_def)
  qed
  have flds: "up_global u' = ?f + 1" "up_dirty u' = ?f + 2" "win_start u' = ?f" "win_len u' = n"
    using wf by (simp_all add: u'_def)
  have shape: "upd_shape u'" using win n wf(2,3) by (simp add: upd_shape_def flds n_def)
  have "history_ok ?s (up_global u')" by (simp add: history_ok_def history0_def flds nonneg_ids_def)
  then have "upd_inv G ?s u'" unfolding upd_inv_def
    using shape cl bm by (simp add: flds) (simp add: history0_def)
  then have "settled G ?s u'" by (auto simp: settled_def flds history0_def)
  then show ?thesis using run wf by (auto simp: u'_def Let_def n_def)
qed

end

end
