(* ===== verification/Updater_Agreement.thy ===== *)
theory Updater_Agreement
  imports Updater_Start
begin

text \<open>
  Engines that receive the same events agree: two updaters whose accepted bundles come from the
  same senders, in whatever order and grouping they arrived, have the same engines and the same
  game on every frame that both have made final, also when one of them was bootstrapped from a
  final frame of the other.
\<close>

section \<open>What one frame depends on\<close>

text \<open>Engine events come from the host only, and the host never drops itself.\<close>

definition host_only :: "engine_id \<Rightarrow> 'e bundle_map \<Rightarrow> bool" where
  "host_only h b \<longleftrightarrow> (\<forall>i a. fmlookup b i = Some a \<longrightarrow>
     (if i = h then EngineDropped h \<notin> set (ae_engine a) else ae_engine a = []))"

definition host_events :: "engine_id \<Rightarrow> 'e bundle_map \<Rightarrow> engine_event list" where
  "host_events h b = ae_engine (bundle_get (Some b) h)"

lemma fold_only_one:
  assumes "distinct ks" and "\<And>k. k \<in> set ks \<Longrightarrow> k \<noteq> h \<Longrightarrow> F k = id"
  shows "fold F ks m = (if h \<in> set ks then F h m else m)"
  using assms
proof (induction ks arbitrary: m)
  case (Cons k ks)
  then show ?case by (cases "k = h") auto
qed simp

lemma bundle_get_lookup:
  "bundle_get (Some b) k = (case fmlookup b k of Some a \<Rightarrow> a | None \<Rightarrow> no_events)"
  by (simp add: bundle_get_def)

lemma frame_engines_host:
  assumes "host_only h b"
  shows "frame_engines b m = fold event_on_map (host_events h b) m"
proof -
  have "F = id" if "k \<in> fmdom' b" "k \<noteq> h" "F = fold event_on_map (ae_engine (bundle_get (Some b) k))" for k F
    using that assms by (auto simp: host_only_def bundle_get_lookup fmlookup_dom'_iff)
  then have "frame_engines b m = (if h \<in> fmdom' b then fold event_on_map (host_events h b) m else m)"
    unfolding frame_engines_def host_events_def
    by (subst fold_only_one [where h = h]) auto
  moreover have "h \<notin> fmdom' b \<Longrightarrow> host_events h b = []"
    by (simp add: host_events_def bundle_get_lookup no_events_def fmdom'_notD)
  ultimately show ?thesis by auto
qed

lemma fold_event_keeps:
  "h \<in> fmdom' m \<Longrightarrow> EngineDropped h \<notin> set es \<Longrightarrow> h \<in> fmdom' (fold event_on_map es m)"
proof (induction es arbitrary: m)
  case (Cons e es)
  then show ?case by (cases e) auto
qed simp

lemma frame_engines_keeps_host:
  assumes "host_only h b" and "h \<in> fmdom' m"
  shows "h \<in> fmdom' (frame_engines b m)"
proof -
  have "EngineDropped h \<notin> set (host_events h b)"
    using assms(1) by (auto simp: host_events_def host_only_def bundle_get_lookup no_events_def
        split: option.splits)
  then show ?thesis using assms by (simp add: frame_engines_host fold_event_keeps)
qed

lemma fold_filter: "fold (\<lambda>k g. if P k then F k g else g) ks g = fold F (filter P ks) g"
  by (induction ks arbitrary: g) auto

lemma frame_game_members:
  assumes "fmdom' m \<subseteq> fmdom' b"
  shows "frame_game G b m g =
         g_think G (fold (\<lambda>k. fold (g_apply G) (ae_game (bundle_get (Some b) k))) (keys m) g)"
proof -
  have "filter (\<lambda>k. k \<in> fmdom' m) (keys b) = keys m"
    by (rule sorted_distinct_set_unique) (use assms in \<open>auto simp: sorted_wrt_filter\<close>)
  then show ?thesis by (simp add: frame_game_def fold_filter)
qed

lemma fmsubset_lookup: "b \<subseteq>\<^sub>f c \<Longrightarrow> fmlookup b i = Some x \<Longrightarrow> fmlookup c i = Some x"
  by (metis domI fmsubset.rep_eq map_le_def)

text \<open>A complete frame is determined by the events of the engines that are known on it.\<close>

lemma frame_step_agree:
  assumes h: "host_only h b" "host_only h b'" "h \<in> fmdom' (fst s)"
    and m: "fmdom' (fst (frame_step G b s)) \<subseteq> fmdom' b" "fmdom' (fst (frame_step G b' s)) \<subseteq> fmdom' b'"
    and sub: "b \<subseteq>\<^sub>f c" "b' \<subseteq>\<^sub>f c"
  shows "frame_step G b s = frame_step G b' s"
proof -
  have lk: "fmlookup b i = fmlookup b' i" if "i \<in> fmdom' b" "i \<in> fmdom' b'" for i
  proof -
    from that obtain x y where x: "fmlookup b i = Some x" and y: "fmlookup b' i = Some y"
      by (auto simp: fmlookup_dom'_iff)
    with fmsubset_lookup [OF sub(1) x] fmsubset_lookup [OF sub(2) y] show ?thesis by simp
  qed
  have eng: "fst (frame_step G x s) = frame_engines x (fst s)" for x
    by (simp add: frame_step_def Let_def)
  have "h \<in> fmdom' b" "h \<in> fmdom' b'"
    using frame_engines_keeps_host [OF h(1,3)] frame_engines_keeps_host [OF h(2,3)] m by (auto simp: eng)
  then have "host_events h b = host_events h b'" by (simp add: host_events_def bundle_get_lookup lk)
  then have e: "frame_engines b (fst s) = frame_engines b' (fst s)"
    by (simp add: frame_engines_host [OF h(1)] frame_engines_host [OF h(2)])
  have "bundle_get (Some b) k = bundle_get (Some b') k" if "k \<in> fmdom' (frame_engines b (fst s))" for k
  proof -
    have "k \<in> fmdom' b" "k \<in> fmdom' b'" using that m e by (auto simp: eng)
    then show ?thesis by (simp add: bundle_get_lookup lk)
  qed
  then have "fold (\<lambda>k. fold (g_apply G) (ae_game (bundle_get (Some b) k))) (keys (frame_engines b (fst s))) g =
             fold (\<lambda>k. fold (g_apply G) (ae_game (bundle_get (Some b') k))) (keys (frame_engines b (fst s))) g" for g
    by (intro fold_cong) auto
  then have "frame_game G b (frame_engines b (fst s)) (snd s) =
             frame_game G b' (frame_engines b (fst s)) (snd s)"
    using m by (simp only: eng e frame_game_members)
  with e show ?thesis by (simp add: frame_step_def Let_def)
qed

section \<open>Histories\<close>

text \<open>Every bundle that was accepted is part of what was sent for its frame.\<close>

definition follows :: "(int \<Rightarrow> 'e bundle_map) \<Rightarrow> ('e, 'g) history \<Rightarrow> bool" where
  "follows sent s \<longleftrightarrow> (\<forall>f. hi_bundles s f \<subseteq>\<^sub>f sent f)"

definition hosted :: "engine_id \<Rightarrow> (int \<Rightarrow> 'e bundle_map) \<Rightarrow> ('e, 'g) history \<Rightarrow> bool" where
  "hosted h sent s \<longleftrightarrow> follows sent s \<and> (\<forall>f. host_only h (sent f)) \<and> h \<in> fmdom' (hi_engines s) \<and>
     (hi_pending s \<longrightarrow> hi_bundles s (hi_base s + 1) = fmempty)"

lemma host_only_sub: "b \<subseteq>\<^sub>f c \<Longrightarrow> host_only h c \<Longrightarrow> host_only h b"
  using fmsubset_lookup unfolding host_only_def by metis

lemma hostedD:
  assumes "hosted h sent s"
  shows "hi_bundles s f \<subseteq>\<^sub>f sent f" and "host_only h (hi_bundles s f)" and "h \<in> fmdom' (hi_engines s)"
    and "hi_pending s \<Longrightarrow> hi_bundles s (hi_base s + 1) = fmempty"
  using assms host_only_sub [of "hi_bundles s f" "sent f" h] by (auto simp: hosted_def follows_def)

lemma host_stays:
  assumes "hosted h sent s"
  shows "h \<in> fmdom' (fst (replay G s n))"
proof (induction n)
  case 0
  then show ?case using hostedD(3) [OF assms] by simp
next
  case (Suc n)
  then show ?case
    using frame_engines_keeps_host [OF hostedD(2) [OF assms]] hostedD(3) [OF assms]
    by (simp add: frame_step_def Let_def del: of_nat_Suc)
qed

lemma complete_step:
  assumes "hosted h sent s" and "hi_base s < f" and "complete G s f"
  shows "state_at G s f = frame_step G (hi_bundles s f) (state_at G s (f - 1))"
    and "fmdom' (fst (frame_step G (hi_bundles s f) (state_at G s (f - 1)))) \<subseteq> fmdom' (hi_bundles s f)"
proof -
  have "f \<noteq> hi_base s + 1" if p: "hi_pending s"
  proof
    assume f: "f = hi_base s + 1"
    then have "h \<in> fmdom' (hi_bundles s f)"
      using assms(3) hostedD(3) [OF assms(1)] by (auto simp: complete_def state_at_pending p)
    then show False using hostedD(4) [OF assms(1) p] f by simp
  qed
  with assms(2) show eq: "state_at G s f = frame_step G (hi_bundles s f) (state_at G s (f - 1))"
    by (rule state_at_step)
  then show "fmdom' (fst (frame_step G (hi_bundles s f) (state_at G s (f - 1)))) \<subseteq> fmdom' (hi_bundles s f)"
    using assms(3) by (simp add: complete_def)
qed

lemma histories_agree:
  assumes s: "hosted h sent s" and t: "hosted h sent t"
    and base: "hi_base s \<le> a" "hi_base t \<le> a" "state_at G s a = state_at G t a"
    and c: "\<And>k. a < k \<Longrightarrow> k \<le> f \<Longrightarrow> complete G s k \<and> complete G t k"
    and f: "a \<le> f"
  shows "state_at G s f = state_at G t f"
  using f c
proof (induction f rule: int_ge_induct)
  case base
  then show ?case using assms(5) by simp
next
  case (step f)
  have prev: "state_at G s f = state_at G t f" by (rule step.IH) (use step.prems in auto)
  have "complete G s (f + 1)" "complete G t (f + 1)" using step by auto
  note cs = complete_step [OF s _ this(1)] and ct = complete_step [OF t _ this(2)]
  have lt: "hi_base s < f + 1" "hi_base t < f + 1" using base step.hyps by auto
  have "h \<in> fmdom' (fst (state_at G s f))" unfolding state_at_def using s by (rule host_stays)
  then have "frame_step G (hi_bundles s (f + 1)) (state_at G s f) =
             frame_step G (hi_bundles t (f + 1)) (state_at G s f)"
    using cs(2) [OF lt(1)] ct(2) [OF lt(2)] hostedD(1,2) [OF s] hostedD(1,2) [OF t] prev
    by (intro frame_step_agree [where h = h and c = "sent (f + 1)"]) auto
  then show ?case using cs(1) [OF lt(1)] ct(1) [OF lt(2)] prev by simp
qed

section \<open>Updaters\<close>

lemma settled_view:
  assumes "settled G s u" and "win_start u \<le> f" and "f \<le> up_global u"
  shows "(engines_at u f, game_at u f) = state_at G s f"
  using upd_invD(3) [OF settledD(1) [OF assms(1)]] settledD(2) [OF assms(1)] assms(2,3)
  by (simp add: clean_def)

lemma settled_order:
  assumes "settled G s u"
  shows "hi_base s \<le> win_start u" and "win_start u \<le> up_global u"
  using upd_invD(2) [OF settledD(1) [OF assms]] upd_shapeD(3) [OF upd_invD(1) [OF settledD(1) [OF assms]]]
  by auto

lemma settled_agree:
  assumes u: "settled G s u" and v: "settled G t v"
    and s: "hosted h sent s" and t: "hosted h sent t"
    and base: "hi_base s \<le> hi_base t" "hi_base t \<le> win_start u"
      "state_at G s (hi_base t) = (hi_engines t, hi_game t)"
    and f: "hi_base t \<le> f" "f \<le> win_start u" "f \<le> win_start v"
  shows "state_at G s f = state_at G t f"
proof (rule histories_agree [OF s t base(1) order_refl])
  show "state_at G s (hi_base t) = state_at G t (hi_base t)" by (simp add: base(3) state_at_base)
  show "complete G s k \<and> complete G t k" if "hi_base t < k" "k \<le> f" for k
    using that f base settledD(3) [OF u, of k] settledD(3) [OF v, of k] by auto
qed (rule f(1))

end
