(* ===== verification/Updater_Runs.thy ===== *)
theory Updater_Runs
  imports Updater_Agreement
begin

text \<open>
  Whole runs of the updater: \<open>Start\<close> or \<open>Bootstrap\<close> and then any sequence of rounds of
  \<open>routine\<close>. Each run state is related to the history it stands for; every input within the
  bounds the code leaves to its callers is handled without a panic and keeps the relation.
\<close>

section \<open>Inputs\<close>

text \<open>The history and the conditions of a local bundle, by the value of \<open>skip_to_frame\<close>.\<close>

definition joined_history :: "int \<Rightarrow> ('e, 'g) updater \<Rightarrow> ('e, 'g) history \<Rightarrow> ('e, 'g) history" where
  "joined_history f u s = (if 0 < up_skip u then join_history (ep_id (up_params u)) (up_skip u) f s else s)"

definition ignored :: "'e frame_bundle \<Rightarrow> ('e, 'g) updater \<Rightarrow> bool" where
  "ignored lb u \<longleftrightarrow> up_skip u = -1 \<or> fb_frame lb < up_skip u"

definition join_ok :: "int \<Rightarrow> ('e, 'g) history \<Rightarrow> ('e, 'g) updater \<Rightarrow> bool" where
  "join_ok f s u \<longleftrightarrow> win_start u < up_skip u \<and> f \<le> up_global u + 1 \<and> 0 \<le> eid (ep_id (up_params u)) \<and>
     (\<forall>k. up_skip u \<le> k \<and> k < f \<longrightarrow> ep_id (up_params u) \<notin> fmdom' (hi_bundles s k)) \<and>
     (hi_pending s \<longrightarrow> hi_base s + 1 < up_skip u)"

definition fast_ok :: "('e, 'g) game_ops \<Rightarrow> int \<Rightarrow> ('e, 'g) history \<Rightarrow> ('e, 'g) updater \<Rightarrow> bool" where
  "fast_ok G f s u \<longleftrightarrow> (\<forall>r \<in> set (up_fast u). rq_frame r \<noteq> f) \<or> up_global u \<le> f \<or> \<not> complete G s (f + 1)"

definition local_ok :: "('e, 'g) game_ops \<Rightarrow> 'e frame_bundle \<Rightarrow> ('e, 'g) history \<Rightarrow> ('e, 'g) updater \<Rightarrow> bool" where
  "local_ok G lb s u \<longleftrightarrow> ignored lb u \<or>
     (let f = fb_frame lb; b = map_of_nilable (fb_bundle lb); s1 = joined_history f u s in
      0 \<le> up_skip u \<and> (0 < up_skip u \<longrightarrow> join_ok f s u) \<and>
      fits s1 (win_start u) (win_len u) f (fb_bundle lb) \<and> fast_ok G f (add_bundle f b s1) u)"

definition accept_local :: "'e frame_bundle \<Rightarrow> ('e, 'g) updater \<Rightarrow> ('e, 'g) history \<Rightarrow> ('e, 'g) history" where
  "accept_local lb u s =
     (if ignored lb u then s
      else add_bundle (fb_frame lb) (map_of_nilable (fb_bundle lb)) (joined_history (fb_frame lb) u s))"

fun input_ok :: "('e, 'g) game_ops \<Rightarrow> 'e upd_in \<Rightarrow> ('e, 'g) history \<Rightarrow> ('e, 'g) updater \<Rightarrow> bool" where
  "input_ok G (LocalBundle lb) s u = local_ok G lb s u"
| "input_ok G (RemoteBundles rbs) s u = fits_all s (win_start u) (win_len u) rbs"
| "input_ok G (RequestState r) s u =
     (rq_final r \<or> 0 \<le> rq_frame r \<or> win_start u \<le> up_local u)"
| "input_ok G InfoRequest s u = True"
| "input_ok G ShutdownSignal s u = up_shutdown u"

fun accept_input :: "'e upd_in \<Rightarrow> ('e, 'g) updater \<Rightarrow> ('e, 'g) history \<Rightarrow> ('e, 'g) history" where
  "accept_input (LocalBundle lb) u s = accept_local lb u s"
| "accept_input (RemoteBundles rbs) u s = fold (accept (win_start u)) rbs s"
| "accept_input _ u s = s"

section \<open>The run invariant\<close>

definition run_inv :: "('e, 'g) game_ops \<Rightarrow> ('e, 'g) history \<Rightarrow> ('e, 'g) updater \<Rightarrow> bool" where
  "run_inv G s u \<longleftrightarrow> settled G s u \<and> 0 \<le> hi_base s \<and> up_local u \<le> up_global u"

lemma settled_frame [simp]:
  "settled G s (u\<lparr>up_out := o1\<rparr>) = settled G s u"
  "settled G s (u\<lparr>up_fast := q\<rparr>) = settled G s u"
  "settled G s (u\<lparr>up_final := q\<rparr>) = settled G s u"
  "settled G s (u\<lparr>up_fast := q, up_out := o1\<rparr>) = settled G s u"
  by (simp_all add: settled_def)

lemma maximal_frame [simp]:
  "maximal G s (u\<lparr>up_out := o1\<rparr>) = maximal G s u"
  "maximal G s (u\<lparr>up_fast := q\<rparr>) = maximal G s u"
  by (simp_all add: maximal_def)

lemma run_invD:
  assumes "run_inv G s u"
  shows "settled G s u" and "0 \<le> hi_base s" and "up_local u \<le> up_global u" and "0 \<le> win_start u"
    and "win_ok u" and "up_global u < win_start u + win_len u" and "win_start u \<le> up_global u"
  using assms settled_order [of G s u] upd_shapeD(1,4) [OF upd_invD(1) [OF settledD(1)], of G s u]
  by (auto simp: run_inv_def)

lemma joined_history_fields [simp]:
  "hi_base (joined_history f u s) = hi_base s" "hi_engines (joined_history f u s) = hi_engines s"
  "hi_game (joined_history f u s) = hi_game s"
proof -
  have "hi_base (fold (\<lambda>k. add_bundle k m) ks s) = hi_base s \<and>
    hi_engines (fold (\<lambda>k. add_bundle k m) ks s) = hi_engines s \<and>
    hi_game (fold (\<lambda>k. add_bundle k m) ks s) = hi_game s" for ks m
    by (induction ks arbitrary: s) auto
  then show "hi_base (joined_history f u s) = hi_base s" "hi_engines (joined_history f u s) = hi_engines s"
    "hi_game (joined_history f u s) = hi_game s"
    by (simp_all add: joined_history_def join_history_def)
qed

lemma accept_local_base [simp]: "hi_base (accept_local lb u s) = hi_base s"
  by (simp add: accept_local_def joined_history_def)

lemma accept_input_base [simp]: "hi_base (accept_input i u s) = hi_base s"
  by (cases i) auto

lemma accept_input_engines [simp]: "hi_engines (accept_input i u s) = hi_engines s"
proof (cases i)
  case (RemoteBundles rbs)
  have "hi_engines (fold (accept lo) rbs s) = hi_engines s" for lo
    by (induction rbs arbitrary: s) (auto simp: accept_def)
  then show ?thesis using RemoteBundles by simp
qed (auto simp: accept_local_def)

text \<open>All channels on which an answer is due or was given.\<close>

definition ledger :: "('e, 'g) updater \<Rightarrow> nat multiset" where
  "ledger u = mset (map rq_chan (up_final u)) + mset (map rq_chan (up_fast u)) + mset (resp_chans (up_out u))"

lemma fast_answered_ledger: "ledger (fast_answered u) = ledger u"
proof -
  define sw where "sw = sweep (\<lambda>r. rq_frame r = up_local u) 0 (up_fast u)"
  have "mset (fst sw) + mset (snd sw) = mset (up_fast u)" unfolding sw_def by (rule sweep_mset)
  then have "image_mset rq_chan (mset (up_fast u)) = image_mset rq_chan (mset (fst sw)) + image_mset rq_chan (mset (snd sw))"
    by (metis image_mset_union)
  then show ?thesis by (simp add: ledger_def fast_answered_def Let_def sw_def [symmetric])
qed

lemma advanced_ledger:
  assumes "advanced G s u v"
  shows "ledger v = ledger u"
proof -
  obtain out where "up_out v = up_out u @ out"
      "mset (map rq_chan (up_final u)) = mset (map rq_chan (up_final v)) + mset (resp_chans out)"
      "up_fast v = up_fast u"
    using assms unfolding advanced_def by blast
  then show ?thesis by (simp add: ledger_def)
qed

lemma fast_answered_simps [simp]:
  "up_local (fast_answered u) = up_local u" "up_global (fast_answered u) = up_global u"
  "up_window (fast_answered u) = up_window u" "up_heap (fast_answered u) = up_heap u"
  "up_final (fast_answered u) = up_final u" "settled G s (fast_answered u) = settled G s u"
  "maximal G s (fast_answered u) = maximal G s u" "up_params (fast_answered u) = up_params u"
  "up_skip (fast_answered u) = up_skip u" "up_shutdown (fast_answered u) = up_shutdown u"
  by (simp_all add: fast_answered_def Let_def)

section \<open>One round\<close>

lemma local_absorbed_simps [simp]:
  "up_local (local_absorbed lb u w) = fb_frame lb"
  "up_global (local_absorbed lb u w) = max (up_global u) (fb_frame lb)"
  "up_window (local_absorbed lb u w) = w"
  "up_final (local_absorbed lb u w) = up_final u" "up_fast (local_absorbed lb u w) = up_fast u"
  "up_out (local_absorbed lb u w) = up_out u @ [Broadcast lb]"
  "up_shutdown (local_absorbed lb u w) = up_shutdown u"
  by (simp_all add: local_absorbed_def)

lemma ledger_local_absorbed: "ledger (local_absorbed lb u w) = ledger u"
  by (simp add: ledger_def)

lemma ledger_absorbed: "absorbed u v \<Longrightarrow> ledger v = ledger u"
  by (simp add: ledger_def absorbedD)

lemma resp_chans_skip_outs [simp]: "resp_chans (skip_outs me lo hi) = []"
proof -
  have "resp_chans (map (\<lambda>k. Broadcast (g k)) ks) = []" for ks and g :: "int \<Rightarrow> 'a frame_bundle"
    by (induction ks) auto
  then show ?thesis by (simp add: skip_outs_def)
qed

section \<open>What is sent\<close>

text \<open>
  A message is true when the game it points to, at the moment it is sent, is the one of its
  frame, and when a bootstrap frame carries the engines of its frame.
\<close>

fun true_message :: "('e, 'g) game_ops \<Rightarrow> ('e, 'g) history \<Rightarrow> 'g list \<Rightarrow> 'e upd_out \<Rightarrow> bool" where
  "true_message G s h (Respond c (Some a) f) = (h ! a = snd (state_at G s f))"
| "true_message G s h (BootstrapOut b) =
     ((known_engines (bf_info b), h ! the (bf_game b)) = state_at G s (bf_frame b))"
| "true_message G s h m = True"

definition sends_truth :: "('e, 'g) game_ops \<Rightarrow> ('e, 'g) history \<Rightarrow> ('e, 'g) updater \<Rightarrow> ('e, 'g) updater \<Rightarrow> bool" where
  "sends_truth G s u v \<longleftrightarrow>
     (\<exists>out. up_out v = up_out u @ out \<and> (\<forall>m \<in> set out. true_message G s (up_heap v) m))"

lemma sends_truthI:
  "up_out v = up_out u @ out \<Longrightarrow> (\<And>m. m \<in> set out \<Longrightarrow> true_message G s (up_heap v) m) \<Longrightarrow>
   sends_truth G s u v"
  unfolding sends_truth_def by blast

lemma sends_truth_prefix:
  assumes "sends_truth G s u' v" and "up_out u' = up_out u @ out"
    and "\<And>m h. m \<in> set out \<Longrightarrow> true_message G s h m"
  shows "sends_truth G s u v"
proof -
  obtain out' where "up_out v = up_out u' @ out'" "\<forall>m \<in> set out'. true_message G s (up_heap v) m"
    using assms(1) unfolding sends_truth_def by blast
  with assms(2,3) show ?thesis by (intro sends_truthI [where out = "out @ out'"]) auto
qed

lemma BootstrapOut_mem: "BootstrapOut b \<in> set out \<Longrightarrow> b \<in> set (boot_outs out)"
  by (induction out rule: boot_outs.induct) auto

lemma true_respond:
  assumes "(engines_at u f, game_at u f) = state_at G s f"
  shows "true_message G s (up_heap u) (Respond c (fd_game (fd_at u f)) f)"
proof (cases "fd_game (fd_at u f)")
  case (Some a)
  then have "game_at u f = up_heap u ! a" by (simp add: game_at_def)
  with Some assms [symmetric] show ?thesis by simp
qed simp

lemma advanced_truth:
  assumes "advanced G s u v"
  shows "sends_truth G s u v"
proof -
  obtain out where out: "up_out v = up_out u @ out"
    "boot_outs out = (if up_hosting u then map (boot_of v) [win_start u + 1..win_start v] else [])"
    "\<forall>c p f. Respond c p f \<in> set out \<longrightarrow> win_start u < f \<and> f \<le> win_start v \<and> p = fd_game (fd_at v f)"
    "\<forall>m \<in> set out. (\<exists>b. m = BootstrapOut b) \<or> (\<exists>c p f. m = Respond c p f)"
    using assms unfolding advanced_def by blast
  have le: "win_start v \<le> up_global u"
    using settled_order(2) [OF advancedD(1) [OF assms]] advancedD(5) [OF assms] by simp
  have vw: "(engines_at v f, game_at v f) = state_at G s f" if "win_start u < f" "f \<le> win_start v" for f
    using advancedD(11) [OF assms, of f] that le by simp
  show ?thesis
  proof (rule sends_truthI [OF out(1)])
    fix m assume m: "m \<in> set out"
    then consider b where "m = BootstrapOut b" | c p f where "m = Respond c p f" using out(4) by blast
    then show "true_message G s (up_heap v) m"
    proof cases
      case 1
      then obtain f where f: "b = boot_of v f" "win_start u < f" "f \<le> win_start v"
        using BootstrapOut_mem [of b out] m out(2) by (auto split: if_splits)
      have "(known_engines (bf_info b), up_heap v ! the (bf_game b)) = (engines_at v f, game_at v f)"
        by (simp add: f(1) boot_of_def engines_at_def game_at_def)
      then show ?thesis using vw [OF f(2,3)] by (simp add: 1 f(1) boot_of_def)
    next
      case 2
      then have "win_start u < f" "f \<le> win_start v" "p = fd_game (fd_at v f)" using out(3) m by auto
      then show ?thesis using true_respond [OF vw] 2 by simp
    qed
  qed
qed

lemma fast_answered_truth:
  assumes "inwin u (up_local u) \<or> (\<forall>r \<in> set (up_fast u). rq_frame r \<noteq> up_local u)"
    and "inwin u (up_local u) \<Longrightarrow> (engines_at u (up_local u), game_at u (up_local u)) = state_at G s (up_local u)"
  shows "sends_truth G s u (fast_answered u)"
proof -
  let ?sw = "sweep (\<lambda>r. rq_frame r = up_local u) 0 (up_fast u)"
  have "inwin u (up_local u)" if "fst ?sw \<noteq> []"
    using assms(1) that sweep_none [of "up_fast u" "\<lambda>r. rq_frame r = up_local u" 0] by auto
  then have "true_message G s (up_heap u) m"
    if "m \<in> set (map (\<lambda>r. Respond (rq_chan r) (fd_game (fd_at u (up_local u))) (up_local u)) (fst ?sw))" for m
    using that assms(2) true_respond [of u "up_local u" G s] by (cases "fst ?sw = []") auto
  then show ?thesis by (intro sends_truthI) (auto simp: fast_answered_def Let_def)
qed

lemma sends_truth_trans:
  assumes "sends_truth G s u v" and "sends_truth G s v w" and "up_heap w = up_heap v"
  shows "sends_truth G s u w"
  using assms unfolding sends_truth_def by (metis Un_iff append.assoc set_append)

section \<open>Whom it answers\<close>

text \<open>
  A round without a request answers only requests that wait in one of the two lists, and of the
  requests for final states only those whose frame the window has not reached yet.
\<close>

definition answers_waiting :: "('e, 'g) updater \<Rightarrow> ('e, 'g) updater \<Rightarrow> bool" where
  "answers_waiting u v \<longleftrightarrow>
     clears (win_start u) (win_start v) (up_final u) (up_final v) \<and> set (up_fast v) \<subseteq> set (up_fast u) \<and>
     (\<exists>out. up_out v = up_out u @ out \<and>
        (\<forall>c p f. Respond c p f \<in> set out \<longrightarrow> p \<noteq> None \<and>
           ((\<exists>r \<in> set (up_final u). rq_chan r = c \<and> rq_frame r = f \<and> win_start u < f \<and> f \<le> win_start v) \<or>
            (\<exists>r \<in> set (up_fast u). rq_chan r = c))))"

lemma resp_chans_iff: "c \<in> set (resp_chans out) \<longleftrightarrow> (\<exists>p f. Respond c p f \<in> set out)"
  by (induction out rule: resp_chans.induct) auto

lemma answers_waiting_refl: "answers_waiting u u"
  by (simp add: answers_waiting_def exI [of _ "[]"])

lemma answers_waitingD:
  assumes "answers_waiting u v"
  shows "clears (win_start u) (win_start v) (up_final u) (up_final v)"
    and "set (up_final v) \<subseteq> set (up_final u)" and "set (up_fast v) \<subseteq> set (up_fast u)"
  using assms clears_subset [of "win_start u" "win_start v" "up_final u" "up_final v"] by (auto simp: answers_waiting_def)

lemma answers_waiting_trans:
  assumes "answers_waiting u v" and "answers_waiting v w" and "win_start u \<le> win_start v" and "win_start v \<le> win_start w"
  shows "answers_waiting u w"
proof -
  obtain o1 o2 where o: "up_out v = up_out u @ o1" "up_out w = up_out v @ o2"
    "\<And>c p f. Respond c p f \<in> set o1 \<Longrightarrow> p \<noteq> None \<and>
        ((\<exists>r \<in> set (up_final u). rq_chan r = c \<and> rq_frame r = f \<and> win_start u < f \<and> f \<le> win_start v) \<or>
         (\<exists>r \<in> set (up_fast u). rq_chan r = c))"
    "\<And>c p f. Respond c p f \<in> set o2 \<Longrightarrow> p \<noteq> None \<and>
        ((\<exists>r \<in> set (up_final v). rq_chan r = c \<and> rq_frame r = f \<and> win_start v < f \<and> f \<le> win_start w) \<or>
         (\<exists>r \<in> set (up_fast v). rq_chan r = c))"
    using assms(1,2) unfolding answers_waiting_def by blast
  note d = answers_waitingD [OF assms(1)] answers_waitingD [OF assms(2)]
  have "p \<noteq> None \<and> ((\<exists>r \<in> set (up_final u). rq_chan r = c \<and> rq_frame r = f \<and> win_start u < f \<and> f \<le> win_start w) \<or>
        (\<exists>r \<in> set (up_fast u). rq_chan r = c))" if "Respond c p f \<in> set (o1 @ o2)" for c p f
  proof -
    from that have "Respond c p f \<in> set o1 \<or> Respond c p f \<in> set o2" by auto
    then show ?thesis
    proof
      assume "Respond c p f \<in> set o1"
      from o(3) [OF this] show ?thesis using assms(4) by (meson order_trans)
    next
      assume "Respond c p f \<in> set o2"
      from o(4) [OF this] show ?thesis using d(2,3) assms(3) by (meson order.strict_trans1 subsetD)
    qed
  qed
  then show ?thesis using clears_trans [OF d(1,4)] d o(1,2) unfolding answers_waiting_def
    by (intro conjI exI [of _ "o1 @ o2"]) auto
qed

lemma answers_waiting_prefix:
  assumes "answers_waiting u' v" and "up_out u' = up_out u @ out" and "resp_chans out = []"
    and "up_final u' = up_final u" and "up_fast u' = up_fast u" and "win_start u' = win_start u"
    and "win_start u \<le> win_start v"
  shows "answers_waiting u v"
proof -
  have "Respond c p f \<notin> set out" for c p f using assms(3) resp_chans_iff [of c out] by auto
  then have "answers_waiting u u'" using assms(2-6) by (simp add: answers_waiting_def)
  then show ?thesis using assms(1) by (rule answers_waiting_trans) (simp_all add: assms(6,7))
qed

lemma advanced_waiting:
  assumes "advanced G s u v"
  shows "answers_waiting u v"
proof -
  obtain out where out: "up_out v = up_out u @ out" "clears (win_start u) (win_start v) (up_final u) (up_final v)"
    "\<forall>c p f. Respond c p f \<in> set out \<longrightarrow> win_start u < f \<and> f \<le> win_start v \<and>
           p = fd_game (fd_at v f) \<and> (\<exists>r \<in> set (up_final u). rq_chan r = c \<and> rq_frame r = f)"
    using assms unfolding advanced_def by blast
  show ?thesis
    unfolding answers_waiting_def
  proof (intro conjI exI [of _ out])
    have "fd_game (fd_at v f) \<noteq> None" for f
      using game_ptr [OF upd_shapeD(1) [OF upd_invD(1) [OF settledD(1) [OF advancedD(1) [OF assms]]]], of f] by auto
    then show "\<forall>c p f. Respond c p f \<in> set out \<longrightarrow> p \<noteq> None \<and>
        ((\<exists>r \<in> set (up_final u). rq_chan r = c \<and> rq_frame r = f \<and> win_start u < f \<and> f \<le> win_start v) \<or>
         (\<exists>r \<in> set (up_fast u). rq_chan r = c))"
      using out(3) by blast
  qed (use out(1,2) advancedD(9) [OF assms] in auto)
qed

lemma fast_answered_waiting: "win_ok u \<Longrightarrow> answers_waiting u (fast_answered u)"
proof -
  assume ok: "win_ok u"
  define sw where "sw = sweep (\<lambda>r. rq_frame r = up_local u) 0 (up_fast u)"
  have "mset (fst sw) + mset (snd sw) = mset (up_fast u)" unfolding sw_def by (rule sweep_mset)
  then have "set (up_fast u) = set (fst sw) \<union> set (snd sw)" by (metis set_mset_mset set_mset_union)
  then show ?thesis
    using game_ptr [OF ok, of "up_local u"]
    by (auto simp: answers_waiting_def fast_answered_def Let_def sw_def [symmetric])
qed

text \<open>What a joining engine sends for the frames it skipped.\<close>

definition skipped_outs :: "int \<Rightarrow> ('e, 'g) updater \<Rightarrow> 'e upd_out list" where
  "skipped_outs f u = (if 0 < up_skip u then skip_outs (ep_id (up_params u)) (up_skip u) f else [])"

lemma skipped_outs_props [simp]:
  "resp_chans (skipped_outs f u) = []" "m \<in> set (skipped_outs f u) \<Longrightarrow> true_message G s h m"
  by (auto simp: skipped_outs_def skip_outs_def [of _ _ f] split: if_splits) (simp add: skip_outs_def [symmetric])

context game_iface
begin

text \<open>The rest of a round for a local bundle that is not ignored, once nothing is left to skip.\<close>

lemma local_tail:
  assumes "upd_inv G s u" and "\<And>f. hi_base s < f \<Longrightarrow> f \<le> win_start u \<Longrightarrow> complete G s f"
    and "up_skip u = 0" and "0 \<le> win_start u"
    and "fits s (win_start u) (win_len u) (fb_frame lb) (fb_bundle lb)"
    and "fast_ok G (fb_frame lb) (add_bundle (fb_frame lb) (map_of_nilable (fb_bundle lb)) s) u"
  shows "\<exists>v. handle_local G lb u = Inr v \<and>
           settled G (add_bundle (fb_frame lb) (map_of_nilable (fb_bundle lb)) s) v \<and>
           maximal G (add_bundle (fb_frame lb) (map_of_nilable (fb_bundle lb)) s) v \<and>
           up_local v = fb_frame lb \<and> up_global v = max (up_global u) (fb_frame lb) \<and>
           win_start u \<le> win_start v \<and> ledger v = ledger u \<and> up_shutdown v = up_shutdown u \<and>
           answers_waiting u v \<and>
           sends_truth G (add_bundle (fb_frame lb) (map_of_nilable (fb_bundle lb)) s) u v"
proof -
  let ?s = "add_bundle (fb_frame lb) (map_of_nilable (fb_bundle lb)) s"
  obtain w v where v: "handle_local G lb u = Inr (fast_answered v)" "dw_first w = win_start u"
      and iw: "inwin v (up_local v) \<or> (\<forall>r \<in> set (up_fast v). rq_frame r \<noteq> up_local v)"
      and adv: "advanced G ?s (local_absorbed lb u w) v"
    using local_tail_ok [OF assms(1-5)] assms(6) unfolding fast_ok_def by blast
  have gl: "up_local v \<le> up_global v" using advancedD(5,6) [OF adv] by simp
  have "sends_truth G ?s u v"
    by (rule sends_truth_prefix [OF advanced_truth [OF adv]]) auto
  moreover have "sends_truth G ?s v (fast_answered v)"
    using iw by (rule fast_answered_truth)
      (use settled_view [OF advancedD(1) [OF adv]] gl in \<open>auto simp: dw_inb_def\<close>)
  ultimately have "sends_truth G ?s u (fast_answered v)" by (rule sends_truth_trans) simp
  moreover have "answers_waiting u (fast_answered v)"
  proof (rule answers_waiting_trans [OF _ fast_answered_waiting])
    show "win_ok v" by (rule upd_shapeD(1) [OF upd_invD(1) [OF settledD(1) [OF advancedD(1) [OF adv]]]])
    show "answers_waiting u v"
      by (rule answers_waiting_prefix [OF advanced_waiting [OF adv]]) (use v(2) advancedD(3) [OF adv] in auto)
    show "win_start u \<le> win_start v" using advancedD(3) [OF adv] v(2) by simp
    show "win_start v \<le> win_start (fast_answered v)" by simp
  qed
  ultimately show ?thesis
    using v advancedD [OF adv] advanced_ledger [OF adv] by (simp add: fast_answered_ledger ledger_local_absorbed)
qed

text \<open>The state from which the round goes on after the skipped frames.\<close>

lemma local_enter:
  assumes u: "run_inv G s u" and ok: "local_ok G lb s u" and "\<not> ignored lb u"
  obtains u1 where "handle_local G lb u = handle_local G lb u1"
    and "upd_inv G (joined_history (fb_frame lb) u s) u1"
    and "\<And>k. hi_base s < k \<Longrightarrow> k \<le> win_start u1 \<Longrightarrow> complete G (joined_history (fb_frame lb) u s) k"
    and "up_skip u1 = 0" and "win_start u1 = win_start u" and "win_len u1 = win_len u" and "up_fast u1 = up_fast u"
    and "up_global u1 = up_global u" and "ledger u1 = ledger u" and "up_out u1 = up_out u @ skipped_outs (fb_frame lb) u"
    and "up_shutdown u1 = up_shutdown u" and "up_final u1 = up_final u" and "up_params u1 = up_params u"
proof (cases "0 < up_skip u")
  case True
  let ?f = "fb_frame lb" and ?me = "ep_id (up_params u)" and ?lo = "up_skip u"
  note ru = run_invD [OF u] and inv = settledD(1) [OF run_invD(1) [OF u]]
  have j: "join_ok ?f s u" using ok True assms(3) by (auto simp: local_ok_def Let_def)
  have lo: "win_start u < ?lo" "?lo \<le> ?f" "?f \<le> up_global u + 1"
    using j assms(3) by (auto simp: ignored_def join_ok_def)
  have base: "hi_base s < ?lo" using upd_invD(2) [OF inv] lo by simp
  obtain w where w: "fill_skipped ?f u = Inr (u\<lparr>up_window := w, up_dirty := min (up_dirty u) ?lo, up_skip := 0,
                       up_out := up_out u @ skip_outs ?me ?lo ?f\<rparr>)"
      "dw_first w = win_start u" "dw_len w = win_len u"
      "upd_inv G (join_history ?me ?lo ?f s) (u\<lparr>up_window := w, up_dirty := min (up_dirty u) ?lo, up_skip := 0,
                       up_out := up_out u @ skip_outs ?me ?lo ?f\<rparr>)"
    using fill_skipped_ok [OF inv lo] j by (auto simp: Let_def join_ok_def)
  have js: "joined_history ?f u s = join_history ?me ?lo ?f s" using True by (simp add: joined_history_def)
  show thesis
  proof (rule that)
    show "handle_local G lb u = handle_local G lb (u\<lparr>up_window := w, up_dirty := min (up_dirty u) ?lo, up_skip := 0,
                       up_out := up_out u @ skip_outs ?me ?lo ?f\<rparr>)"
      by (rule handle_local_join [OF True lo(2) w(1)]) simp
    show "complete G (joined_history ?f u s) k" if "hi_base s < k"
        "k \<le> win_start (u\<lparr>up_window := w, up_dirty := min (up_dirty u) ?lo, up_skip := 0,
                       up_out := up_out u @ skip_outs ?me ?lo ?f\<rparr>)" for k
      using that w(2) lo base settledD(3) [OF ru(1), of k] by (simp add: js complete_join)
  qed (use w js True in \<open>auto simp: ledger_def skipped_outs_def\<close>)
next
  case False
  note inv = settledD(1) [OF run_invD(1) [OF u]]
  show thesis
    by (rule that [of u])
      (use False inv assms(3) ok settledD(3) [OF run_invD(1) [OF u]]
        in \<open>auto simp: joined_history_def skipped_outs_def local_ok_def Let_def\<close>)
qed

lemma local_round:
  assumes u: "run_inv G s u" and ok: "local_ok G lb s u"
  shows "\<exists>v. handle_local G lb u = Inr v \<and> run_inv G (accept_local lb u s) v \<and>
           (\<not> ignored lb u \<longrightarrow> maximal G (accept_local lb u s) v \<and> up_local v = fb_frame lb) \<and>
           win_start u \<le> win_start v \<and> ledger v = ledger u \<and> up_shutdown v = up_shutdown u \<and>
           answers_waiting u v \<and> sends_truth G (accept_local lb u s) u v"
proof (cases "ignored lb u")
  case True
  then have "handle_local G lb u = Inr u" by (intro handle_local_ignored) (simp add: ignored_def)
  then show ?thesis using u True sends_truthI [where out = "[]"] answers_waiting_refl by (auto simp: accept_local_def)
next
  case False
  let ?f = "fb_frame lb" and ?s = "joined_history (fb_frame lb) u s"
  have fit: "fits ?s (win_start u) (win_len u) ?f (fb_bundle lb)"
    and fast: "fast_ok G ?f (add_bundle ?f (map_of_nilable (fb_bundle lb)) ?s) u"
    using ok False by (auto simp: local_ok_def Let_def)
  obtain u1 where u1: "handle_local G lb u = handle_local G lb u1" "upd_inv G ?s u1"
      "\<And>k. hi_base s < k \<Longrightarrow> k \<le> win_start u1 \<Longrightarrow> complete G ?s k" "up_skip u1 = 0"
      "win_start u1 = win_start u" "win_len u1 = win_len u" "up_fast u1 = up_fast u"
      "up_global u1 = up_global u" "ledger u1 = ledger u" "up_out u1 = up_out u @ skipped_outs ?f u"
      "up_shutdown u1 = up_shutdown u" "up_final u1 = up_final u"
    using local_enter [OF u ok False] by metis
  have "hi_base ?s = hi_base s" by (simp add: joined_history_def)
  with u1 fit fast run_invD(4) [OF u] have "\<exists>v. handle_local G lb u1 = Inr v \<and>
           settled G (add_bundle ?f (map_of_nilable (fb_bundle lb)) ?s) v \<and>
           maximal G (add_bundle ?f (map_of_nilable (fb_bundle lb)) ?s) v \<and>
           up_local v = ?f \<and> up_global v = max (up_global u1) ?f \<and>
           win_start u1 \<le> win_start v \<and> ledger v = ledger u1 \<and> up_shutdown v = up_shutdown u1 \<and>
           answers_waiting u1 v \<and> sends_truth G (add_bundle ?f (map_of_nilable (fb_bundle lb)) ?s) u1 v"
    by (intro local_tail) (auto simp: fast_ok_def)
  then obtain v where "handle_local G lb u = Inr v"
      "settled G (accept_local lb u s) v" "maximal G (accept_local lb u s) v"
      "up_local v = ?f" "up_global v = max (up_global u) ?f" "win_start u \<le> win_start v" "ledger v = ledger u"
      "up_shutdown v = up_shutdown u" and aw: "answers_waiting u1 v"
      and tr: "sends_truth G (accept_local lb u s) u1 v"
    using u1 False by (auto simp: accept_local_def)
  moreover have "sends_truth G (accept_local lb u s) u v"
    by (rule sends_truth_prefix [OF tr u1(10)]) simp
  moreover have "answers_waiting u v"
    by (rule answers_waiting_prefix [OF aw u1(10)]) (use \<open>win_start u \<le> win_start v\<close> in \<open>simp_all add: u1\<close>)
  ultimately show ?thesis using run_invD(2) [OF u] by (auto simp: run_inv_def)
qed

lemma remote_round:
  assumes u: "run_inv G s u" and ok: "fits_all s (win_start u) (win_len u) rbs"
  shows "\<exists>v. handle_remote G rbs u = Inr v \<and> run_inv G (fold (accept (win_start u)) rbs s) v \<and>
           maximal G (fold (accept (win_start u)) rbs s) v \<and> win_start u \<le> win_start v \<and>
           ledger v = ledger u \<and> up_shutdown v = up_shutdown u \<and>
           (\<forall>rb \<in> set rbs. fb_frame rb \<le> up_global v) \<and> answers_waiting u v \<and>
           sends_truth G (fold (accept (win_start u)) rbs s) u v"
proof -
  obtain v v' where v: "handle_remote G rbs u = Inr v'" "absorbed u v"
      "advanced G (fold (accept (win_start u)) rbs s) v v'" "\<forall>rb \<in> set rbs. fb_frame rb \<le> up_global v'"
    using handle_remote_ok [OF run_invD(1) [OF u] ok] by blast
  moreover have "sends_truth G (fold (accept (win_start u)) rbs s) u v'"
    by (rule sends_truth_prefix [OF advanced_truth [OF v(3)], where out = "[]"])
      (simp_all add: absorbedD(4) [OF v(2)])
  moreover have "answers_waiting u v'"
    by (rule answers_waiting_prefix [OF advanced_waiting [OF v(3)], where out = "[]"])
      (use advancedD(3) [OF v(3)] in \<open>simp_all add: absorbedD [OF v(2)]\<close>)
  ultimately show ?thesis
    using advancedD [OF v(3)] absorbedD [OF v(2)] advanced_ledger [OF v(3)] ledger_absorbed [OF v(2)]
      run_invD(2,3) [OF u]
    by (auto simp: run_inv_def)
qed

end

section \<open>Requests\<close>

lemma respond_from_ok:
  "win_ok u \<Longrightarrow> inwin u f \<Longrightarrow>
   respond_from f r u = Inr (send (Respond (rq_chan r) (fd_game (fd_at u f)) f) u)"
  by (simp add: respond_from_def dw_get_fd_at)

lemma send_view [simp]:
  "up_window (send m u) = up_window u" "up_heap (send m u) = up_heap u" "up_local (send m u) = up_local u"
  "up_global (send m u) = up_global u" "up_final (send m u) = up_final u" "up_fast (send m u) = up_fast u"
  "up_out (send m u) = up_out u @ [m]" "up_shutdown (send m u) = up_shutdown u" "settled G s (send m u) = settled G s u"
  by (simp_all add: send_def)

lemma run_inv_send [simp]: "run_inv G s (send m u) = run_inv G s u"
  by (simp add: run_inv_def)

text \<open>The outcome of a request for a state: an answer now, or a place in one of the two queues.\<close>

datatype answer = Now "nat option" int | Later

definition answer_of :: "state_request \<Rightarrow> ('e, 'g) updater \<Rightarrow> answer" where
  "answer_of r u =
     (let at = (\<lambda>f. Now (fd_game (fd_at u f)) f); f = rq_frame r in
      if f < 0 then at (if rq_final r then win_start u else up_local u)
      else if f < win_start u then Now None 0
      else if f \<le> (if rq_final r then win_start u else up_local u) then at f
      else Later)"

lemma handle_request_eq:
  assumes u: "run_inv G s u" and ok: "rq_final r \<or> 0 \<le> rq_frame r \<or> win_start u \<le> up_local u"
  shows "handle_request r u = Inr (case answer_of r u of
      Now p f \<Rightarrow> send (Respond (rq_chan r) p f) u
    | Later \<Rightarrow> if rq_final r then u\<lparr>up_final := up_final u @ [r]\<rparr> else u\<lparr>up_fast := up_fast u @ [r]\<rparr>)"
proof -
  note ru = run_invD [OF u]
  have at: "respond_from f r u = Inr (send (Respond (rq_chan r) (fd_game (fd_at u f)) f) u)"
    if "win_start u \<le> f" "f \<le> up_global u" for f
    by (rule respond_from_ok) (use ru that in \<open>auto simp: dw_inb_def\<close>)
  show ?thesis
    unfolding handle_request_def answer_of_def Let_def
    using ru ok at [of "win_start u"] at [of "up_local u"] at [of "rq_frame r"] by auto
qed

lemma request_outside:
  assumes u: "run_inv G s u" and "\<not> input_ok G (RequestState r) s u"
  shows "upd_step G (RequestState r) u = Some (Inl OutsideWindow)"
  using assms(2) dw_get_out [OF win_ok_dw [OF run_invD(5) [OF u]], of "up_local u"]
  by (simp add: handle_request_def respond_from_def dw_inb_def)

lemma answer_of_range:
  assumes u: "run_inv G s u" and ok: "rq_final r \<or> 0 \<le> rq_frame r \<or> win_start u \<le> up_local u"
    and a: "answer_of r u = Now p f"
  shows "(p = None \<and> f = 0 \<and> 0 \<le> rq_frame r \<and> rq_frame r < win_start u) \<or>
         (p = fd_game (fd_at u f) \<and> win_start u \<le> f \<and> f \<le> up_global u \<and>
          (0 \<le> rq_frame r \<longrightarrow> f = rq_frame r))"
  using a ok run_invD [OF u] unfolding answer_of_def Let_def by (auto split: if_splits)

lemma request_round:
  assumes u: "run_inv G s u" and ok: "rq_final r \<or> 0 \<le> rq_frame r \<or> win_start u \<le> up_local u"
  shows "\<exists>v. handle_request r u = Inr v \<and> run_inv G s v \<and> win_start v = win_start u \<and>
             ledger v = ledger u + {#rq_chan r#} \<and> up_shutdown v = up_shutdown u \<and> sends_truth G s u v"
proof (cases "answer_of r u")
  case (Now p f)
  then have eq: "handle_request r u = Inr (send (Respond (rq_chan r) p f) u)"
    using handle_request_eq [OF u ok] by simp
  have "true_message G s (up_heap u) (Respond (rq_chan r) p f)"
    using answer_of_range [OF u ok Now] true_respond [OF settled_view [OF run_invD(1) [OF u]], of f "rq_chan r"]
    by auto
  then show ?thesis using eq u
    by (auto simp: ledger_def intro: sends_truthI [where out = "[Respond (rq_chan r) p f]"])
next
  case Later
  then show ?thesis using handle_request_eq [OF u ok] u
    by (cases "rq_final r") (auto simp: ledger_def run_inv_def intro!: sends_truthI [where out = "[]"])
qed

lemma info_round:
  assumes "run_inv G s u"
  shows "handle_info u = Inr (send (InfoResponse (int (length (keys (engines_at u (win_start u)))))) u)"
  using run_invD [OF assms] by (simp add: handle_info_def dw_get_fd_at dw_inb_def engines_at_def)

section \<open>All rounds\<close>

fun asked :: "'e upd_in \<Rightarrow> nat multiset" where
  "asked (RequestState r) = {#rq_chan r#}"
| "asked _ = {#}"

context game_iface
begin

lemma round_ok:
  assumes u: "run_inv G s u" and ok: "input_ok G i s u"
  shows "\<exists>v. upd_step G i u = Some (Inr v) \<and> run_inv G (accept_input i u s) v \<and>
             win_start u \<le> win_start v \<and> ledger v = ledger u + asked i \<and> up_shutdown v = up_shutdown u \<and>
             sends_truth G (accept_input i u s) u v"
proof (cases i)
  case (LocalBundle lb)
  then show ?thesis using local_round [OF u] ok by fastforce
next
  case (RemoteBundles rbs)
  then show ?thesis using remote_round [OF u] ok by fastforce
next
  case (RequestState r)
  then show ?thesis using request_round [OF u] ok by fastforce
next
  case InfoRequest
  then show ?thesis using info_round [OF u] u
    by (auto simp: ledger_def intro: sends_truthI)
next
  case ShutdownSignal
  then show ?thesis using u ok by (auto simp: ledger_def intro: sends_truthI)
qed

end

text \<open>The states of runs, with the history each stands for.\<close>

inductive runs :: "('e, 'g) game_ops \<Rightarrow> ('e, 'g) history \<Rightarrow> ('e, 'g) updater \<Rightarrow> bool" for G where
  started: "fd_game d = Some a \<Longrightarrow> a < length h \<Longrightarrow> 0 \<le> ep_max_frames p \<Longrightarrow> 0 \<le> f \<Longrightarrow>
    f + ep_max_frames p < max_i32 \<Longrightarrow> start G f d (zero_updater p hosting h) = Inr u \<Longrightarrow>
    runs G (history0 f (known_engines (fd_info d)) (h ! a) False) u"
| booted: "bf_game b = Some a \<Longrightarrow> a < length h \<Longrightarrow> 1 \<le> ep_max_frames p \<Longrightarrow> 0 \<le> bf_frame b \<Longrightarrow>
    bf_frame b + ep_max_frames p + 2 \<le> max_i32 \<Longrightarrow>
    bootstrap G b (zero_updater p hosting h) = Inr u \<Longrightarrow>
    runs G (history0 (bf_frame b) (known_engines (bf_info b)) (h ! a) True) u"
| round: "runs G s u \<Longrightarrow> input_ok G i s u \<Longrightarrow> upd_step G i u = Some (Inr v) \<Longrightarrow>
    runs G (accept_input i u s) v"

lemma zero_updater_simps [simp]:
  "up_params (zero_updater p hosting h) = p" "up_heap (zero_updater p hosting h) = h"
  "up_skip (zero_updater p hosting h) = 0" "up_hosting (zero_updater p hosting h) = hosting"
  "up_final (zero_updater p hosting h) = []" "up_fast (zero_updater p hosting h) = []"
  "up_out (zero_updater p hosting h) = []" "up_shutdown (zero_updater p hosting h) = False"
  by (simp_all add: zero_updater_def)

lemma history0_simps [simp]:
  "hi_base (history0 f m g p) = f" "hi_engines (history0 f m g p) = m" "hi_game (history0 f m g p) = g"
  "hi_pending (history0 f m g p) = p" "hi_bundles (history0 f m g p) k = fmempty"
  by (simp_all add: history0_def)

context game_iface
begin

lemma started_run_inv:
  assumes "fd_game d = Some a" and "a < length h" and "0 \<le> ep_max_frames p" and "0 \<le> f"
    and "f + ep_max_frames p < max_i32"
  shows "\<exists>u. start G f d (zero_updater p hosting h) = Inr u \<and>
             run_inv G (history0 f (known_engines (fd_info d)) (h ! a) False) u \<and>
             win_start u = f \<and> win_len u = ep_max_frames p + 1"
  using start_ok [of d a "zero_updater p hosting h" f] assms
  by (auto simp: Let_def run_inv_def)

lemma booted_run_inv:
  assumes "bf_game b = Some a" and "a < length h" and "1 \<le> ep_max_frames p" and "0 \<le> bf_frame b"
    and "bf_frame b + ep_max_frames p + 2 \<le> max_i32"
  shows "\<exists>u. bootstrap G b (zero_updater p hosting h) = Inr u \<and>
             run_inv G (history0 (bf_frame b) (known_engines (bf_info b)) (h ! a) True) u \<and>
             win_start u = bf_frame b \<and> win_len u = ep_max_frames p + 1 \<and> up_skip u = -1 \<and> up_global u = bf_frame b + 1"
  using bootstrap_ok [of b a "zero_updater p hosting h"] assms
  by (auto simp: Let_def run_inv_def)

lemma runs_inv: "runs G s u \<Longrightarrow> run_inv G s u"
proof (induction rule: runs.induct)
  case (started d a h p f hosting u)
  then show ?case using started_run_inv [of d a h p f hosting] by auto
next
  case (booted b a h p hosting u)
  then show ?case using booted_run_inv [of b a h p hosting] by auto
next
  case (round s u i v)
  then show ?case using round_ok [of s u i] by auto
qed

lemma runs_no_shutdown: "runs G s u \<Longrightarrow> \<not> up_shutdown u"
proof (induction rule: runs.induct)
  case (started d a h p f hosting u)
  then show ?case using start_ok [of d a "zero_updater p hosting h" f] by (auto simp: Let_def)
next
  case (booted b a h p hosting u)
  then show ?case using bootstrap_ok [of b a "zero_updater p hosting h"] by (auto simp: Let_def)
next
  case (round s u i v)
  then show ?case using round_ok [OF runs_inv, of s u i] by auto
qed

end

section \<open>Several rounds\<close>

text \<open>Rounds of an updater one after the other, from any state.\<close>

inductive rounds :: "('e, 'g) game_ops \<Rightarrow> ('e, 'g) history \<Rightarrow> ('e, 'g) updater \<Rightarrow> 'e upd_in list \<Rightarrow>
  ('e, 'g) history \<Rightarrow> ('e, 'g) updater \<Rightarrow> bool" for G s u where
  rounds_none: "rounds G s u [] s u"
| rounds_more: "rounds G s u is t v \<Longrightarrow> input_ok G i t v \<Longrightarrow> upd_step G i v = Some (Inr w) \<Longrightarrow>
    rounds G s u (is @ [i]) (accept_input i v t) w"

context game_iface
begin

lemma rounds_run_inv: "rounds G s u is t v \<Longrightarrow> run_inv G s u \<Longrightarrow> run_inv G t v"
  by (induction rule: rounds.induct) (use round_ok in fastforce)+

lemma rounds_win: "rounds G s u is t v \<Longrightarrow> run_inv G s u \<Longrightarrow> win_start u \<le> win_start v"
proof (induction rule: rounds.induct)
  case (rounds_more "is" t v i w)
  then show ?case using round_ok [OF rounds_run_inv [OF rounds_more.hyps(1)] rounds_more.hyps(2)] by fastforce
qed simp

lemma rounds_fields: "rounds G s u is t v \<Longrightarrow> hi_base t = hi_base s \<and> hi_engines t = hi_engines s"
  by (induction rule: rounds.induct) auto

text \<open>A bootstrapped updater stays on its frame until it accepts a bundle for the next one.\<close>

lemma booted_waits:
  assumes r: "rounds G (history0 f m g True) u is t w" and u: "run_inv G (history0 f m g True) u"
    and b: "hi_bundles t (f + 1) = fmempty" and m: "m \<noteq> fmempty"
  shows "win_start w = f"
proof (rule ccontr)
  assume "win_start w \<noteq> f"
  have t: "hi_base t = f" "hi_engines t = m" using rounds_fields [OF r] by (simp_all add: history0_def)
  note w = run_invD(1) [OF rounds_run_inv [OF r u]]
  have "f + 1 \<le> win_start w" using settled_order(1) [OF w] t \<open>win_start w \<noteq> f\<close> by simp
  then have "fmdom' (fst (state_at G t (f + 1))) = {}"
    using settledD(3) [OF w, of "f + 1"] by (simp add: complete_def b t)
  moreover have "fst (state_at G t (f + 1)) = m"
  proof (cases "hi_pending t")
    case True
    then show ?thesis using state_at_pending [of t G] by (simp add: t)
  next
    case False
    then have "state_at G t (f + 1) = frame_step G fmempty (state_at G t f)"
      using state_at_step [of t "f + 1" G] by (simp add: t b)
    then show ?thesis using state_at_base [of G t] by (simp add: t frame_step_def Let_def frame_engines_def)
  qed
  ultimately have "set (keys m) = {}" by simp
  then have "keys m = []" by (simp only: set_empty)
  then show False using m by (simp add: keys_Nil_iff)
qed

end

section \<open>Requests left behind\<close>

text \<open>No request on channel \<open>c\<close> waits for a frame that the window can still reach.\<close>

definition stale :: "nat \<Rightarrow> ('e, 'g) updater \<Rightarrow> bool" where
  "stale c u \<longleftrightarrow> (\<forall>r \<in> set (up_final u). rq_chan r = c \<longrightarrow> rq_frame r \<le> win_start u) \<and>
     (\<forall>r \<in> set (up_fast u). rq_chan r \<noteq> c)"

lemma stale_waiting:
  assumes "answers_waiting u v" and "stale c u" and "win_start u \<le> win_start v"
  shows "stale c v \<and> count (mset (resp_chans (up_out v))) c = count (mset (resp_chans (up_out u))) c"
proof -
  obtain out where out: "up_out v = up_out u @ out"
    "\<And>c p f. Respond c p f \<in> set out \<Longrightarrow> p \<noteq> None \<and>
        ((\<exists>r \<in> set (up_final u). rq_chan r = c \<and> rq_frame r = f \<and> win_start u < f \<and> f \<le> win_start v) \<or>
         (\<exists>r \<in> set (up_fast u). rq_chan r = c))"
    using assms(1) unfolding answers_waiting_def by blast
  have "Respond c p f \<notin> set out" for p f using out(2) [of c p f] assms(2) unfolding stale_def by (metis leD)
  then have "c \<notin> set (resp_chans out)" by (simp add: resp_chans_iff)
  then have "count (mset (resp_chans out)) c = 0" by simp
  moreover have "stale c v" using assms(2,3) answers_waitingD(2,3) [OF assms(1)] by (fastforce simp: stale_def)
  ultimately show ?thesis by (simp add: out(1))
qed

context game_iface
begin

lemma stale_round:
  assumes u: "run_inv G s u" and ok: "input_ok G i s u" and st: "stale c u" "c \<notin># asked i"
    and v: "upd_step G i u = Some (Inr v)"
  shows "stale c v \<and> count (mset (resp_chans (up_out v))) c = count (mset (resp_chans (up_out u))) c"
proof (cases i)
  case (LocalBundle lb)
  then show ?thesis using local_round [OF u, of lb] ok v st(1) stale_waiting [of u v c] by auto
next
  case (RemoteBundles rbs)
  then show ?thesis using remote_round [OF u, of rbs] ok v st(1) stale_waiting [of u v c] by auto
next
  case (RequestState r)
  then have "rq_final r \<or> 0 \<le> rq_frame r \<or> win_start u \<le> up_local u" "handle_request r u = Inr v"
    using ok v by auto
  then show ?thesis using handle_request_eq [OF u, of r] st RequestState
    by (cases "answer_of r u") (auto simp: stale_def split: if_splits)
next
  case InfoRequest
  then show ?thesis using info_round [OF u] v st(1) by (auto simp: stale_def)
next
  case ShutdownSignal
  then show ?thesis using v st(1) by (auto simp: stale_def split: if_splits)
qed

end

section \<open>Groups\<close>

fun arrivals :: "'e nagle_in list \<Rightarrow> 'e frame_bundle list" where
  "arrivals [] = []"
| "arrivals (Arrival b # is) = b # arrivals is"
| "arrivals (TimerFires # is) = arrivals is"

definition group_of :: "'e frame_bundle list option \<Rightarrow> 'e frame_bundle list" where
  "group_of g = (case g of None \<Rightarrow> [] | Some bs \<Rightarrow> bs)"

lemma group_of_simps [simp]: "group_of None = []" "group_of (Some bs) = bs"
  by (simp_all add: group_of_def)

lemma nagle_arrivals:
  "concat (fst (nagle g is)) @ group_of (snd (nagle g is)) = group_of g @ arrivals is"
  by (induction g "is" rule: nagle.induct) (auto split: prod.splits)

lemma nagle_groups:
  "g \<noteq> Some [] \<Longrightarrow> [] \<notin> set (fst (nagle g is)) \<and> snd (nagle g is) \<noteq> Some []"
  by (induction g "is" rule: nagle.induct) (auto split: prod.splits)

end
