(* ===== verification/Ticker.thy ===== *)
theory Ticker
  imports Prelude
begin

text \<open>
  The tickers of \<open>core/ticker.go\<close>. A ticker is nil or running; its channel carries one empty
  value per millisecond (\<open>BasicTicker\<close>, driven by the timer of the \<open>time\<close> package) or per
  call of \<open>Inc\<close> (\<open>FakeTicker\<close>). The \<open>Ticker\<close> interface is the locale \<open>ticker_iface\<close>,
  with the laws the Bundler relies on; both tickers interpret it.
\<close>

section \<open>The interface\<close>

locale ticker_iface =
  fixes new :: 't
    and start :: "'t \<Rightarrow> go_panic + 't"
    and stop :: "'t \<Rightarrow> go_panic + 't"
    and channel :: "'t \<Rightarrow> nat option"      \<comment> \<open>\<open>Chan()\<close>: the channel's number, \<open>None\<close> for nil\<close>
    and running :: "'t \<Rightarrow> bool"
    and ok :: "'t \<Rightarrow> bool"
  assumes new_ok: "ok new" "\<not> running new"
    and start_runs: "ok t \<Longrightarrow> \<not> running t \<Longrightarrow> \<exists>t'. start t = Inr t' \<and> running t' \<and> ok t'"
    and stop_running: "ok t \<Longrightarrow> running t \<Longrightarrow> \<exists>t'. stop t = Inr t' \<and> \<not> running t' \<and> ok t'"
    and stop_stopped: "ok t \<Longrightarrow> \<not> running t \<Longrightarrow> stop t = Inl NotStarted"
    and running_channel: "ok t \<Longrightarrow> running t \<Longrightarrow> channel t \<noteq> None"
begin

text \<open>A ticker can be started and stopped again and again, and a second \<open>Stop\<close> panics.\<close>

lemma restart:
  assumes "ok t" and "\<not> running t"
  shows "\<exists>t' t''. start t = Inr t' \<and> channel t' \<noteq> None \<and> stop t' = Inr t'' \<and> ok t'' \<and> \<not> running t'' \<and>
                  stop t'' = Inl NotStarted"
  using start_runs [OF assms] stop_running stop_stopped running_channel by metis

lemma cycles: "\<exists>t. fold_res (\<lambda>_ t. seq (start t) stop) (replicate n ()) new = Inr t \<and> \<not> running t"
proof -
  have "ok s \<Longrightarrow> \<not> running s \<Longrightarrow>
        \<exists>t. fold_res (\<lambda>_ t. seq (start t) stop) (replicate n ()) s = Inr t \<and> \<not> running t" for s
  proof (induction n arbitrary: s)
    case (Suc n)
    obtain s1 s2 where "start s = Inr s1" "stop s1 = Inr s2" "ok s2" "\<not> running s2"
      using restart [OF Suc.prems] by blast
    then show ?case using Suc.IH [of s2] by simp
  qed simp
  then show ?thesis using new_ok by blast
qed

end

section \<open>\<open>BasicTicker\<close>\<close>

text \<open>
  The field \<open>ticker\<close> (is it non-nil) and the channel \<open>c\<close>, which survives \<open>Stop\<close>. The number
  of channels made so far stands for the allocator. Each \<open>Start\<close> leaves one forwarding goroutine
  behind, because \<open>time.Ticker.Stop\<close> does not close the timer's channel.
\<close>

record basic_ticker =
  bt_ticker :: bool
  bt_c :: "nat option"
  bt_made :: nat
  bt_forwarders :: nat

definition new_basic_ticker :: basic_ticker where
  "new_basic_ticker = \<lparr>bt_ticker = False, bt_c = None, bt_made = 0, bt_forwarders = 0\<rparr>"

definition basic_start :: "basic_ticker \<Rightarrow> go_panic + basic_ticker" where
  "basic_start t =
     (if bt_ticker t then Inl AlreadyStarted
      else Inr (t\<lparr>bt_ticker := True, bt_c := Some (bt_made t), bt_made := Suc (bt_made t),
                  bt_forwarders := Suc (bt_forwarders t)\<rparr>))"

definition basic_stop :: "basic_ticker \<Rightarrow> go_panic + basic_ticker" where
  "basic_stop t = (if bt_ticker t then Inr (t\<lparr>bt_ticker := False\<rparr>) else Inl NotStarted)"

definition basic_chan :: "basic_ticker \<Rightarrow> nat option" where
  "basic_chan t = bt_c t"

text \<open>A basic ticker that runs has a channel: the states \<open>Start\<close> and \<open>Stop\<close> can reach.\<close>

definition basic_ok :: "basic_ticker \<Rightarrow> bool" where
  "basic_ok t \<longleftrightarrow> (bt_ticker t \<longrightarrow> bt_c t \<noteq> None)"

interpretation basic: ticker_iface new_basic_ticker basic_start basic_stop basic_chan bt_ticker basic_ok
  by unfold_locales (auto simp: new_basic_ticker_def basic_start_def basic_stop_def basic_chan_def basic_ok_def)

section \<open>\<open>FakeTicker\<close>\<close>

text \<open>Only the channel; a second \<open>Start\<close> is allowed and does nothing. \<open>Stop\<close> closes the channel.\<close>

record fake_ticker =
  ft_c :: "nat option"
  ft_made :: nat
  ft_closed :: "nat list"

definition new_fake_ticker :: fake_ticker where
  "new_fake_ticker = \<lparr>ft_c = None, ft_made = 0, ft_closed = []\<rparr>"

definition fake_start :: "fake_ticker \<Rightarrow> go_panic + fake_ticker" where
  "fake_start t =
     (if ft_c t \<noteq> None then Inr t
      else Inr (t\<lparr>ft_c := Some (ft_made t), ft_made := Suc (ft_made t)\<rparr>))"

definition fake_stop :: "fake_ticker \<Rightarrow> go_panic + fake_ticker" where
  "fake_stop t =
     (case ft_c t of None \<Rightarrow> Inl NotStarted
      | Some c \<Rightarrow> Inr (t\<lparr>ft_c := None, ft_closed := c # ft_closed t\<rparr>))"

definition fake_chan :: "fake_ticker \<Rightarrow> nat option" where
  "fake_chan t = ft_c t"

interpretation fake: ticker_iface new_fake_ticker fake_start fake_stop fake_chan "\<lambda>t. ft_c t \<noteq> None" "\<lambda>_. True"
  by unfold_locales (auto simp: new_fake_ticker_def fake_start_def fake_stop_def fake_chan_def)

text \<open>
  \<open>Inc(ms)\<close> sends \<open>ms\<close> values, none when \<open>ms\<close> is negative. On a ticker that does not run the
  first send blocks for ever (a nil channel): \<open>None\<close>.
\<close>

definition fake_inc :: "int \<Rightarrow> fake_ticker \<Rightarrow> unit list option" where
  "fake_inc ms t = (if ms \<le> 0 then Some [] else case ft_c t of None \<Rightarrow> None | Some _ \<Rightarrow> Some (replicate (nat ms) ()))"

lemma fake_start_again: "fake_start t = Inr t' \<Longrightarrow> fake_start t' = Inr t'"
  by (auto simp: fake_start_def split: if_splits)

lemma basic_start_again: "basic_start t = Inr t' \<Longrightarrow> basic_start t' = Inl AlreadyStarted"
  by (auto simp: basic_start_def split: if_splits)

end
