(* ===== verification/Bundler.thy ===== *)
theory Bundler
  imports Events Ticker
begin

text \<open>
  The bundler of \<open>core/bundler.go\<close>: it collects local events, and with the ticks of its ticker
  as a clock it packs them into one bundle per frame. The state is that of the \<open>Bundler\<close>
  struct and the local variables of its \<open>routine\<close>; one round of the \<open>select\<close> is
  \<open>bundler_step\<close>.
\<close>

section \<open>Model\<close>

record ('e, 't) bundler =
  bu_params :: engine_params
  bu_ticker :: 't
  bu_current_ms :: int                    \<comment> \<open>\<open>Current_ms\<close>, an \<open>int64\<close>\<close>
  bu_frame :: int                         \<comment> \<open>\<open>current_frame\<close>, an \<open>int32\<close>\<close>
  bu_game :: "'e list"                    \<comment> \<open>\<open>current_events\<close>\<close>
  bu_engine :: "engine_event list"        \<comment> \<open>\<open>current_engine_events\<close>\<close>
  bu_out :: "'e frame_bundle list"        \<comment> \<open>sent on \<open>Local_bundles\<close>, oldest first\<close>
  bu_running :: bool                      \<comment> \<open>\<open>routine\<close> has not returned\<close>
  bu_closed :: bool                       \<comment> \<open>\<open>Local_bundles\<close> is closed\<close>

definition zero_bundler :: "engine_params \<Rightarrow> 't \<Rightarrow> int \<Rightarrow> ('e, 't) bundler" where
  "zero_bundler p t ms =
     \<lparr>bu_params = p, bu_ticker = t, bu_current_ms = ms, bu_frame = 0, bu_game = [], bu_engine = [],
      bu_out = [], bu_running = False, bu_closed = False\<rparr>"

text \<open>\<open>StateFrame(ms / Frame_ms)\<close>: a truncating division of \<open>int64\<close>, then a conversion to \<open>int32\<close>.\<close>

definition frame_of :: "engine_params \<Rightarrow> int \<Rightarrow> go_panic + int" where
  "frame_of p ms = (if ep_frame_ms p = 0 then Inl DivideByZero else Inr (i32 (i64 (ms sdiv ep_frame_ms p))))"

definition bundler_start :: "('t \<Rightarrow> go_panic + 't) \<Rightarrow> ('e, 't) bundler \<Rightarrow> go_panic + ('e, 't) bundler" where
  "bundler_start tstart b =
     seq (tstart (bu_ticker b)) (\<lambda>t.
     seq (frame_of (bu_params b) (bu_current_ms b)) (\<lambda>f.
     Inr (b\<lparr>bu_ticker := t, bu_frame := f, bu_game := [], bu_engine := [], bu_running := True\<rparr>)))"

definition local_bundle :: "engine_id \<Rightarrow> 'e list \<Rightarrow> engine_event list \<Rightarrow> 'e event_bundle" where
  "local_bundle i gs es = Some (fmupd i \<lparr>ae_game = gs, ae_engine = es\<rparr> fmempty)"

text \<open>One round of the inner loop: send the bundle of the frame, then forget its events.\<close>

definition emit :: "int \<Rightarrow> ('e, 't) bundler \<Rightarrow> go_panic + ('e, 't) bundler" where
  "emit frame b =
     (if bu_closed b then Inl ClosedChannel
      else Inr (b\<lparr>bu_out := bu_out b @ [\<lparr>fb_frame = frame,
                                        fb_bundle = local_bundle (ep_id (bu_params b)) (bu_game b) (bu_engine b)\<rparr>],
                  bu_game := [], bu_engine := [], bu_frame := i32 (frame + 1)\<rparr>))"

definition on_tick :: "('e, 't) bundler \<Rightarrow> go_panic + ('e, 't) bundler" where
  "on_tick b =
     (let b1 = b\<lparr>bu_current_ms := i64 (bu_current_ms b + 1)\<rparr> in
      seq (frame_of (bu_params b1) (bu_current_ms b1)) (\<lambda>next_frame.
      for_lt (bu_frame b1) next_frame emit b1))"

datatype 'e bundler_in =
    StopBundler
  | GameEvent 'e
  | LocalEngineEvent engine_event
  | Tick
  | TimeDelta int

text \<open>One round of \<open>routine\<close>. \<open>None\<close>: the routine has returned.\<close>

fun bundler_step :: "'e bundler_in \<Rightarrow> ('e, 't) bundler \<Rightarrow> (go_panic + ('e, 't) bundler) option" where
  "bundler_step i b =
     (if \<not> bu_running b then None
      else Some (case i of
          StopBundler \<Rightarrow> if bu_closed b then Inl ClosedChannel
                         else Inr (b\<lparr>bu_closed := True, bu_running := False\<rparr>)
        | GameEvent e \<Rightarrow> Inr (b\<lparr>bu_game := bu_game b @ [e]\<rparr>)
        | LocalEngineEvent e \<Rightarrow> Inr (b\<lparr>bu_engine := bu_engine b @ [e]\<rparr>)
        | Tick \<Rightarrow> on_tick b
        | TimeDelta d \<Rightarrow> Inr (b\<lparr>bu_current_ms := i64 (bu_current_ms b + d)\<rparr>)))"

fun bundler_run :: "'e bundler_in list \<Rightarrow> ('e, 't) bundler \<Rightarrow> go_panic + ('e, 't) bundler" where
  "bundler_run [] b = Inr b"
| "bundler_run (i # is) b = (case bundler_step i b of None \<Rightarrow> Inr b | Some r \<Rightarrow> seq r (bundler_run is))"

section \<open>One tick\<close>

definition tick_bundles :: "('e, 't) bundler \<Rightarrow> int \<Rightarrow> 'e frame_bundle list" where
  "tick_bundles b next =
     map (\<lambda>f. if f = bu_frame b
              then \<lparr>fb_frame = f, fb_bundle = local_bundle (ep_id (bu_params b)) (bu_game b) (bu_engine b)\<rparr>
              else \<lparr>fb_frame = f, fb_bundle = local_bundle (ep_id (bu_params b)) [] []\<rparr>)
       [bu_frame b..next - 1]"

definition ticked :: "('e, 't) bundler \<Rightarrow> int \<Rightarrow> ('e, 't) bundler" where
  "ticked b next =
     (if next \<le> bu_frame b then b
      else b\<lparr>bu_out := bu_out b @ tick_bundles b next, bu_game := [], bu_engine := [], bu_frame := next\<rparr>)"

lemma tick_bundles_step:
  assumes "bu_frame b \<le> i"
  shows "tick_bundles b (i + 1) = tick_bundles b i @
    [\<lparr>fb_frame = i, fb_bundle = local_bundle (ep_id (bu_params b))
       (if i = bu_frame b then bu_game b else []) (if i = bu_frame b then bu_engine b else [])\<rparr>]"
  using assms by (simp add: tick_bundles_def upto_rec2)

lemma emit_ticked:
  assumes "bu_frame b \<le> i" and "i < max_i32" and "- 2147483648 \<le> bu_frame b" and "\<not> bu_closed b"
  shows "emit i (ticked b i) = Inr (ticked b (i + 1))"
  using assms by (auto simp: emit_def ticked_def tick_bundles_step) (simp add: tick_bundles_def)

lemma emit_loop:
  assumes "- 2147483648 \<le> bu_frame b" and "next \<le> max_i32" and "\<not> bu_closed b"
  shows "for_lt (bu_frame b) next emit b = Inr (ticked b next)"
proof (cases "bu_frame b \<le> next")
  case True
  have "\<exists>t. for_lt (bu_frame b) next emit b = Inr t \<and> t = ticked b next"
    by (rule for_lt_invariant [where I = "\<lambda>i t. t = ticked b i"])
      (use True assms emit_ticked [of b] in \<open>auto simp: ticked_def\<close>)
  then show ?thesis by blast
next
  case False
  then show ?thesis by (simp add: ticked_def)
qed

lemma on_tick_eq:
  assumes "frame_of (bu_params b) (i64 (bu_current_ms b + 1)) = Inr next"
    and "in_i32 (bu_frame b)" and "\<not> bu_closed b"
  shows "on_tick b = Inr (ticked (b\<lparr>bu_current_ms := i64 (bu_current_ms b + 1)\<rparr>) next)"
proof -
  have "in_i32 next" using assms(1) in_i32_i32 by (auto simp: frame_of_def split: if_splits)
  then show ?thesis
    using assms emit_loop [of "b\<lparr>bu_current_ms := i64 (bu_current_ms b + 1)\<rparr>" "next"]
    by (simp add: on_tick_def Let_def in_i32_def)
qed

section \<open>Runs\<close>

text \<open>The events that have left in bundles, and those received before the routine stopped.\<close>

definition sent_game :: "('e, 't) bundler \<Rightarrow> 'e list" where
  "sent_game b = concat (map (\<lambda>fb. ae_game (bundle_get (fb_bundle fb) (ep_id (bu_params b)))) (bu_out b))"

definition sent_engine :: "('e, 't) bundler \<Rightarrow> engine_event list" where
  "sent_engine b = concat (map (\<lambda>fb. ae_engine (bundle_get (fb_bundle fb) (ep_id (bu_params b)))) (bu_out b))"

fun received_game :: "'e bundler_in list \<Rightarrow> 'e list" where
  "received_game [] = []"
| "received_game (StopBundler # is) = []"
| "received_game (GameEvent e # is) = e # received_game is"
| "received_game (i # is) = received_game is"

fun received_engine :: "'e bundler_in list \<Rightarrow> engine_event list" where
  "received_engine [] = []"
| "received_engine (StopBundler # is) = []"
| "received_engine (LocalEngineEvent e # is) = e # received_engine is"
| "received_engine (i # is) = received_engine is"

lemma bundle_get_local [simp]: "bundle_get (local_bundle i gs es) i = \<lparr>ae_game = gs, ae_engine = es\<rparr>"
  by (simp add: bundle_get_def local_bundle_def)

lemma tick_events:
  "bu_frame b < next \<Longrightarrow> concat (map (\<lambda>fb. ae_game (bundle_get (fb_bundle fb) (ep_id (bu_params b)))) (tick_bundles b next)) = bu_game b"
  "bu_frame b < next \<Longrightarrow> concat (map (\<lambda>fb. ae_engine (bundle_get (fb_bundle fb) (ep_id (bu_params b)))) (tick_bundles b next)) = bu_engine b"
proof -
  have c: "f \<noteq> bu_frame b" if "f \<in> set [bu_frame b + 1..next - 1]" for f using that by simp
  have e: "concat (map (\<lambda>_. []) ks) = []" for ks :: "int list" by (induction ks) auto
  assume n: "bu_frame b < next"
  show "concat (map (\<lambda>fb. ae_game (bundle_get (fb_bundle fb) (ep_id (bu_params b)))) (tick_bundles b next)) = bu_game b"
    using n c by (simp add: tick_bundles_def upto_rec1 comp_def if_distrib cong: if_cong)
  show "concat (map (\<lambda>fb. ae_engine (bundle_get (fb_bundle fb) (ep_id (bu_params b)))) (tick_bundles b next)) = bu_engine b"
    using n c by (simp add: tick_bundles_def upto_rec1 comp_def if_distrib cong: if_cong)
qed

definition bundler_ok :: "('e, 't) bundler \<Rightarrow> bool" where
  "bundler_ok b \<longleftrightarrow> in_i32 (bu_frame b) \<and> ep_frame_ms (bu_params b) \<noteq> 0 \<and> (bu_running b \<longrightarrow> \<not> bu_closed b)"

lemma ticked_simps [simp]:
  "bu_params (ticked b n) = bu_params b" "bu_running (ticked b n) = bu_running b"
  "bu_closed (ticked b n) = bu_closed b" "bu_current_ms (ticked b n) = bu_current_ms b"
  "bu_frame (ticked b n) = max (bu_frame b) n" "bu_ticker (ticked b n) = bu_ticker b"
  by (auto simp: ticked_def)

text \<open>What one round does, for the fields that runs are about.\<close>

lemma bundler_step_ok:
  assumes "bundler_ok b" and "bu_running b"
  shows "\<exists>b'. bundler_step i b = Some (Inr b') \<and> bundler_ok b' \<and> bu_params b' = bu_params b \<and>
    bu_frame b \<le> bu_frame b' \<and>
    map fb_frame (bu_out b') = map fb_frame (bu_out b) @ [bu_frame b..bu_frame b' - 1] \<and>
    sent_game b' @ bu_game b' = sent_game b @ bu_game b @ received_game [i] \<and>
    sent_engine b' @ bu_engine b' = sent_engine b @ bu_engine b @ received_engine [i] \<and>
    (bu_running b' \<longleftrightarrow> i \<noteq> StopBundler)"
proof (cases i)
  case Tick
  obtain n where n: "frame_of (bu_params b) (i64 (bu_current_ms b + 1)) = Inr n"
    using assms(1) by (auto simp: frame_of_def bundler_ok_def)
  then have "in_i32 n" using in_i32_i32 by (auto simp: frame_of_def split: if_splits)
  let ?b = "b\<lparr>bu_current_ms := i64 (bu_current_ms b + 1)\<rparr>"
  have "bundler_step i b = Some (Inr (ticked ?b n))"
    using on_tick_eq [OF n] assms Tick by (simp add: bundler_ok_def)
  moreover have "map fb_frame (bu_out (ticked ?b n)) = map fb_frame (bu_out b) @ [bu_frame b..max (bu_frame b) n - 1]"
    by (auto simp: ticked_def tick_bundles_def comp_def max_def if_distrib cong: if_cong)
  moreover have "sent_game (ticked ?b n) @ bu_game (ticked ?b n) = sent_game b @ bu_game b"
    using tick_events(1) [of ?b n] by (auto simp: ticked_def sent_game_def)
  moreover have "sent_engine (ticked ?b n) @ bu_engine (ticked ?b n) = sent_engine b @ bu_engine b"
    using tick_events(2) [of ?b n] by (auto simp: ticked_def sent_engine_def)
  ultimately show ?thesis using assms Tick \<open>in_i32 n\<close>
    by (auto simp: bundler_ok_def max_def in_i32_def)
qed (use assms in \<open>auto simp: bundler_ok_def sent_game_def sent_engine_def\<close>)

lemma bundler_step_none: "\<not> bu_running b \<Longrightarrow> bundler_step i b = None"
  by simp

lemma received_Cons:
  "i \<noteq> StopBundler \<Longrightarrow> received_game (i # is) = received_game [i] @ received_game is"
  "i \<noteq> StopBundler \<Longrightarrow> received_engine (i # is) = received_engine [i] @ received_engine is"
  by (cases i; simp)+

lemma bundler_stopped: "\<not> bu_running b \<Longrightarrow> bundler_run is b = Inr b"
  by (cases "is") auto

lemma upto_join:
  fixes a b c :: int
  assumes "a \<le> b" and "b \<le> c"
  shows "[a..b - 1] @ [b..c - 1] = [a..c - 1]"
  using assms upto_split1 [of a b "c - 1"] by (cases "b = c") auto

lemma bundler_run_ok:
  assumes "bundler_ok b" and "bu_running b"
  shows "\<exists>b'. bundler_run is b = Inr b' \<and> bundler_ok b' \<and> bu_params b' = bu_params b \<and>
    bu_frame b \<le> bu_frame b' \<and>
    map fb_frame (bu_out b') = map fb_frame (bu_out b) @ [bu_frame b..bu_frame b' - 1] \<and>
    sent_game b' @ bu_game b' = sent_game b @ bu_game b @ received_game is \<and>
    sent_engine b' @ bu_engine b' = sent_engine b @ bu_engine b @ received_engine is"
  using assms
proof (induction "is" arbitrary: b)
  case Nil
  then show ?case by simp
next
  case (Cons i "is")
  obtain b1 where b1: "bundler_step i b = Some (Inr b1)" "bundler_ok b1" "bu_params b1 = bu_params b"
    "bu_frame b \<le> bu_frame b1"
    "map fb_frame (bu_out b1) = map fb_frame (bu_out b) @ [bu_frame b..bu_frame b1 - 1]"
    "sent_game b1 @ bu_game b1 = sent_game b @ bu_game b @ received_game [i]"
    "sent_engine b1 @ bu_engine b1 = sent_engine b @ bu_engine b @ received_engine [i]"
    "bu_running b1 \<longleftrightarrow> i \<noteq> StopBundler"
    using bundler_step_ok [OF Cons.prems] by blast
  have run: "bundler_run (i # is) b = bundler_run is b1" by (simp add: b1(1) del: bundler_step.simps)
  show ?case
  proof (cases "i = StopBundler")
    case True
    then have "bundler_run (i # is) b = Inr b1" using b1(8) run bundler_stopped by metis
    then show ?thesis using b1 True by auto
  next
    case False
    then obtain b2 where b2: "bundler_run is b1 = Inr b2" "bundler_ok b2" "bu_params b2 = bu_params b1"
      "bu_frame b1 \<le> bu_frame b2"
      "map fb_frame (bu_out b2) = map fb_frame (bu_out b1) @ [bu_frame b1..bu_frame b2 - 1]"
      "sent_game b2 @ bu_game b2 = sent_game b1 @ bu_game b1 @ received_game is"
      "sent_engine b2 @ bu_engine b2 = sent_engine b1 @ bu_engine b1 @ received_engine is"
      using Cons.IH [OF b1(2)] b1(8) by blast
    have ev: "sent_game b2 @ bu_game b2 = sent_game b @ bu_game b @ received_game (i # is)"
      "sent_engine b2 @ bu_engine b2 = sent_engine b @ bu_engine b @ received_engine (i # is)"
      using b1(6,7) b2(6,7) received_Cons [OF False] by (metis append.assoc)+
    show ?thesis
    proof (intro exI conjI)
      show "bundler_run (i # is) b = Inr b2" by (simp add: run b2(1) del: bundler_run.simps)
      show "map fb_frame (bu_out b2) = map fb_frame (bu_out b) @ [bu_frame b..bu_frame b2 - 1]"
        using b1(4,5) b2(4,5) by (simp add: upto_join)
    qed (use b1 b2 ev in auto)
  qed
qed

text \<open>The first frame: \<open>Start\<close> computes it from the clock, and the run begins there.\<close>

lemma bundler_start_ok:
  assumes "tstart (bu_ticker b) = Inr t" and "ep_frame_ms (bu_params b) \<noteq> 0" and "\<not> bu_closed b"
  shows "\<exists>b'. bundler_start tstart b = Inr b' \<and> bundler_ok b' \<and> bu_running b' \<and> bu_params b' = bu_params b \<and>
    bu_frame b' = i32 (i64 (bu_current_ms b sdiv ep_frame_ms (bu_params b))) \<and>
    bu_out b' = bu_out b \<and> bu_game b' = [] \<and> bu_engine b' = [] \<and> bu_current_ms b' = bu_current_ms b"
  using assms by (auto simp: bundler_start_def frame_of_def bundler_ok_def in_i32_i32)

section \<open>The clock\<close>

fun ticks :: "'e bundler_in list \<Rightarrow> int" where
  "ticks [] = 0"
| "ticks (Tick # is) = ticks is + 1"
| "ticks (i # is) = ticks is"

lemma ticks_nonneg: "0 \<le> ticks is"
  by (induction "is" rule: ticks.induct) auto

lemma sdiv_nonneg: "0 \<le> a \<Longrightarrow> 0 < b \<Longrightarrow> a sdiv b = a div (b :: int)"
  by (cases "a = 0") (auto simp: signed_divide_int_def sgn_if)

text \<open>
  Without clock adjustments the current frame is the number of whole frames on the clock, and
  the clock is its initial value plus the number of ticks.
\<close>

lemma bundler_clock:
  assumes "bundler_ok b" and "bu_running b" and "0 < ep_frame_ms (bu_params b)" and "0 \<le> bu_current_ms b"
    and "bu_frame b = bu_current_ms b div ep_frame_ms (bu_params b)"
    and "StopBundler \<notin> set is" and "\<forall>d. TimeDelta d \<notin> set is"
    and "(bu_current_ms b + ticks is) div ep_frame_ms (bu_params b) \<le> max_i32"
    and "bu_current_ms b + ticks is < 2 ^ 63" and "bundler_run is b = Inr b'"
  shows "bu_current_ms b' = bu_current_ms b + ticks is \<and>
         bu_frame b' = bu_current_ms b' div ep_frame_ms (bu_params b)"
  using assms
proof (induction "is" arbitrary: b)
  case Nil
  then show ?case by simp
next
  case (Cons i "is")
  let ?fm = "ep_frame_ms (bu_params b)"
  obtain b1 where b1: "bundler_step i b = Some (Inr b1)" "bundler_ok b1" "bu_params b1 = bu_params b"
    "bu_running b1 \<longleftrightarrow> i \<noteq> StopBundler"
    using bundler_step_ok [OF Cons.prems(1,2)] by blast
  have run: "bundler_run is b1 = Inr b'" using Cons.prems(10) by (simp add: b1(1) del: bundler_step.simps)
  have clock: "bu_current_ms b1 = bu_current_ms b + ticks [i] \<and> bu_frame b1 = bu_current_ms b1 div ?fm"
  proof (cases "i = Tick")
    case True
    let ?ms = "bu_current_ms b + 1"
    have le: "?ms \<le> bu_current_ms b + ticks (i # is)" using True ticks_nonneg [of "is"] by simp
    then have "?ms < 2 ^ 63" using Cons.prems(9) by linarith
    then have i64: "i64 ?ms = ?ms" using Cons.prems(4) by simp
    have dv: "0 \<le> ?ms div ?fm" "?ms div ?fm \<le> max_i32"
      using Cons.prems(3,4,8) zdiv_mono1 [OF le Cons.prems(3)] by (auto simp: pos_imp_zdiv_nonneg_iff)
    have "i64 (?ms div ?fm) = ?ms div ?fm" using dv by simp
    then have "frame_of (bu_params b) (i64 ?ms) = Inr (?ms div ?fm)"
      unfolding frame_of_def i64 using Cons.prems(3,4) dv by (simp add: sdiv_nonneg)
    then have "on_tick b = Inr (ticked (b\<lparr>bu_current_ms := i64 ?ms\<rparr>) (?ms div ?fm))"
      using Cons.prems(1,2) by (intro on_tick_eq) (auto simp: bundler_ok_def)
    then have b1': "b1 = ticked (b\<lparr>bu_current_ms := i64 ?ms\<rparr>) (?ms div ?fm)"
      using b1(1) Cons.prems(2) True by simp
    have "bu_current_ms b div ?fm \<le> ?ms div ?fm" by (rule zdiv_mono1) (use Cons.prems(3) in auto)
    then show ?thesis using True Cons.prems(5) by (simp add: b1' i64 max_def)
  next
    case False
    then show ?thesis using b1(1) Cons.prems(2,5,6,7) by (cases i) auto
  qed
  have tk: "ticks (i # is) = ticks [i] + ticks is" by (cases i) auto
  have "bu_current_ms b' = bu_current_ms b1 + ticks is \<and> bu_frame b' = bu_current_ms b' div ep_frame_ms (bu_params b1)"
    using clock b1 Cons.prems tk ticks_nonneg [of "[i]"] run
    by (intro Cons.IH) (auto simp: add.assoc)
  then show ?case using clock tk b1(3) by simp
qed

end
