(* ===== verification/Auditor.thy ===== *)
theory Auditor
  imports Events
begin

text \<open>
  The auditor of \<open>core/auditor.go\<close>, which passes remote bundles on. A receive from the closed
  channel \<open>Raw_remote_bundles\<close> (the Communicator closes it on shutdown) does not block and gives
  the zero bundle, which is passed on as well.
\<close>

datatype 'e raw_in = RawBundle "'e frame_bundle" | RawClosed

definition zero_frame_bundle :: "'e frame_bundle" where
  "zero_frame_bundle = \<lparr>fb_frame = 0, fb_bundle = None\<rparr>"

fun auditor_step :: "'e raw_in \<Rightarrow> 'e frame_bundle list \<Rightarrow> 'e frame_bundle list" where
  "auditor_step (RawBundle b) out = out @ [b]"
| "auditor_step RawClosed out = out @ [zero_frame_bundle]"

definition auditor_run :: "'e raw_in list \<Rightarrow> 'e frame_bundle list" where
  "auditor_run is = fold auditor_step is []"

lemma auditor_run_append: "fold auditor_step is out = out @ auditor_run is"
proof -
  have "fold auditor_step is (xs @ ys) = xs @ fold auditor_step is ys" for xs ys
  proof (induction "is" arbitrary: ys)
    case (Cons i "is")
    then show ?case using Cons.IH [of "auditor_step i ys"] by (cases i) auto
  qed simp
  from this [of out "[]"] show ?thesis by (simp add: auditor_run_def)
qed

lemma auditor_passes: "auditor_run (map RawBundle bs) = bs"
proof (induction bs)
  case (Cons b bs)
  then show ?case using auditor_run_append [of "map RawBundle bs" "[b]"] by (simp add: auditor_run_def)
qed (simp add: auditor_run_def)

lemma auditor_after_close:
  "auditor_run (map RawBundle bs @ replicate n RawClosed) = bs @ replicate n zero_frame_bundle"
proof -
  have "auditor_run (replicate n RawClosed) = (replicate n zero_frame_bundle :: 'a frame_bundle list)"
  proof (induction n)
    case (Suc n)
    then show ?case using auditor_run_append [of "replicate n RawClosed" "[zero_frame_bundle :: 'a frame_bundle]"]
      by (simp add: auditor_run_def)
  qed (simp add: auditor_run_def)
  then show ?thesis using auditor_run_append [of "replicate n RawClosed" bs] auditor_passes [of bs]
    by (simp add: auditor_run_def)
qed

end
