(* ===== verification/Communicator.thy ===== *)
theory Communicator
  imports Auditor
begin

text \<open>
  The communicator of \<open>core/communicator.go\<close>: it distributes bundles among the connections,
  bootstraps new connections and joins a host. Connections are numbers. A message that a
  goroutine of its own delivers (\<open>go conn.SendFrameBundle\<close>, and the send to the Auditor) is
  recorded as spawned, since nothing orders its delivery. \<open>encoding/gob\<close> as used by
  \<open>QuickGobEncode\<close> and \<open>QuickGobDecode\<close> is a pair of arguments \<open>enc\<close> and \<open>dec\<close>.
\<close>

section \<open>Model\<close>

text \<open>A \<open>BootstrapFrame\<close> as gob transmits it, with the game's value.\<close>

record 'g boot_message =
  bm_frame :: int
  bm_game :: 'g
  bm_info :: engine_info

datatype 'g payload =
    InitialData int engine_id      \<comment> \<open>\<open>bootstrapInitialData\<close>: \<open>Horizon\<close> and \<open>Id\<close>\<close>
  | BootData "'g boot_message"
  | ReadyData bool

record pending_boot =
  pb_conn :: nat
  pb_start :: int

datatype ('e, 'w) comm_out =
    SendData nat 'w
  | SpawnBundle nat "'e frame_bundle"
  | SpawnRaw "'e frame_bundle"
  | RawInOrder "'e frame_bundle list"   \<comment> \<open>one goroutine sends them to the Auditor in this order\<close>
  | EngineEventOut engine_event
  | CloseConn nat
  | CloseFanIn
  | CloseRaw

datatype comm_phase = CommRunning | CommClosing | CommStopped

record ('e, 'w) communicator =
  cm_host_conn :: "nat option"
  cm_conns :: "nat list"
  cm_bootstraps :: "pending_boot list"
  cm_horizon :: int
  cm_active :: int                            \<comment> \<open>the counter of \<open>active_conns\<close>\<close>
  cm_waiting :: "(nat \<times> engine_id) list"      \<comment> \<open>the running \<open>bootstrapRoutine\<close>s\<close>
  cm_routines :: "nat list"                   \<comment> \<open>the running \<open>connRoutine\<close>s\<close>
  cm_phase :: comm_phase
  cm_out :: "('e, 'w) comm_out list"

definition zero_communicator :: "nat option \<Rightarrow> ('e, 'w) communicator" where
  "zero_communicator hc =
     \<lparr>cm_host_conn = hc, cm_conns = [], cm_bootstraps = [], cm_horizon = 0, cm_active = 0,
      cm_waiting = [], cm_routines = [], cm_phase = CommStopped, cm_out = []\<rparr>"

definition comm_start :: "('e, 'w) communicator \<Rightarrow> ('e, 'w) communicator" where
  "comm_start c =
     (case cm_host_conn c of
        None \<Rightarrow> c\<lparr>cm_phase := CommRunning\<rparr>
      | Some hc \<Rightarrow> c\<lparr>cm_conns := cm_conns c @ [hc], cm_active := cm_active c + 1,
                     cm_routines := cm_routines c @ [hc], cm_phase := CommRunning\<rparr>)"

definition num_conns :: "('e, 'w) communicator \<Rightarrow> int" where
  "num_conns c = int (length (cm_conns c))"

text \<open>The cases of \<open>routine\<close>, as updates of the state.\<close>

definition on_new_conn :: "('g payload \<Rightarrow> 'w option) \<Rightarrow> nat \<Rightarrow> int \<Rightarrow> ('e, 'w) communicator \<Rightarrow> ('e, 'w) communicator" where
  "on_new_conn enc conn rid c =
     (let s = i32 (cm_horizon c + 1) in
      case enc (InitialData s (EngineId rid)) of
        None \<Rightarrow> c
      | Some w \<Rightarrow> c\<lparr>cm_out := cm_out c @ [SendData conn w], cm_conns := cm_conns c @ [conn],
                    cm_bootstraps := cm_bootstraps c @ [\<lparr>pb_conn = conn, pb_start = s\<rparr>],
                    cm_active := cm_active c + 1, cm_waiting := cm_waiting c @ [(conn, EngineId rid)]\<rparr>)"

definition see_frame :: "int \<Rightarrow> ('e, 'w) communicator \<Rightarrow> ('e, 'w) communicator" where
  "see_frame f c = (if cm_horizon c < f then c\<lparr>cm_horizon := f\<rparr> else c)"

definition on_broadcast :: "'e frame_bundle \<Rightarrow> ('e, 'w) communicator \<Rightarrow> ('e, 'w) communicator" where
  "on_broadcast b c =
     (let c1 = see_frame (fb_frame b) c
      in c1\<lparr>cm_out := cm_out c1 @ map (\<lambda>k. SpawnBundle k b) (cm_conns c1)\<rparr>)"

definition on_remote :: "'e frame_bundle \<Rightarrow> nat \<Rightarrow> ('e, 'w) communicator \<Rightarrow> ('e, 'w) communicator" where
  "on_remote b src c =
     (let c1 = see_frame (fb_frame b) c
      in c1\<lparr>cm_out := cm_out c1 @ SpawnRaw b # map (\<lambda>k. SpawnBundle k b) (filter (\<lambda>k. k \<noteq> src) (cm_conns c1))\<rparr>)"

definition send_boot :: "('g payload \<Rightarrow> 'w option) \<Rightarrow> 'g boot_message \<Rightarrow> pending_boot \<Rightarrow>
  ('e, 'w) communicator \<Rightarrow> go_panic + ('e, 'w) communicator" where
  "send_boot enc bf pb c =
     (if bm_frame bf = pb_start pb
      then case enc (BootData bf) of
             None \<Rightarrow> Inl UserPanic
           | Some w \<Rightarrow> Inr (c\<lparr>cm_out := cm_out c @ [SendData (pb_conn pb) w]\<rparr>)
      else Inr c)"

definition on_boot_frame :: "('g payload \<Rightarrow> 'w option) \<Rightarrow> 'g boot_message \<Rightarrow>
  ('e, 'w) communicator \<Rightarrow> go_panic + ('e, 'w) communicator" where
  "on_boot_frame enc bf c =
     seq (fold_res (send_boot enc bf) (cm_bootstraps c) c) (\<lambda>c1.
     Inr (c1\<lparr>cm_bootstraps := snd (sweep (\<lambda>pb. bm_frame bf = pb_start pb) 0 (cm_bootstraps c1))\<rparr>))"

definition on_comm_shutdown :: "('e, 'w) communicator \<Rightarrow> ('e, 'w) communicator" where
  "on_comm_shutdown c = c\<lparr>cm_out := cm_out c @ map CloseConn (cm_conns c), cm_phase := CommClosing\<rparr>"

text \<open>The goroutine of a joining connection: one receive, \<open>None\<close> when the channel is closed.\<close>

definition confirmed :: "('w \<Rightarrow> 'g payload option) \<Rightarrow> 'w option \<Rightarrow> bool" where
  "confirmed dec data = (case data of None \<Rightarrow> False | Some w \<Rightarrow> dec w = Some (ReadyData True))"

definition bootstrap_routine :: "('w \<Rightarrow> 'g payload option) \<Rightarrow> nat \<Rightarrow> engine_id \<Rightarrow> 'w option \<Rightarrow>
  ('e, 'w) communicator \<Rightarrow> ('e, 'w) communicator" where
  "bootstrap_routine dec conn i data c =
     (let c1 = c\<lparr>cm_waiting := remove1 (conn, i) (cm_waiting c)\<rparr> in
      if confirmed dec data
      then c1\<lparr>cm_out := cm_out c1 @ [EngineEventOut (EngineJoined i)], cm_routines := cm_routines c1 @ [conn]\<rparr>
      else c1\<lparr>cm_out := cm_out c1 @ [CloseConn conn]\<rparr>)"

datatype ('e, 'g, 'w) comm_in =
    NewConn nat int                       \<comment> \<open>from \<open>NewConns()\<close>, with the \<open>RandomId()\<close> it is given\<close>
  | BroadcastBundle "'e frame_bundle"
  | RemoteBundle "'e frame_bundle" nat
  | BootFrame "'g boot_message"
  | StopComm
  | BootReply nat engine_id "'w option"   \<comment> \<open>a \<open>bootstrapRoutine\<close> receives\<close>
  | ConnDone nat                          \<comment> \<open>a \<open>connRoutine\<close> ends\<close>
  | WaitReturns                           \<comment> \<open>\<open>active_conns.Wait()\<close> returns\<close>

text \<open>One step of the communicator or of one of its goroutines; \<open>None\<close>: it is not enabled.\<close>

fun comm_step :: "('g payload \<Rightarrow> 'w option) \<Rightarrow> ('w \<Rightarrow> 'g payload option) \<Rightarrow> ('e, 'g, 'w) comm_in \<Rightarrow>
  ('e, 'w) communicator \<Rightarrow> (go_panic + ('e, 'w) communicator) option" where
  "comm_step enc dec (NewConn k rid) c =
     (if cm_phase c = CommRunning then Some (Inr (on_new_conn enc k rid c)) else None)"
| "comm_step enc dec (BroadcastBundle b) c =
     (if cm_phase c = CommRunning then Some (Inr (on_broadcast b c)) else None)"
| "comm_step enc dec (RemoteBundle b src) c =
     (if cm_phase c = CommRunning then Some (Inr (on_remote b src c)) else None)"
| "comm_step enc dec (BootFrame bf) c =
     (if cm_phase c = CommRunning then Some (on_boot_frame enc bf c) else None)"
| "comm_step enc dec StopComm c =
     (if cm_phase c = CommRunning then Some (Inr (on_comm_shutdown c)) else None)"
| "comm_step enc dec (BootReply k i data) c =
     (if (k, i) \<in> set (cm_waiting c) then Some (Inr (bootstrap_routine dec k i data c)) else None)"
| "comm_step enc dec (ConnDone k) c =
     (if k \<in> set (cm_routines c)
      then Some (Inr (c\<lparr>cm_routines := remove1 k (cm_routines c), cm_active := cm_active c - 1\<rparr>)) else None)"
| "comm_step enc dec WaitReturns c =
     (if cm_phase c = CommClosing \<and> cm_active c = 0
      then Some (Inr (c\<lparr>cm_out := cm_out c @ [CloseFanIn, CloseRaw], cm_phase := CommStopped\<rparr>)) else None)"

text \<open>The run of a list of steps, all of which must be enabled.\<close>

fun comm_run :: "('g payload \<Rightarrow> 'w option) \<Rightarrow> ('w \<Rightarrow> 'g payload option) \<Rightarrow> ('e, 'g, 'w) comm_in list \<Rightarrow>
  ('e, 'w) communicator \<Rightarrow> (go_panic + ('e, 'w) communicator) option" where
  "comm_run enc dec [] c = Some (Inr c)"
| "comm_run enc dec (i # is) c =
     (case comm_step enc dec i c of
        None \<Rightarrow> None
      | Some (Inl err) \<Rightarrow> Some (Inl err)
      | Some (Inr c') \<Rightarrow> comm_run enc dec is c')"

text \<open>
  \<open>connRoutine\<close>: what one connection delivers until it dies, and whether it is still alive.
  The bundle that comes with \<open>ok = false\<close> (the zero bundle of a closed channel) is forwarded too.
\<close>

datatype 'e conn_in = ConnData bool | ConnBundle "'e frame_bundle" bool

fun conn_routine :: "'e conn_in list \<Rightarrow> 'e frame_bundle list \<times> bool" where
  "conn_routine [] = ([], True)"
| "conn_routine (ConnData ok # is) = (if ok then conn_routine is else ([], False))"
| "conn_routine (ConnBundle b ok # is) =
     (if ok then case conn_routine is of (bs, alive) \<Rightarrow> (b # bs, alive) else ([b], False))"

text \<open>
  \<open>Join\<close>: the client's half of the handshake, over the first datum and the receives that its
  \<open>select\<close> performs after that. \<open>JoinWaiting\<close>: still blocked. The answer carries the bundles kept for the Auditor and the confirmation sent.
\<close>

datatype ('e, 'w) join_in = JoinData "'w option" | JoinBundle "'e frame_bundle"

datatype ('e, 'g, 'w) join_result =
    JoinWaiting
  | JoinFailed
  | Joined "'g boot_message" engine_id "'e frame_bundle list" 'w

definition decode_with :: "('w \<Rightarrow> 'g payload option) \<Rightarrow> 'w option \<Rightarrow> 'g payload option" where
  "decode_with dec data = (case data of None \<Rightarrow> None | Some w \<Rightarrow> dec w)"

fun join_loop :: "('g payload \<Rightarrow> 'w option) \<Rightarrow> ('w \<Rightarrow> 'g payload option) \<Rightarrow> int \<Rightarrow> engine_id \<Rightarrow>
  'e frame_bundle list \<Rightarrow> ('e, 'w) join_in list \<Rightarrow> ('e, 'g, 'w) join_result" where
  "join_loop enc dec hz i buf [] = JoinWaiting"
| "join_loop enc dec hz i buf (JoinBundle b # is) =
     join_loop enc dec hz i (if hz < fb_frame b then buf @ [b] else buf) is"
| "join_loop enc dec hz i buf (JoinData data # is) =
     (case decode_with dec data of
        Some (BootData bf) \<Rightarrow>
          (case enc (ReadyData True) of None \<Rightarrow> JoinFailed | Some w \<Rightarrow> Joined bf i buf w)
      | _ \<Rightarrow> JoinFailed)"

definition join_conn :: "('g payload \<Rightarrow> 'w option) \<Rightarrow> ('w \<Rightarrow> 'g payload option) \<Rightarrow> 'w option \<Rightarrow>
  ('e, 'w) join_in list \<Rightarrow> ('e, 'g, 'w) join_result" where
  "join_conn enc dec data is =
     (case decode_with dec data of
        Some (InitialData hz i) \<Rightarrow> join_loop enc dec hz i [] is
      | _ \<Rightarrow> JoinFailed)"

text \<open>The effect of \<open>Join\<close> on the communicator, with what it returns on success.\<close>

definition comm_join :: "('g payload \<Rightarrow> 'w option) \<Rightarrow> ('w \<Rightarrow> 'g payload option) \<Rightarrow> nat \<Rightarrow> 'w option \<Rightarrow>
  ('e, 'w) join_in list \<Rightarrow> ('e, 'w) communicator \<Rightarrow>
  (('e, 'w) communicator \<times> ('g boot_message \<times> engine_id) option) option" where
  "comm_join enc dec conn data is c =
     (case join_conn enc dec data is of
        JoinWaiting \<Rightarrow> None
      | JoinFailed \<Rightarrow> Some (c\<lparr>cm_out := cm_out c @ [CloseConn conn]\<rparr>, None)
      | Joined bf i buf w \<Rightarrow>
          Some (c\<lparr>cm_out := cm_out c @ [SendData conn w, RawInOrder buf], cm_host_conn := Some conn\<rparr>, Some (bf, i)))"

section \<open>The horizon and the bundles a connection is sent\<close>

text \<open>The bundles a step handles, with the connection they came from.\<close>

fun handled :: "('e, 'g, 'w) comm_in \<Rightarrow> ('e frame_bundle \<times> nat option) list" where
  "handled (BroadcastBundle b) = [(b, None)]"
| "handled (RemoteBundle b src) = [(b, Some src)]"
| "handled _ = []"

lemma see_frame_simps [simp]:
  "cm_horizon (see_frame f c) = max (cm_horizon c) f" "cm_conns (see_frame f c) = cm_conns c"
  "cm_out (see_frame f c) = cm_out c" "cm_bootstraps (see_frame f c) = cm_bootstraps c"
  "cm_active (see_frame f c) = cm_active c" "cm_waiting (see_frame f c) = cm_waiting c"
  "cm_routines (see_frame f c) = cm_routines c" "cm_phase (see_frame f c) = cm_phase c"
  by (auto simp: see_frame_def)

definition boot_sends :: "('g payload \<Rightarrow> 'w option) \<Rightarrow> 'g boot_message \<Rightarrow> pending_boot list \<Rightarrow> ('e, 'w) comm_out list" where
  "boot_sends enc bf pbs = map (\<lambda>pb. SendData (pb_conn pb) (the (enc (BootData bf))))
     (filter (\<lambda>pb. bm_frame bf = pb_start pb) pbs)"

lemma send_boots_eq:
  assumes "enc (BootData bf) \<noteq> None"
  shows "fold_res (send_boot enc bf) pbs c = Inr (c\<lparr>cm_out := cm_out c @ boot_sends enc bf pbs\<rparr>)"
proof (induction pbs arbitrary: c)
  case (Cons pb pbs)
  then show ?case using assms by (auto simp: send_boot_def boot_sends_def)
qed (simp add: boot_sends_def)

lemma send_boots_Inr:
  "fold_res (send_boot enc bf) pbs c = Inr c' \<Longrightarrow> c' = c\<lparr>cm_out := cm_out c @ boot_sends enc bf pbs\<rparr>"
proof (induction pbs arbitrary: c)
  case (Cons pb pbs)
  then obtain c1 where c1: "send_boot enc bf pb c = Inr c1" "fold_res (send_boot enc bf) pbs c1 = Inr c'"
    by (auto simp: seq_Inr_iff)
  from Cons.IH [OF c1(2)] c1(1) show ?case
    by (auto simp: send_boot_def boot_sends_def split: if_splits option.splits)
qed (simp add: boot_sends_def)

lemma on_boot_frame_Inr:
  assumes "on_boot_frame enc bf c = Inr c'"
  shows "c' = c\<lparr>cm_out := cm_out c @ boot_sends enc bf (cm_bootstraps c),
               cm_bootstraps := snd (sweep (\<lambda>pb. bm_frame bf = pb_start pb) 0 (cm_bootstraps c))\<rparr>"
  using assms by (auto simp: on_boot_frame_def seq_Inr_iff dest!: send_boots_Inr)

lemma send_boots_enc:
  "fold_res (send_boot enc bf) pbs c = Inr c' \<Longrightarrow> \<exists>pb \<in> set pbs. bm_frame bf = pb_start pb \<Longrightarrow> enc (BootData bf) \<noteq> None"
  by (induction pbs arbitrary: c) (auto simp: seq_Inr_iff send_boot_def split: if_splits option.splits)

text \<open>The data sent on a connection, in order.\<close>

fun sent_data :: "nat \<Rightarrow> ('e, 'w) comm_out list \<Rightarrow> 'w list" where
  "sent_data k [] = []"
| "sent_data k (SendData j w # ms) = (if j = k then w # sent_data k ms else sent_data k ms)"
| "sent_data k (m # ms) = sent_data k ms"

lemma sent_data_append [simp]: "sent_data k (xs @ ys) = sent_data k xs @ sent_data k ys"
  by (induction xs rule: sent_data.induct) auto

text \<open>Connections and messages only grow, and so does the horizon.\<close>

lemma comm_step_mono:
  assumes "comm_step enc dec i c = Some (Inr c')"
  shows "set (cm_conns c) \<subseteq> set (cm_conns c')" and "set (cm_out c) \<subseteq> set (cm_out c')"
    and "cm_horizon c \<le> cm_horizon c'"
    and "\<And>b src. (b, src) \<in> set (handled i) \<Longrightarrow> fb_frame b \<le> cm_horizon c'"
  using assms
  by (cases i; auto simp: on_new_conn_def on_broadcast_def on_remote_def on_comm_shutdown_def
      bootstrap_routine_def Let_def split: if_splits option.splits dest!: on_boot_frame_Inr)+

lemma comm_step_sends:
  assumes "comm_step enc dec i c = Some (Inr c')" and "(b, src) \<in> set (handled i)"
    and "k \<in> set (cm_conns c)" and "src \<noteq> Some k"
  shows "SpawnBundle k b \<in> set (cm_out c')"
  using assms by (cases i) (auto simp: on_broadcast_def on_remote_def Let_def split: if_splits)

lemma comm_run_Cons:
  "comm_run enc dec (i # is) c = Some (Inr c') \<longleftrightarrow>
   (\<exists>c1. comm_step enc dec i c = Some (Inr c1) \<and> comm_run enc dec is c1 = Some (Inr c'))"
  by (auto split: option.splits sum.splits)

declare comm_run.simps(2) [simp del]

lemma comm_run_append:
  "comm_run enc dec (is @ js) c = Some (Inr c') \<longleftrightarrow>
   (\<exists>c1. comm_run enc dec is c = Some (Inr c1) \<and> comm_run enc dec js c1 = Some (Inr c'))"
  by (induction "is" arbitrary: c) (auto simp: comm_run_Cons)

lemma comm_run_mono:
  assumes "comm_run enc dec is c = Some (Inr c')"
  shows "set (cm_conns c) \<subseteq> set (cm_conns c')" and "set (cm_out c) \<subseteq> set (cm_out c')"
    and "cm_horizon c \<le> cm_horizon c'"
    and "(b, src) \<in> set (concat (map handled is)) \<Longrightarrow> fb_frame b \<le> cm_horizon c'"
  using assms
proof (induction "is" arbitrary: c)
  case (Cons i "is")
  {
    case 1 then show ?case using Cons.IH(1) comm_step_mono(1) by (fastforce simp: comm_run_Cons)
  next
    case 2 then show ?case using Cons.IH(2) comm_step_mono(2) by (fastforce simp: comm_run_Cons)
  next
    case 3 then show ?case using Cons.IH(3) comm_step_mono(3) by (fastforce simp: comm_run_Cons)
  next
    case 4
    then obtain c1 where c1: "comm_step enc dec i c = Some (Inr c1)" "comm_run enc dec is c1 = Some (Inr c')"
      by (auto simp: comm_run_Cons)
    show ?case
    proof (cases "(b, src) \<in> set (handled i)")
      case True
      then have "fb_frame b \<le> cm_horizon c1" using comm_step_mono(4) [OF c1(1)] by blast
      then show ?thesis using Cons.IH(3) [OF c1(2)] by simp
    next
      case False
      then show ?thesis using 4 Cons.IH(4) [OF _ c1(2)] by simp
    qed
  }
qed auto

lemma comm_run_sends:
  assumes "comm_run enc dec is c = Some (Inr c')" and "(b, src) \<in> set (concat (map handled is))"
    and "k \<in> set (cm_conns c)" and "src \<noteq> Some k"
  shows "SpawnBundle k b \<in> set (cm_out c')"
  using assms
proof (induction "is" arbitrary: c)
  case (Cons i "is")
  then obtain c1 where c1: "comm_step enc dec i c = Some (Inr c1)" "comm_run enc dec is c1 = Some (Inr c')"
    by (auto simp: comm_run_Cons)
  show ?case
  proof (cases "(b, src) \<in> set (handled i)")
    case True
    then have "SpawnBundle k b \<in> set (cm_out c1)" using comm_step_sends [OF c1(1)] Cons.prems by blast
    then show ?thesis using comm_run_mono(2) [OF c1(2)] by blast
  next
    case False
    then show ?thesis using Cons.prems Cons.IH [OF c1(2)] comm_step_mono(1) [OF c1(1)] by auto
  qed
qed simp

section \<open>The count of live connections\<close>

text \<open>
  \<open>active_conns\<close> counts the connections whose \<open>connRoutine\<close> or \<open>bootstrapRoutine\<close> runs and, for
  ever, those whose bootstrap failed.
\<close>

definition lost_conns :: "('e, 'w) communicator \<Rightarrow> int" where
  "lost_conns c = cm_active c - int (length (cm_routines c)) - int (length (cm_waiting c))"

fun failed_boot :: "('w \<Rightarrow> 'g payload option) \<Rightarrow> ('e, 'g, 'w) comm_in \<Rightarrow> bool" where
  "failed_boot dec (BootReply k i data) = (\<not> confirmed dec data)"
| "failed_boot dec _ = False"

lemma int_length_remove1: "x \<in> set xs \<Longrightarrow> int (length (remove1 x xs)) = int (length xs) - 1"
  by (induction xs) auto

lemma comm_step_lost:
  assumes "comm_step enc dec i c = Some (Inr c')"
  shows "lost_conns c' = lost_conns c + (if failed_boot dec i then 1 else 0)"
proof (cases i)
  case (BootReply k j data)
  then have "(k, j) \<in> set (cm_waiting c)" using assms by (auto split: if_splits)
  then have "int (length (remove1 (k, j) (cm_waiting c))) = int (length (cm_waiting c)) - 1"
    by (rule int_length_remove1)
  then show ?thesis using assms BootReply
    by (auto simp: lost_conns_def bootstrap_routine_def Let_def split: if_splits)
next
  case (ConnDone k)
  then have k: "k \<in> set (cm_routines c)" using assms by (auto split: if_splits)
  then have "int (length (remove1 k (cm_routines c))) = int (length (cm_routines c)) - 1"
    by (rule int_length_remove1)
  then show ?thesis using assms ConnDone k by (auto simp: lost_conns_def)
qed (use assms in \<open>auto simp: lost_conns_def on_new_conn_def on_broadcast_def on_remote_def
      on_comm_shutdown_def Let_def split: if_splits option.splits dest!: on_boot_frame_Inr\<close>)

lemma comm_run_lost:
  "comm_run enc dec is c = Some (Inr c') \<Longrightarrow>
   lost_conns c' = lost_conns c + int (length (filter (failed_boot dec) is))"
proof (induction "is" arbitrary: c)
  case (Cons i "is")
  then show ?case by (auto simp: comm_run_Cons dest!: comm_step_lost)
qed simp

lemma comm_start_lost: "lost_conns (comm_start (zero_communicator hc)) = 0"
  by (simp add: comm_start_def zero_communicator_def lost_conns_def split: option.splits)

section \<open>The handshake\<close>

lemma join_loop_bundles:
  "join_loop enc dec hz i buf (map JoinBundle bs @ is) =
   join_loop enc dec hz i (buf @ filter (\<lambda>b. hz < fb_frame b) bs) is"
  by (induction bs arbitrary: buf) auto

end
