(* ===== verification/Network_Standard.thy ===== *)
theory Network_Standard
  imports Events
begin

text \<open>
  The network over UDP and TCP of \<open>core/network_standard.go\<close>: the ping and join handshakes and the
  goroutines of a connection; hosting is in \<open>Hosting\<close>. What the \<open>net\<close> package returns at each call is
  an argument; the gob stream on a connection is a pair of arguments \<open>enc\<close> and \<open>dec\<close>.
\<close>

section \<open>Ping\<close>

datatype net_fault = CannotResolve | CannotDial | CannotWrite | CannotRead | CannotListen | CannotSetDeadline

record std_host =
  sh_data :: string
  sh_ip :: string
  sh_port :: int

text \<open>The server: what it answers to a packet (at most 1024 bytes of it are read).\<close>

definition ping_answer :: "(string \<Rightarrow> 'err + string) \<Rightarrow> string \<Rightarrow> string option" where
  "ping_answer ping packet = (case ping (take 1024 packet) of Inl _ \<Rightarrow> None | Inr resp \<Rightarrow> Some resp)"

text \<open>
  The loop of the ping routine. What one round meets is a failing \<open>SetDeadline\<close>, the timeout of the
  read, another read error or a packet. The kill signal (\<open>die\<close>: somebody is sending it) is looked at
  only after a packet; after a failure a goroutine is left that waits for it (\<open>Draining\<close>).
\<close>

datatype ping_in = DeadlineFails | PollTimeout | ReadFails | Packet string

datatype ping_phase = Polling | Draining | PingGone

fun ping_step :: "(string \<Rightarrow> 'err + string) \<Rightarrow> bool \<Rightarrow> ping_in \<Rightarrow> ping_phase \<times> string list \<Rightarrow> ping_phase \<times> string list" where
  "ping_step ping die i (Polling, out) =
     (case i of
        DeadlineFails \<Rightarrow> (if die then PingGone else Draining, out)
      | PollTimeout \<Rightarrow> (Polling, out)
      | ReadFails \<Rightarrow> (if die then PingGone else Draining, out)
      | Packet p \<Rightarrow> if die then (PingGone, out)
                    else (Polling, case ping_answer ping p of None \<Rightarrow> out | Some r \<Rightarrow> out @ [r]))"
| "ping_step ping die i (Draining, out) = (if die then PingGone else Draining, out)"
| "ping_step ping die i (PingGone, out) = (PingGone, out)"

text \<open>
  The client: the first failing call, if any, and otherwise one host per packet that arrives
  before the deadline, which ends the loop without an error.
\<close>

definition handle_ping :: "net_fault option \<Rightarrow> std_host list \<Rightarrow> net_fault + std_host list" where
  "handle_ping fault packets =
     (case fault of
        Some f \<Rightarrow> Inl f
      | None \<Rightarrow> Inr (fold (\<lambda>p hosts. hosts @ [p\<lparr>sh_data := take 2048 (sh_data p)\<rparr>]) packets []))"

lemma handle_ping_eq: "handle_ping None packets = Inr (map (\<lambda>p. p\<lparr>sh_data := take 2048 (sh_data p)\<rparr>) packets)"
proof -
  have "fold (\<lambda>p hosts. hosts @ [p\<lparr>sh_data := take 2048 (sh_data p)\<rparr>]) packets acc =
        acc @ map (\<lambda>p. p\<lparr>sh_data := take 2048 (sh_data p)\<rparr>) packets" for acc
    by (induction packets arbitrary: acc) auto
  then show ?thesis by (simp add: handle_ping_def)
qed

section \<open>Join\<close>

text \<open>
  The server's half for one accepted connection: what the read gave (\<open>None\<close>: an error), the answer
  it writes, whether the write succeeds, and whether a connection is made. The callback is nil
  when hosting was turned off after the connection was accepted.
\<close>

definition join_answer :: "(string \<Rightarrow> string option) \<Rightarrow> string \<Rightarrow> string \<times> bool" where
  "join_answer join request =
     (case join (take 1024 request) of
        Some err \<Rightarrow> (''FAIL: '' @ err, False)
      | None \<Rightarrow> (''SUCCESS'', True))"

definition accept_conn :: "(string \<Rightarrow> string option) option \<Rightarrow> string option \<Rightarrow> bool \<Rightarrow> go_panic + string option \<times> bool" where
  "accept_conn join read write_ok =
     (case read of
        None \<Rightarrow> Inr (None, False)
      | Some request \<Rightarrow>
          (case join of
             None \<Rightarrow> Inl NilDereference
           | Some f \<Rightarrow> Inr (Some (fst (join_answer f request)), snd (join_answer f request) \<and> write_ok)))"

datatype join_fault = InvalidRemote | JoinNet net_fault | JoinRejected string

text \<open>The client's half. The buffer of 1024 zero bytes receives at most as many bytes.\<close>

definition read_buf :: "string \<Rightarrow> string" where
  "read_buf reply = take 1024 reply @ replicate (1024 - length (take 1024 reply)) (CHR 0x00)"

definition handle_join :: "net_fault option \<Rightarrow> string \<Rightarrow> join_fault + unit" where
  "handle_join fault reply =
     (case fault of
        Some f \<Rightarrow> Inl (JoinNet f)
      | None \<Rightarrow>
          if take 4 (read_buf reply) = ''FAIL''
          then Inl (JoinRejected (take (length (take 1024 reply)) (read_buf reply)))
          else Inr ())"

text \<open>\<open>Join\<close>: the remote must be a host that \<open>Ping\<close> of this network returned (\<open>Some\<close>).\<close>

definition std_join :: "std_host option \<Rightarrow> net_fault option \<Rightarrow> string \<Rightarrow> join_fault + unit" where
  "std_join remote fault reply = (case remote of None \<Rightarrow> Inl InvalidRemote | Some _ \<Rightarrow> handle_join fault reply)"

text \<open>What the client makes of the first bytes of each answer.\<close>

lemma read_buf_take:
  "take (length (take 1024 reply)) (read_buf reply) = take 1024 reply"
  "take 4 (read_buf reply) = take 4 reply @ replicate (4 - length reply) (CHR 0x00)"
  by (simp add: read_buf_def take_append) (auto simp: read_buf_def min_def take_append)

lemma handle_join_fault: "handle_join (Some f) reply = Inl (JoinNet f)"
  by (simp add: handle_join_def)

lemma handle_join_success: "handle_join None (take k ''SUCCESS'') = Inr ()"
proof -
  have "take 4 (read_buf (take k ''SUCCESS'')) \<noteq> ''FAIL''"
    unfolding read_buf_take(2) by (cases k) (auto simp: numeral_eq_Suc)
  then show ?thesis by (simp add: handle_join_def)
qed

lemma handle_join_fail: "handle_join None (take k (''FAIL: '' @ err)) =
  (if k < 4 then Inr () else Inl (JoinRejected (take 1024 (take k (''FAIL: '' @ err)))))"
proof -
  have "take 4 (read_buf (take k (''FAIL: '' @ err))) = ''FAIL'' \<longleftrightarrow> 4 \<le> k"
  proof (cases "4 \<le> k")
    case True
    then show ?thesis by (simp add: read_buf_take(2) min_def)
  next
    case False
    then have "k = 0 \<or> k = 1 \<or> k = 2 \<or> k = 3" by auto
    then show ?thesis unfolding read_buf_take(2) by (auto simp: numeral_eq_Suc)
  qed
  then show ?thesis unfolding handle_join_def read_buf_take(1) by auto
qed

section \<open>The queues of a connection\<close>

text \<open>
  \<open>sendRoutine\<close>, \<open>recvDataRoutine\<close> and \<open>recvBundleRoutine\<close> buffer without bound. The case that
  sends on the outgoing channel is disabled (a nil channel) while the queue is empty.
\<close>

datatype 'm queue_act = QueuePut 'm | QueueGet

fun queue_step :: "'m queue_act \<Rightarrow> 'm list \<times> 'm list \<Rightarrow> ('m list \<times> 'm list) option" where
  "queue_step (QueuePut m) (q, out) = Some (q @ [m], out)"
| "queue_step QueueGet (q, out) = (if q = [] then None else Some (tl q, out @ [hd q]))"

fun queue_run :: "'m queue_act list \<Rightarrow> 'm list \<times> 'm list \<Rightarrow> ('m list \<times> 'm list) option" where
  "queue_run [] s = Some s"
| "queue_run (a # as) s = (case queue_step a s of None \<Rightarrow> None | Some s' \<Rightarrow> queue_run as s')"

fun queue_puts :: "'m queue_act list \<Rightarrow> 'm list" where
  "queue_puts [] = []"
| "queue_puts (QueuePut m # as) = m # queue_puts as"
| "queue_puts (QueueGet # as) = queue_puts as"

lemma queue_run_fifo:
  "queue_run as (q, out) = Some (q', out') \<Longrightarrow> out' @ q' = out @ q @ queue_puts as"
proof (induction as arbitrary: q out)
  case (Cons a as)
  then show ?case by (cases a) (auto split: if_splits)
qed simp

lemma queue_flush: "\<exists>q out. queue_run (as @ replicate (length q0) QueueGet) s = Some (q, out)"
  if "queue_run as s = Some (q0, out0)" for as s q0 out0
proof -
  have app: "queue_run (as @ bs) s = (case queue_run as s of None \<Rightarrow> None | Some s' \<Rightarrow> queue_run bs s')" for bs
    by (induction as arbitrary: s) (auto split: option.splits)
  have "queue_run (replicate (length q) QueueGet) (q, out) = Some ([], out @ q)" for q out :: "'a list"
    by (induction q arbitrary: out) auto
  then show ?thesis using that by (simp add: app)
qed

section \<open>Reading and writing the stream\<close>

text \<open>
  A payload carries data or a bundle. \<open>writeRoutine\<close> writes each payload's encoding with one
  \<open>Write\<close>. \<open>readRoutine\<close> appends every chunk it reads to its buffer and then decodes exactly one
  payload; a failing decode ends the routine. An encoder and a decoder of gob have a state (the
  types transmitted before), so both take the payloads that came before as an argument.
\<close>

record 'e tcp_payload =
  pl_data :: "nat list"
  pl_bundle :: "'e frame_bundle option"

type_synonym 'e encoder = "'e tcp_payload list \<Rightarrow> 'e tcp_payload \<Rightarrow> nat list option"

type_synonym 'e decoder = "'e tcp_payload list \<Rightarrow> nat list \<Rightarrow> ('e tcp_payload \<times> nat list) option"

text \<open>\<open>SendData\<close> and \<open>SendFrameBundle\<close>.\<close>

definition data_payload :: "nat list \<Rightarrow> 'e tcp_payload" where
  "data_payload d = \<lparr>pl_data = d, pl_bundle = None\<rparr>"

definition bundle_payload :: "'e frame_bundle \<Rightarrow> 'e tcp_payload" where
  "bundle_payload b = \<lparr>pl_data = [], pl_bundle = Some b\<rparr>"

text \<open>The chunks written for a list of payloads, each with the outcome of its \<open>Write\<close>, and whether the routine is still there.\<close>

fun write_run :: "'e encoder \<Rightarrow> 'e tcp_payload list \<Rightarrow> ('e tcp_payload \<times> bool) list \<Rightarrow> nat list list \<times> bool" where
  "write_run enc hist [] = ([], True)"
| "write_run enc hist ((p, ok) # ps) =
     (case enc hist p of
        None \<Rightarrow> ([], False)
      | Some bs \<Rightarrow>
          if ok then case write_run enc (hist @ [p]) ps of (cs, alive) \<Rightarrow> (bs # cs, alive)
          else ([], False))"

record 'e reader =
  rd_buf :: "nat list"
  rd_hist :: "'e tcp_payload list"       \<comment> \<open>what has been decoded\<close>
  rd_data :: "nat list list"             \<comment> \<open>sent to \<open>data.from_net\<close>\<close>
  rd_bundles :: "'e frame_bundle list"   \<comment> \<open>sent to \<open>bundle.from_net\<close>\<close>
  rd_alive :: bool

definition new_reader :: "'e reader" where
  "new_reader = \<lparr>rd_buf = [], rd_hist = [], rd_data = [], rd_bundles = [], rd_alive = True\<rparr>"

lemma new_reader_simps [simp]:
  "rd_buf new_reader = []" "rd_hist new_reader = []" "rd_data new_reader = []" "rd_bundles new_reader = []"
  "rd_alive new_reader"
  by (simp_all add: new_reader_def)

definition dispatch :: "'e tcp_payload \<Rightarrow> 'e reader \<Rightarrow> 'e reader" where
  "dispatch p r =
     (case pl_bundle p of
        Some b \<Rightarrow> r\<lparr>rd_bundles := rd_bundles r @ [b]\<rparr>
      | None \<Rightarrow> r\<lparr>rd_data := rd_data r @ [pl_data p]\<rparr>)"

definition read_step :: "'e decoder \<Rightarrow> nat list \<Rightarrow> 'e reader \<Rightarrow> 'e reader" where
  "read_step dec chunk r =
     (if \<not> rd_alive r then r
      else case dec (rd_hist r) (rd_buf r @ chunk) of
             None \<Rightarrow> r\<lparr>rd_buf := rd_buf r @ chunk, rd_alive := False\<rparr>
           | Some (p, rest) \<Rightarrow> dispatch p (r\<lparr>rd_buf := rest, rd_hist := rd_hist r @ [p]\<rparr>))"

definition read_all :: "'e decoder \<Rightarrow> nat list list \<Rightarrow> 'e reader" where
  "read_all dec chunks = fold (read_step dec) chunks new_reader"

text \<open>What gob promises of a stream: the encodings of its values are self-delimiting.\<close>

definition delimits :: "'e encoder \<Rightarrow> 'e decoder \<Rightarrow> bool" where
  "delimits enc dec \<longleftrightarrow> (\<forall>h p bs. enc h p = Some bs \<longrightarrow> (\<forall>rest. dec h (bs @ rest) = Some (p, rest)) \<and>
     (\<forall>k < length bs. dec h (take k bs) = None))"

lemma delimitsD:
  assumes "delimits enc dec" and "enc h p = Some bs"
  shows "dec h (bs @ rest) = Some (p, rest)" and "dec h bs = Some (p, [])"
    and "k < length bs \<Longrightarrow> dec h (take k bs) = None"
  using assms unfolding delimits_def by (blast, metis append_Nil2, blast)

lemma dispatch_simps [simp]:
  "rd_buf (dispatch p r) = rd_buf r" "rd_alive (dispatch p r) = rd_alive r" "rd_hist (dispatch p r) = rd_hist r"
  by (auto simp: dispatch_def split: option.splits)

definition datas :: "'e tcp_payload list \<Rightarrow> nat list list" where
  "datas ps = map pl_data (filter (\<lambda>p. pl_bundle p = None) ps)"

definition bundles :: "'e tcp_payload list \<Rightarrow> 'e frame_bundle list" where
  "bundles ps = map (the \<circ> pl_bundle) (filter (\<lambda>p. pl_bundle p \<noteq> None) ps)"

lemma datas_append: "datas (ps @ qs) = datas ps @ datas qs" "bundles (ps @ qs) = bundles ps @ bundles qs"
  by (simp_all add: datas_def bundles_def)

text \<open>When every read gives exactly what one \<open>Write\<close> wrote, everything is delivered, in order.\<close>

lemma read_aligned:
  assumes "delimits enc dec" and "rd_alive r" and "rd_buf r = []"
    and "write_run enc (rd_hist r) (map (\<lambda>p. (p, True)) ps) = (chunks, True)"
  shows "fold (read_step dec) chunks r =
         r\<lparr>rd_hist := rd_hist r @ ps, rd_data := rd_data r @ datas ps, rd_bundles := rd_bundles r @ bundles ps\<rparr>"
  using assms(2-4)
proof (induction ps arbitrary: r chunks)
  case Nil
  then show ?case by (simp add: datas_def bundles_def)
next
  case (Cons p ps)
  then obtain bs cs where bs: "enc (rd_hist r) p = Some bs" "chunks = bs # cs"
      "write_run enc (rd_hist r @ [p]) (map (\<lambda>p. (p, True)) ps) = (cs, True)"
    by (auto split: option.splits prod.splits)
  have st: "read_step dec bs r = dispatch p (r\<lparr>rd_buf := [], rd_hist := rd_hist r @ [p]\<rparr>)"
    using Cons.prems delimitsD(2) [OF assms(1) bs(1)] by (simp add: read_step_def)
  then have "fold (read_step dec) cs (read_step dec bs r) = (read_step dec bs r)
      \<lparr>rd_hist := rd_hist r @ [p] @ ps, rd_data := rd_data (read_step dec bs r) @ datas ps,
       rd_bundles := rd_bundles (read_step dec bs r) @ bundles ps\<rparr>"
    using Cons.IH [of "read_step dec bs r" cs] Cons.prems bs(3) by simp
  then show ?case using Cons.prems bs(2)
    by (cases "pl_bundle p") (auto simp: st dispatch_def datas_def bundles_def)
qed

lemma read_step_count:
  "length (rd_data (read_step dec c r)) + length (rd_bundles (read_step dec c r)) \<le>
   length (rd_data r) + length (rd_bundles r) + 1"
  by (auto simp: read_step_def dispatch_def split: option.splits)

lemma read_count:
  "length (rd_data (fold (read_step dec) cs r)) + length (rd_bundles (fold (read_step dec) cs r)) \<le>
   length (rd_data r) + length (rd_bundles r) + length cs"
proof (induction cs arbitrary: r)
  case (Cons c cs)
  show ?case using Cons.IH [of "read_step dec c r"] read_step_count [of dec c r] by simp
qed simp

lemma read_dead: "\<not> rd_alive r \<Longrightarrow> fold (read_step dec) cs r = r"
  by (induction cs) (auto simp: read_step_def)

text \<open>A payload that arrives in two pieces ends the reader.\<close>

lemma read_split:
  assumes "delimits enc dec" and "enc [] p = Some bs" and "k < length bs"
  shows "\<not> rd_alive (read_all dec (take k bs # cs)) \<and> rd_data (read_all dec (take k bs # cs)) = [] \<and>
         rd_bundles (read_all dec (take k bs # cs)) = []"
proof -
  have st: "read_step dec (take k bs) new_reader = new_reader\<lparr>rd_buf := take k bs, rd_alive := False\<rparr>"
    using delimitsD(3) [OF assms] by (simp add: read_step_def new_reader_def)
  then have "read_all dec (take k bs # cs) = new_reader\<lparr>rd_buf := take k bs, rd_alive := False\<rparr>"
    by (simp add: read_all_def read_dead)
  then show ?thesis by (simp add: new_reader_def)
qed

text \<open>Two payloads that arrive in one chunk: the second waits for the next chunk.\<close>

lemma read_coalesced:
  assumes "delimits enc dec" and "enc [] p = Some bs" and "enc [p] q = Some cs"
  shows "read_all dec [bs @ cs] = dispatch p (new_reader\<lparr>rd_buf := cs, rd_hist := [p]\<rparr>)"
    and "read_all dec [bs @ cs, c] = dispatch q (dispatch p (new_reader\<lparr>rd_buf := c, rd_hist := [p, q]\<rparr>))"
proof -
  have 1: "read_step dec (bs @ cs) new_reader = dispatch p (new_reader\<lparr>rd_buf := cs, rd_hist := [p]\<rparr>)"
    using delimitsD(1) [OF assms(1,2)] by (simp add: read_step_def new_reader_def)
  then show "read_all dec [bs @ cs] = dispatch p (new_reader\<lparr>rd_buf := cs, rd_hist := [p]\<rparr>)"
    by (simp add: read_all_def)
  have dd: "(dispatch p r)\<lparr>rd_buf := x, rd_hist := h\<rparr> = dispatch p (r\<lparr>rd_buf := x, rd_hist := h\<rparr>)" for r x h
    by (auto simp: dispatch_def split: option.splits)
  have "read_step dec c (dispatch p (new_reader\<lparr>rd_buf := cs, rd_hist := [p]\<rparr>)) =
        dispatch q (dispatch p (new_reader\<lparr>rd_buf := c, rd_hist := [p, q]\<rparr>))"
    using delimitsD(1) [OF assms(1,3), of c] by (simp add: read_step_def dd)
  then show "read_all dec [bs @ cs, c] = dispatch q (dispatch p (new_reader\<lparr>rd_buf := c, rd_hist := [p, q]\<rparr>))"
    using 1 by (simp add: read_all_def)
qed

section \<open>From one end of a connection to the other\<close>

text \<open>
  The sender's queue, the stream and the receiver's two queues, when every read gives what one
  \<open>Write\<close> wrote: each reader gets a prefix of what was sent for it, in order.
\<close>

lemma tcp_in_order:
  assumes "delimits enc dec" and "queue_run sends ([], []) = Some (q, out)"
    and "write_run enc [] (map (\<lambda>p. (p, True)) out) = (chunks, True)"
    and "queue_run dacts ([], []) = Some (dq, dout)" and "queue_puts dacts = rd_data (read_all dec chunks)"
    and "queue_run bacts ([], []) = Some (bq, bout)" and "queue_puts bacts = rd_bundles (read_all dec chunks)"
  shows "dout @ dq @ datas q = datas (queue_puts sends)" and "bout @ bq @ bundles q = bundles (queue_puts sends)"
proof -
  have r: "rd_data (read_all dec chunks) = datas out" "rd_bundles (read_all dec chunks) = bundles out"
    using read_aligned [OF assms(1), of new_reader out chunks] assms(3)
    by (simp_all add: read_all_def new_reader_def)
  have "out @ q = queue_puts sends" "dout @ dq = datas out" "bout @ bq = bundles out"
    using queue_run_fifo [OF assms(2)] queue_run_fifo [OF assms(4)] queue_run_fifo [OF assms(6)] assms(5,7) r
    by simp_all
  then show "dout @ dq @ datas q = datas (queue_puts sends)" "bout @ bq @ bundles q = bundles (queue_puts sends)"
    by (metis append.assoc datas_append)+
qed

end
