(* ===== verification/Hosting.thy ===== *)
theory Hosting
  imports Network_Standard
begin

text \<open>
  Hosting on the network over UDP and TCP, \<open>core/network_standard.go\<close>: the requests that \<open>routine\<close>
  serves, the goroutines it launches (the ping routine, the accept loop and the goroutine that
  closes its listener) and the signals on the unbuffered channel \<open>kill\<close> between them, over every
  order of their steps.
\<close>

section \<open>Requests\<close>

text \<open>
  What package \<open>net\<close> does while one request is served: whether the local addresses resolve and can
  be listened on, the first failing call of a ping or join request, the packets that come back
  within the second after a ping, and the reply to a join.
\<close>

record net_seen =
  ns_ping_resolves :: bool
  ns_ping_listens :: bool
  ns_join_resolves :: bool
  ns_join_listens :: bool
  ns_fault :: "net_fault option"
  ns_packets :: "std_host list"
  ns_reply :: string

definition launch_ping :: "net_seen \<Rightarrow> net_fault option" where
  "launch_ping seen =
     (if \<not> ns_ping_resolves seen then Some CannotResolve
      else if \<not> ns_ping_listens seen then Some CannotListen
      else None)"

definition launch_join :: "net_seen \<Rightarrow> net_fault option" where
  "launch_join seen =
     (if \<not> ns_join_resolves seen then Some CannotResolve
      else if \<not> ns_join_listens seen then Some CannotListen
      else None)"

type_synonym 'err ping_callback = "string \<Rightarrow> 'err + string"

type_synonym join_callback = "string \<Rightarrow> string option"

datatype 'err net_request =
    HostReq "'err ping_callback option" "join_callback option"
  | PingReq string
  | JoinReq std_host string

datatype net_response = PingResp "net_fault + std_host list" | JoinResp "join_fault + unit"

text \<open>
  What a request writes to the network: the broadcast of a ping and the first message of a join,
  once the address is resolved and dialled.
\<close>

definition request_writes :: "net_seen \<Rightarrow> 'err net_request \<Rightarrow> string list" where
  "request_writes seen req =
     (let written = (\<lambda>d. if ns_fault seen \<in> {Some CannotResolve, Some CannotDial, Some CannotWrite} then [] else [d])
      in case req of HostReq _ _ \<Rightarrow> [] | PingReq d \<Rightarrow> written d | JoinReq _ d \<Rightarrow> written d)"

text \<open>A request that succeeds, or that the host refuses, has been written to the network.\<close>

lemma answered_was_written:
  "handle_join (ns_fault seen) (ns_reply seen) = Inr () \<or> handle_join (ns_fault seen) (ns_reply seen) = Inl (JoinRejected r) \<Longrightarrow>
   request_writes seen (JoinReq remote d) = [d]"
  "handle_ping (ns_fault seen) (ns_packets seen) = Inr hosts \<Longrightarrow> request_writes seen (PingReq d) = [d]"
  by (auto simp: request_writes_def handle_join_def handle_ping_def split: option.splits)

section \<open>The goroutines\<close>

text \<open>
  What \<open>routine\<close> is doing: it waits for a request; it serves a host request and has still to send
  that many of the two signals on \<open>kill\<close> (the request and the outcomes of its launches wait with
  it); or it sends the one signal after a failed launch of the accept loop.
\<close>

datatype 'err std_task =
    Idle
  | Killing nat "'err ping_callback option" "join_callback option" bool bool
  | StopPing

record 'err std_net =
  sn_ping :: "'err ping_callback option"
  sn_join :: "join_callback option"
  sn_kill :: bool                         \<comment> \<open>is the local variable \<open>kill\<close> a channel\<close>
  sn_task :: "'err std_task"
  sn_pinger :: ping_phase                 \<comment> \<open>the ping routine, or the goroutine it leaves behind\<close>
  sn_answers :: "string list"             \<comment> \<open>what the ping routine has answered\<close>
  sn_open :: nat                          \<comment> \<open>listeners that are open, each with a goroutine that will close it\<close>
  sn_closed :: nat                        \<comment> \<open>closed listeners whose accept loop has not noticed\<close>
  sn_accepted :: nat                      \<comment> \<open>accepted connections whose request is not read yet\<close>
  sn_conns :: nat                         \<comment> \<open>connections made by the accept loop\<close>
  sn_responses :: "net_response list"     \<comment> \<open>what \<open>routine\<close> has answered\<close>
  sn_stopped :: bool                      \<comment> \<open>is \<open>requests\<close> closed\<close>
  sn_crashed :: "go_panic option"

definition make_std_net :: "'err std_net" where
  "make_std_net =
     \<lparr>sn_ping = None, sn_join = None, sn_kill = False, sn_task = Idle, sn_pinger = PingGone, sn_answers = [],
      sn_open = 0, sn_closed = 0, sn_accepted = 0, sn_conns = 0, sn_responses = [], sn_stopped = False,
      sn_crashed = None\<rparr>"

text \<open>A host request once \<open>kill\<close> has no receiver left; the two flags say whether the launches succeed.\<close>

definition start_host :: "'err ping_callback option \<Rightarrow> join_callback option \<Rightarrow> bool \<Rightarrow> bool \<Rightarrow>
  'err std_net \<Rightarrow> 'err std_net" where
  "start_host ping join ping_ok join_ok n =
     (if ping = None \<or> join = None then n\<lparr>sn_ping := None, sn_join := None, sn_kill := False, sn_task := Idle\<rparr>
      else let n1 = n\<lparr>sn_ping := ping, sn_join := join, sn_kill := True\<rparr> in
           if \<not> ping_ok then n1\<lparr>sn_kill := False, sn_task := Idle\<rparr>
           else if \<not> join_ok then n1\<lparr>sn_pinger := Polling, sn_task := StopPing\<rparr>
           else n1\<lparr>sn_pinger := Polling, sn_open := sn_open n + 1, sn_task := Idle\<rparr>)"

definition host_request :: "'err ping_callback option \<Rightarrow> join_callback option \<Rightarrow> bool \<Rightarrow> bool \<Rightarrow>
  'err std_net \<Rightarrow> 'err std_net" where
  "host_request ping join ping_ok join_ok n =
     (if sn_kill n then n\<lparr>sn_task := Killing 2 ping join ping_ok join_ok\<rparr>
      else start_host ping join ping_ok join_ok n)"

text \<open>Is \<open>routine\<close> blocked in a send on \<open>kill\<close>, and what it does when the signal is received.\<close>

definition offers_kill :: "'err std_net \<Rightarrow> bool" where
  "offers_kill n = (case sn_task n of Idle \<Rightarrow> False | _ \<Rightarrow> True)"

definition kill_taken :: "'err std_net \<Rightarrow> 'err std_net" where
  "kill_taken n =
     (case sn_task n of
        Idle \<Rightarrow> n
      | Killing k ping join ping_ok join_ok \<Rightarrow>
          if 2 \<le> k then n\<lparr>sn_task := Killing (k - 1) ping join ping_ok join_ok\<rparr>
          else start_host ping join ping_ok join_ok n
      | StopPing \<Rightarrow> n\<lparr>sn_kill := False, sn_task := Idle\<rparr>)"

lemma offers_kill_iff: "offers_kill n \<longleftrightarrow> sn_task n \<noteq> Idle"
  by (simp add: offers_kill_def split: std_task.splits)

text \<open>One request received by \<open>routine\<close>: the new state and what is sent on the response channel, if there is one.\<close>

definition std_serve :: "net_seen \<Rightarrow> 'err net_request \<Rightarrow> 'err std_net \<Rightarrow> 'err std_net \<times> net_response option" where
  "std_serve seen req n =
     (case req of
        HostReq ping join \<Rightarrow> (host_request ping join (launch_ping seen = None) (launch_join seen = None) n, None)
      | PingReq d \<Rightarrow>
          let r = PingResp (handle_ping (ns_fault seen) (ns_packets seen))
          in (n\<lparr>sn_responses := sn_responses n @ [r]\<rparr>, Some r)
      | JoinReq remote d \<Rightarrow>
          let r = JoinResp (handle_join (ns_fault seen) (ns_reply seen))
          in (n\<lparr>sn_responses := sn_responses n @ [r]\<rparr>, Some r))"

text \<open>
  The steps. \<open>Killing\<close> and \<open>StopPing\<close> are sends on an unbuffered channel: each ends when the
  goroutine that closes the listener, or the ping routine, receives.
\<close>

datatype 'err std_act =
    Request net_seen "'err net_request"   \<comment> \<open>somebody sends on \<open>requests\<close>\<close>
  | CloserTakes                           \<comment> \<open>the goroutine that waits to close the listener receives from \<open>kill\<close>\<close>
  | PingRound ping_in                     \<comment> \<open>one round of the ping routine\<close>
  | Accepts                               \<comment> \<open>\<open>Accept\<close> returns a connection\<close>
  | AcceptWakes                           \<comment> \<open>\<open>Accept\<close> of a closed listener returns its error\<close>
  | AcceptFails                           \<comment> \<open>\<open>Accept\<close> of an open listener returns an error of the network\<close>
  | ServesConn "string option" bool       \<comment> \<open>the goroutine of an accepted connection: what it reads, and whether it can write\<close>
  | CloseRequests                         \<comment> \<open>\<open>Shutdown\<close>\<close>

definition crash :: "go_panic \<Rightarrow> 'err std_net \<Rightarrow> 'err std_net" where
  "crash e n = n\<lparr>sn_crashed := Some e\<rparr>"

text \<open>The ping routine calls the callback that the network has at that moment.\<close>

definition ping_round :: "ping_in \<Rightarrow> 'err std_net \<Rightarrow> 'err std_net" where
  "ping_round i n =
     (if sn_ping n = None \<and> sn_pinger n = Polling \<and> \<not> offers_kill n \<and> (case i of Packet p \<Rightarrow> True | _ \<Rightarrow> False)
      then crash NilDereference n
      else case ping_step (the (sn_ping n)) (offers_kill n) i (sn_pinger n, sn_answers n) of
             (phase, out) \<Rightarrow>
               let n1 = n\<lparr>sn_pinger := phase, sn_answers := out\<rparr>
               in if phase = PingGone then kill_taken n1 else n1)"

text \<open>One step of one goroutine; \<open>None\<close>: it is not enabled. A panic ends the process.\<close>

fun std_act_step :: "'err std_act \<Rightarrow> 'err std_net \<Rightarrow> 'err std_net option" where
  "std_act_step (Request seen req) n =
     (if sn_stopped n then Some (crash ClosedChannel n)
      else if offers_kill n then None else Some (fst (std_serve seen req n)))"
| "std_act_step CloserTakes n =
     (if 0 < sn_open n \<and> offers_kill n
      then Some (kill_taken (n\<lparr>sn_open := sn_open n - 1, sn_closed := sn_closed n + 1\<rparr>)) else None)"
| "std_act_step (PingRound i) n = (if sn_pinger n = PingGone then None else Some (ping_round i n))"
| "std_act_step Accepts n = (if 0 < sn_open n then Some (n\<lparr>sn_accepted := sn_accepted n + 1\<rparr>) else None)"
| "std_act_step AcceptWakes n = (if 0 < sn_closed n then Some (crash UserPanic n) else None)"
| "std_act_step AcceptFails n = (if 0 < sn_open n then Some (crash UserPanic n) else None)"
| "std_act_step (ServesConn read write_ok) n =
     (if 0 < sn_accepted n
      then Some (case accept_conn (sn_join n) read write_ok of
                   Inl e \<Rightarrow> crash e n
                 | Inr (reply, made) \<Rightarrow> n\<lparr>sn_accepted := sn_accepted n - 1, sn_conns := sn_conns n + (if made then 1 else 0)\<rparr>)
      else None)"
| "std_act_step CloseRequests n =
     Some (if sn_stopped n then crash ClosedChannel n else n\<lparr>sn_stopped := True\<rparr>)"

definition std_step :: "'err std_act \<Rightarrow> 'err std_net \<Rightarrow> 'err std_net option" where
  "std_step a n = (if sn_crashed n = None then std_act_step a n else None)"

fun std_run :: "'err std_act list \<Rightarrow> 'err std_net \<Rightarrow> 'err std_net option" where
  "std_run [] n = Some n"
| "std_run (a # as) n = Option.bind (std_step a n) (std_run as)"

text \<open>
  \<open>Host\<close>, \<open>Ping\<close> and \<open>Join\<close> as their callers see them: \<open>None\<close> while \<open>routine\<close> is not ready to
  receive, a panic after \<open>Shutdown\<close>. \<open>Join\<close> looks at the type of the remote first.
\<close>

definition std_call :: "net_seen \<Rightarrow> 'err net_request \<Rightarrow> 'err std_net \<Rightarrow>
  (go_panic + 'err std_net \<times> net_response option) option" where
  "std_call seen req n =
     (if sn_stopped n then Some (Inl ClosedChannel)
      else if offers_kill n then None else Some (Inr (std_serve seen req n)))"

definition std_host_call :: "net_seen \<Rightarrow> 'err ping_callback option \<Rightarrow> join_callback option \<Rightarrow> 'err std_net \<Rightarrow>
  (go_panic + 'err std_net \<times> net_response option) option" where
  "std_host_call seen ping join n = std_call seen (HostReq ping join) n"

definition std_ping_call :: "net_seen \<Rightarrow> string \<Rightarrow> 'err std_net \<Rightarrow>
  (go_panic + 'err std_net \<times> net_response option) option" where
  "std_ping_call seen d n = std_call seen (PingReq d) n"

definition std_join_call :: "net_seen \<Rightarrow> std_host option \<Rightarrow> string \<Rightarrow> 'err std_net \<Rightarrow>
  (go_panic + 'err std_net \<times> net_response option) option" where
  "std_join_call seen remote d n =
     (case remote of
        None \<Rightarrow> Some (Inr (n, Some (JoinResp (Inl InvalidRemote))))
      | Some r \<Rightarrow> std_call seen (JoinReq r d) n)"

definition std_shutdown :: "'err std_net \<Rightarrow> go_panic + 'err std_net" where
  "std_shutdown n = (if sn_stopped n then Inl ClosedChannel else Inr (n\<lparr>sn_stopped := True\<rparr>))"

section \<open>Invariants\<close>

text \<open>
  At most one listener is open. While \<open>routine\<close> waits for requests, \<open>kill\<close> is a channel exactly
  when a listener and a ping routine exist; while it sends, one receiver is left for each signal.
\<close>

definition std_ok :: "'err std_net \<Rightarrow> bool" where
  "std_ok n \<longleftrightarrow> sn_open n \<le> 1 \<and>
     (case sn_task n of
        Idle \<Rightarrow> (sn_kill n \<longleftrightarrow> sn_open n = 1) \<and> (sn_open n = 1 \<longleftrightarrow> sn_pinger n \<noteq> PingGone)
      | Killing k p j b c \<Rightarrow> k = sn_open n + (if sn_pinger n = PingGone then 0 else 1) \<and> 0 < k
      | StopPing \<Rightarrow> sn_open n = 0 \<and> sn_pinger n \<noteq> PingGone)"

lemma std_ok_start: "std_ok make_std_net"
  by (simp add: std_ok_def make_std_net_def)

lemma ping_step_gone: "ping_step ping die i (phase, out) = (PingGone, out') \<Longrightarrow> phase \<noteq> PingGone \<Longrightarrow> die"
  by (cases phase; cases i) (auto split: if_splits)

lemma ping_step_kept:
  "phase \<noteq> PingGone \<Longrightarrow> \<not> die \<Longrightarrow> fst (ping_step ping die i (phase, out)) \<noteq> PingGone"
  "fst (ping_step ping die PollTimeout (Polling, out)) = Polling"
  by (cases phase; cases i) (auto split: if_splits)

lemma std_ok_start_host: "sn_open n = 0 \<Longrightarrow> sn_pinger n = PingGone \<Longrightarrow> std_ok (start_host p j b c n)"
  by (simp add: std_ok_def start_host_def Let_def)

lemma std_ok_serve: "std_ok n \<Longrightarrow> sn_task n = Idle \<Longrightarrow> std_ok (fst (std_serve seen req n))"
  by (cases req) (auto simp: std_serve_def host_request_def std_ok_def start_host_def Let_def)

text \<open>A signal taken by the closing goroutine, and one taken by the ping routine.\<close>

lemma std_ok_closer: "std_ok n \<Longrightarrow> 0 < sn_open n \<Longrightarrow> offers_kill n \<Longrightarrow>
  std_ok (kill_taken (n\<lparr>sn_open := sn_open n - 1, sn_closed := sn_closed n + 1\<rparr>))"
  by (auto simp: std_ok_def offers_kill_def kill_taken_def start_host_def Let_def split: std_task.splits if_splits)

lemma std_ok_pinger: "std_ok n \<Longrightarrow> sn_pinger n \<noteq> PingGone \<Longrightarrow> offers_kill n \<Longrightarrow>
  std_ok (kill_taken (n\<lparr>sn_pinger := PingGone, sn_answers := out\<rparr>))"
  by (auto simp: std_ok_def offers_kill_def kill_taken_def start_host_def Let_def split: std_task.splits if_splits)

lemma std_ok_crash [simp]: "std_ok (crash e n) = std_ok n"
  by (cases "sn_task n") (simp_all add: std_ok_def crash_def)

lemma std_ok_frame [simp]:
  "std_ok (n\<lparr>sn_accepted := k\<rparr>) = std_ok n" "std_ok (n\<lparr>sn_accepted := k, sn_conns := l\<rparr>) = std_ok n"
  "std_ok (n\<lparr>sn_stopped := b\<rparr>) = std_ok n"
  by (cases "sn_task n"; simp add: std_ok_def)+

text \<open>The three outcomes of a round of the ping routine.\<close>

lemma ping_round_cases:
  assumes "sn_pinger n \<noteq> PingGone"
  obtains "ping_round i n = crash NilDereference n"
    | phase out where "phase \<noteq> PingGone" "i = PollTimeout \<Longrightarrow> sn_pinger n = Polling \<Longrightarrow> phase = Polling"
        "ping_round i n = n\<lparr>sn_pinger := phase, sn_answers := out\<rparr>"
    | out where "offers_kill n" "i = PollTimeout \<Longrightarrow> sn_pinger n \<noteq> Polling"
        "ping_round i n = kill_taken (n\<lparr>sn_pinger := PingGone, sn_answers := out\<rparr>)"
proof -
  obtain phase out where po: "ping_step (the (sn_ping n)) (offers_kill n) i (sn_pinger n, sn_answers n) = (phase, out)"
    by force
  have t: "i = PollTimeout \<Longrightarrow> sn_pinger n = Polling \<Longrightarrow> phase = Polling"
    using po by (auto split: if_splits)
  have "ping_round i n = crash NilDereference n \<or> ping_round i n =
      (if phase = PingGone then kill_taken (n\<lparr>sn_pinger := phase, sn_answers := out\<rparr>)
       else n\<lparr>sn_pinger := phase, sn_answers := out\<rparr>)"
    by (simp add: ping_round_def po Let_def)
  then consider "ping_round i n = crash NilDereference n"
    | "phase \<noteq> PingGone" "ping_round i n = n\<lparr>sn_pinger := phase, sn_answers := out\<rparr>"
    | "phase = PingGone" "ping_round i n = kill_taken (n\<lparr>sn_pinger := PingGone, sn_answers := out\<rparr>)"
    by (cases "phase = PingGone") auto
  then show thesis
  proof cases
    case 3
    then have "offers_kill n" using ping_step_gone [OF _ assms] po by blast
    then show thesis using that(3) 3 t by auto
  qed (use that(1,2) t in blast)+
qed

lemma std_ok_ping:
  assumes "std_ok n" and "sn_pinger n \<noteq> PingGone"
  shows "std_ok (ping_round i n)"
  using assms(2)
proof (cases rule: ping_round_cases [of n i])
  case (2 phase out)
  then show ?thesis using assms by (cases "sn_task n") (auto simp: std_ok_def)
qed (simp_all add: assms std_ok_pinger)

lemma std_ok_step: "std_step a n = Some n' \<Longrightarrow> std_ok n \<Longrightarrow> std_ok n'"
  by (cases a) (auto simp: std_step_def offers_kill_iff std_ok_serve std_ok_closer [unfolded offers_kill_iff, simplified] std_ok_ping std_ok_frame split: if_splits sum.splits)

lemma std_ok_run: "std_run as n = Some n' \<Longrightarrow> std_ok n \<Longrightarrow> std_ok n'"
  by (induction as arbitrary: n) (auto simp: bind_eq_Some_conv intro: std_ok_step)

lemma hosting_sends_kill: "std_ok n \<Longrightarrow> sn_open n = 1 \<Longrightarrow> sn_task n = Idle \<Longrightarrow>
  fst (std_serve seen (HostReq p j) n) = n\<lparr>sn_task := Killing 2 p j (launch_ping seen = None) (launch_join seen = None)\<rparr>"
  by (simp add: std_ok_def std_serve_def host_request_def)

text \<open>A listener is closed, or the signal that closes it is on offer: this stays so.\<close>

definition killing :: "'err std_net \<Rightarrow> bool" where
  "killing n = (case sn_task n of Killing k p j b c \<Rightarrow> True | _ \<Rightarrow> False)"

definition doomed :: "'err std_net \<Rightarrow> bool" where
  "doomed n \<longleftrightarrow> 0 < sn_closed n \<or> sn_open n = 1 \<and> killing n"

lemma sn_closed_simps [simp]:
  "sn_closed (kill_taken n) = sn_closed n" "sn_closed (crash e n) = sn_closed n"
  "sn_closed (start_host p j b c n) = sn_closed n"
  by (auto simp: kill_taken_def crash_def start_host_def Let_def split: std_task.splits)

lemma doomed_crash [simp]: "doomed (crash e n) = doomed n"
  by (cases "sn_task n") (simp_all add: doomed_def killing_def crash_def)

lemma doomed_frame [simp]:
  "doomed (n\<lparr>sn_accepted := k\<rparr>) = doomed n" "doomed (n\<lparr>sn_accepted := k, sn_conns := l\<rparr>) = doomed n"
  "doomed (n\<lparr>sn_stopped := b\<rparr>) = doomed n"
  "0 < sn_closed m \<Longrightarrow> doomed m"
  by (simp_all add: doomed_def killing_def)

lemma doomed_pinger: "std_ok n \<Longrightarrow> doomed n \<Longrightarrow> sn_pinger n \<noteq> PingGone \<Longrightarrow>
  doomed (kill_taken (n\<lparr>sn_pinger := PingGone, sn_answers := out\<rparr>))"
  by (auto simp: std_ok_def doomed_def killing_def kill_taken_def split: std_task.splits)

lemma doomed_ping:
  assumes "std_ok n" and "doomed n" and "sn_pinger n \<noteq> PingGone"
  shows "doomed (ping_round i n)"
  using assms(3)
proof (cases rule: ping_round_cases [of n i])
  case (2 phase out)
  then show ?thesis using assms(2) by (simp add: doomed_def killing_def)
qed (simp_all add: assms doomed_pinger)

lemma doomed_serve: "doomed n \<Longrightarrow> sn_task n = Idle \<Longrightarrow> doomed (fst (std_serve seen req n))"
  by (cases req) (auto simp: doomed_def killing_def std_serve_def host_request_def Let_def)

lemma doomed_step: "std_step a n = Some n' \<Longrightarrow> std_ok n \<Longrightarrow> doomed n \<Longrightarrow> doomed n'"
  by (cases a) (auto simp: std_step_def offers_kill_iff doomed_serve doomed_ping doomed_frame split: if_splits sum.splits)

lemma doomed_run: "std_run as n = Some n' \<Longrightarrow> std_ok n \<Longrightarrow> doomed n \<Longrightarrow> doomed n'"
proof (induction as arbitrary: n)
  case (Cons a as)
  then show ?case by (auto simp: bind_eq_Some_conv intro: std_ok_step doomed_step)
qed simp

lemma doomed_panics: "doomed n \<Longrightarrow> sn_crashed n = None \<Longrightarrow>
  \<exists>as n'. as \<in> {[], [CloserTakes]} \<and> std_run (as @ [AcceptWakes]) n = Some n' \<and> sn_crashed n' = Some UserPanic"
proof (cases "0 < sn_closed n")
  case True
  then show "sn_crashed n = None \<Longrightarrow> ?thesis" by (intro exI [of _ "[]"]) (simp add: std_step_def crash_def)
next
  case False
  assume d: "doomed n" "sn_crashed n = None"
  let ?n = "kill_taken (n\<lparr>sn_open := sn_open n - 1, sn_closed := sn_closed n + 1\<rparr>)"
  have "std_step CloserTakes n = Some ?n" "sn_crashed ?n = None"
    using d False by (auto simp: std_step_def doomed_def killing_def offers_kill_def kill_taken_def start_host_def Let_def
      split: std_task.splits)
  then show ?thesis by (intro exI [of _ "[CloserTakes]"]) (simp add: std_step_def crash_def)
qed

text \<open>While the ping routine only meets timeouts, the request stays unserved.\<close>

definition held :: "'err ping_callback option \<Rightarrow> join_callback option \<Rightarrow> 'err std_net \<Rightarrow> bool" where
  "held p j n \<longleftrightarrow> sn_pinger n = Polling \<and> killing n \<and> sn_ping n = p \<and> sn_join n = j"

lemma held_crash [simp]: "held p j (crash e n) = held p j n"
  by (cases "sn_task n") (simp_all add: held_def killing_def crash_def)

lemma held_frame [simp]:
  "held p j (n\<lparr>sn_accepted := k\<rparr>) = held p j n" "held p j (n\<lparr>sn_accepted := k, sn_conns := l\<rparr>) = held p j n"
  "held p j (n\<lparr>sn_stopped := b\<rparr>) = held p j n"
  by (simp_all add: held_def killing_def)

lemma held_serve: "held p j n \<Longrightarrow> sn_task n \<noteq> Idle"
  by (auto simp: held_def killing_def)

lemma held_closer: "std_ok n \<Longrightarrow> held p j n \<Longrightarrow> 0 < sn_open n \<Longrightarrow>
  held p j (kill_taken (n\<lparr>sn_open := sn_open n - 1, sn_closed := sn_closed n + 1\<rparr>))"
  by (auto simp: std_ok_def held_def killing_def kill_taken_def split: std_task.splits)

lemma held_ping:
  assumes "held p j n"
  shows "held p j (ping_round PollTimeout n)"
proof -
  have h: "sn_pinger n = Polling" using assms by (simp add: held_def)
  then have "sn_pinger n \<noteq> PingGone" by simp
  then show ?thesis
  proof (cases rule: ping_round_cases [of n PollTimeout])
    case (2 phase out)
    then show ?thesis using assms h by (simp add: held_def killing_def)
  qed (use assms h in simp_all)
qed

lemma held_step: "std_step a n = Some n' \<Longrightarrow> std_ok n \<Longrightarrow> held p j n \<Longrightarrow> (\<And>i. a = PingRound i \<Longrightarrow> i = PollTimeout) \<Longrightarrow> held p j n'"
  by (cases a) (auto simp: std_step_def offers_kill_iff held_closer [simplified] held_ping held_frame held_serve split: if_splits sum.splits)

lemma held_run: "std_run as n = Some n' \<Longrightarrow> std_ok n \<Longrightarrow> held p j n \<Longrightarrow>
  (\<And>i. PingRound i \<in> set as \<Longrightarrow> i = PollTimeout) \<Longrightarrow> held p j n'"
proof (induction as arbitrary: n)
  case (Cons a as)
  then obtain n1 where n1: "std_step a n = Some n1" "std_run as n1 = Some n'" by (auto simp: bind_eq_Some_conv)
  show ?case using Cons.IH [OF n1(2) std_ok_step [OF n1(1) Cons.prems(2)]] held_step [OF n1(1) Cons.prems(2,3)] Cons.prems(4)
    by simp
qed simp

end
