(* ===== verification/Pnf.thy ===== *)
theory Pnf
  imports Updater_Runs Bundler Communicator Hosting
begin

text \<open>
  The assembly of \<open>pnf.go\<close>: the channels that connect the components, the three constructors of
  an engine, and the local path of an assembled engine, from the bundler through the updater to
  the communicator.
\<close>

section \<open>Channels\<close>

datatype channel =
    LocalEvent | LocalEngineEventCh | LocalBundles | BroadcastBundles
  | RemoteBundlesCh | RawRemoteBundles | BootstrapFramesCh

record wired_bundler =
  wb_params :: engine_params
  wb_current_ms :: int
  wb_local_event :: "channel option"
  wb_local_engine_event :: "channel option"
  wb_local_bundles :: "channel option"
  wb_time_delta :: "channel option"

record wired_updater =
  wu_params :: engine_params
  wu_local_bundles :: "channel option"
  wu_broadcast :: "channel option"
  wu_remote :: "channel option"
  wu_bootstrap :: "channel option"

record wired_communicator =
  wc_broadcast :: "channel option"
  wc_raw_remote :: "channel option"
  wc_bootstrap :: "channel option"
  wc_local_engine_event :: "channel option"

record wired_auditor =
  wa_raw_remote :: "channel option"
  wa_remote :: "channel option"
  wa_time_delta :: "channel option"

definition zero_params :: engine_params where
  "zero_params = \<lparr>ep_id = EngineId 0, ep_delay = 0, ep_frame_ms = 0, ep_max_frames = 0\<rparr>"

definition make_unstarted :: "engine_params \<Rightarrow>
  channel \<times> wired_bundler \<times> wired_updater \<times> wired_communicator \<times> wired_auditor" where
  "make_unstarted p =
     (LocalEvent,
      \<lparr>wb_params = p, wb_current_ms = 0, wb_local_event = Some LocalEvent,
       wb_local_engine_event = Some LocalEngineEventCh, wb_local_bundles = Some LocalBundles,
       wb_time_delta = None\<rparr>,
      \<lparr>wu_params = p, wu_local_bundles = Some LocalBundles, wu_broadcast = Some BroadcastBundles,
       wu_remote = Some RemoteBundlesCh, wu_bootstrap = Some BootstrapFramesCh\<rparr>,
      \<lparr>wc_broadcast = Some BroadcastBundles, wc_raw_remote = Some RawRemoteBundles,
       wc_bootstrap = Some BootstrapFramesCh, wc_local_engine_event = Some LocalEngineEventCh\<rparr>,
      \<lparr>wa_raw_remote = Some RawRemoteBundles, wa_remote = Some RemoteBundlesCh, wa_time_delta = None\<rparr>)"

text \<open>Who sends on a channel and who receives from it; the caller of \<open>ApplyEvent\<close> is \<open>User\<close>.\<close>

datatype party = User | TheBundler | TheUpdater | TheCommunicator | TheAuditor

definition senders :: "channel \<Rightarrow> channel \<times> wired_bundler \<times> wired_updater \<times> wired_communicator \<times> wired_auditor \<Rightarrow> party list" where
  "senders ch w = (case w of (ev, b, u, c, a) \<Rightarrow>
     (if ev = ch then [User] else []) @
     (if wb_local_bundles b = Some ch then [TheBundler] else []) @
     (if wu_broadcast u = Some ch then [TheUpdater] else []) @
     (if wu_bootstrap u = Some ch then [TheUpdater] else []) @
     (if wc_raw_remote c = Some ch then [TheCommunicator] else []) @
     (if wc_local_engine_event c = Some ch then [TheCommunicator] else []) @
     (if wa_remote a = Some ch then [TheAuditor] else []))"

definition receivers :: "channel \<Rightarrow> channel \<times> wired_bundler \<times> wired_updater \<times> wired_communicator \<times> wired_auditor \<Rightarrow> party list" where
  "receivers ch w = (case w of (ev, b, u, c, a) \<Rightarrow>
     (if wb_local_event b = Some ch then [TheBundler] else []) @
     (if wb_local_engine_event b = Some ch then [TheBundler] else []) @
     (if wu_local_bundles u = Some ch then [TheUpdater] else []) @
     (if wu_remote u = Some ch then [TheUpdater] else []) @
     (if wc_broadcast c = Some ch then [TheCommunicator] else []) @
     (if wc_bootstrap c = Some ch then [TheCommunicator] else []) @
     (if wa_raw_remote a = Some ch then [TheAuditor] else []))"

section \<open>\<open>NewLocalEngine\<close>\<close>

text \<open>
  The components of an \<open>Engine\<close> are pointers; in the zero value they are nil. An assignment to a
  field through a nil pointer panics.
\<close>

record engine_ptrs =
  pt_bundler :: "wired_bundler option"
  pt_updater :: "wired_updater option"
  pt_local_event :: "channel option"

definition on_bundler :: "(wired_bundler \<Rightarrow> wired_bundler) \<Rightarrow> engine_ptrs \<Rightarrow> go_panic + engine_ptrs" where
  "on_bundler f e = (case pt_bundler e of None \<Rightarrow> Inl NilDereference | Some b \<Rightarrow> Inr (e\<lparr>pt_bundler := Some (f b)\<rparr>))"

definition on_updater :: "(wired_updater \<Rightarrow> wired_updater) \<Rightarrow> engine_ptrs \<Rightarrow> go_panic + engine_ptrs" where
  "on_updater f e = (case pt_updater e of None \<Rightarrow> Inl NilDereference | Some u \<Rightarrow> Inr (e\<lparr>pt_updater := Some (f u)\<rparr>))"

definition local_params :: "int \<Rightarrow> engine_params" where
  "local_params frame_ms = \<lparr>ep_id = EngineId 1234, ep_delay = 1, ep_frame_ms = frame_ms, ep_max_frames = 2\<rparr>"

definition new_local_engine :: "int \<Rightarrow> go_panic + engine_ptrs" where
  "new_local_engine frame_ms =
     (let p = local_params frame_ms;
          e = \<lparr>pt_bundler = None, pt_updater = None, pt_local_event = Some LocalEvent\<rparr>
      in seq (on_bundler (\<lambda>b. b\<lparr>wb_params := p, wb_current_ms := frame_ms,
                               wb_local_bundles := Some LocalBundles, wb_local_event := Some LocalEvent,
                               wb_time_delta := None\<rparr>) e)
         (on_updater (\<lambda>u. u\<lparr>wu_params := p, wu_local_bundles := Some LocalBundles,
                            wu_broadcast := Some BroadcastBundles, wu_remote := None\<rparr>)))"

section \<open>Running engines\<close>

record ('e, 'g, 't, 'w) engine =
  en_bundler :: "('e, 't) bundler"
  en_updater :: "('e, 'g) updater"
  en_comm :: "('e, 'w) communicator"
  en_net :: "string std_net"

definition net_params :: "int \<Rightarrow> int \<Rightarrow> engine_params" where
  "net_params frame_ms max_frames =
     \<lparr>ep_id = EngineId 1234, ep_delay = i32 (i32 frame_ms + 10), ep_frame_ms = frame_ms, ep_max_frames = max_frames\<rparr>"

definition initial_data :: "engine_params \<Rightarrow> 'e frame_data" where
  "initial_data p = \<lparr>fd_info = \<lparr>ei_engines = Some (fmupd (ep_id p) True fmempty)\<rparr>, fd_game = Some 0,
                     fd_bundle = Some fmempty\<rparr>"

text \<open>
  \<open>NewNetEngine\<close>: the game passed in is the first of the heap; the flags say whether the network
  can launch the two routines of a host. The new network waits for requests, so \<open>Host\<close> is served at once.
\<close>

definition host_ping :: "string \<Rightarrow> string + string" where
  "host_ping data = Inr ''I AM A HOST!!!''"

definition host_join :: "string \<Rightarrow> string option" where
  "host_join data = None"

definition new_net_engine :: "('e, 'g) game_ops \<Rightarrow> ('t \<Rightarrow> go_panic + 't) \<Rightarrow> 't \<Rightarrow> 'g \<Rightarrow> int \<Rightarrow> int \<Rightarrow>
  bool \<Rightarrow> bool \<Rightarrow> go_panic + ('e, 'g, 't, 'w) engine" where
  "new_net_engine G tstart t g frame_ms max_frames ping_up join_up =
     (let p = net_params frame_ms max_frames in
      seq (bundler_start tstart (zero_bundler p t (i64 (frame_ms + 1)))) (\<lambda>b.
      seq (start G 0 (initial_data p) (zero_updater p True [g])) (\<lambda>u.
      Inr \<lparr>en_bundler = b, en_updater = u, en_comm = comm_start (zero_communicator None),
           en_net = host_request (Some host_ping) (Some host_join) ping_up join_up make_std_net\<rparr>)))"

text \<open>
  \<open>NewNetClientEngine\<close>: the first host found by \<open>Ping\<close> is joined as connection \<open>conn\<close>, and the
  communicator performs the handshake on it; \<open>None\<close> means that the handshake still blocks.
\<close>

datatype client_fault = PingFailed net_fault | NoHosts | JoinFailedNet join_fault | HandshakeFailed

definition start_client :: "('e, 'g) game_ops \<Rightarrow> ('t \<Rightarrow> go_panic + 't) \<Rightarrow> 't \<Rightarrow> engine_params \<Rightarrow>
  'g boot_message \<Rightarrow> engine_id \<Rightarrow> ('e, 'w) communicator \<Rightarrow> go_panic + ('e, 'g, 't, 'w) engine" where
  "start_client G tstart t p bf i c =
     (let p' = p\<lparr>ep_id := i\<rparr> in
      seq (bundler_start tstart (zero_bundler p' t (i64 (ep_frame_ms p' * bm_frame bf)))) (\<lambda>b.
      seq (bootstrap G \<lparr>bf_frame = bm_frame bf, bf_game = Some 0, bf_info = bm_info bf\<rparr>
             (zero_updater p' True [bm_game bf])) (\<lambda>u.
      Inr \<lparr>en_bundler = b, en_updater = u, en_comm = comm_start c, en_net = make_std_net\<rparr>)))"

definition new_net_client_engine :: "('e, 'g) game_ops \<Rightarrow> ('t \<Rightarrow> go_panic + 't) \<Rightarrow> 't \<Rightarrow>
  ('g payload \<Rightarrow> 'w option) \<Rightarrow> ('w \<Rightarrow> 'g payload option) \<Rightarrow> int \<Rightarrow> int \<Rightarrow>
  net_fault option \<Rightarrow> std_host list \<Rightarrow> net_fault option \<Rightarrow> string \<Rightarrow> nat \<Rightarrow> 'w option \<Rightarrow> ('e, 'w) join_in list \<Rightarrow>
  (client_fault + (go_panic + ('e, 'g, 't, 'w) engine)) option" where
  "new_net_client_engine G tstart t enc dec frame_ms max_frames ping_fault packets join_fault reply conn data is =
     (let p = net_params frame_ms max_frames in
      case handle_ping ping_fault packets of
        Inl f \<Rightarrow> Some (Inl (PingFailed f))
      | Inr rhs \<Rightarrow>
          if rhs = [] then Some (Inl NoHosts)
          else case std_join (Some (hd rhs)) join_fault reply of
            Inl f \<Rightarrow> Some (Inl (JoinFailedNet f))
          | Inr _ \<Rightarrow>
              (case comm_join enc dec conn data is (zero_communicator None) of
                 None \<Rightarrow> None
               | Some (c, None) \<Rightarrow> Some (Inl HandshakeFailed)
               | Some (c, Some (bf, i)) \<Rightarrow>
                   Some (Inr (start_client G tstart t p bf i c))))"

section \<open>The local path\<close>

text \<open>The communicator receives what the updater sends on its two channels; game pointers are read when encoded.\<close>

definition deliver :: "('g payload \<Rightarrow> 'w option) \<Rightarrow> 'g list \<Rightarrow> 'e upd_out \<Rightarrow> ('e, 'w) communicator \<Rightarrow>
  go_panic + ('e, 'w) communicator" where
  "deliver enc h m c =
     (case m of
        Broadcast lb \<Rightarrow> Inr (on_broadcast lb c)
      | BootstrapOut bf \<Rightarrow>
          seq (load h (bf_game bf)) (\<lambda>g.
          on_boot_frame enc \<lparr>bm_frame = bf_frame bf, bm_game = g, bm_info = bf_info bf\<rparr> c)
      | _ \<Rightarrow> Inr c)"

text \<open>The messages a round of the updater \<open>u\<close>, which ended in \<open>v\<close>, leaves for the communicator.\<close>

definition hand_over :: "('g payload \<Rightarrow> 'w option) \<Rightarrow> ('e, 'g) updater \<Rightarrow> ('e, 'g) updater \<Rightarrow>
  ('e, 'w) communicator \<Rightarrow> go_panic + ('e, 'w) communicator" where
  "hand_over enc u v c = fold_res (deliver enc (up_heap v)) (drop (length (up_out u)) (up_out v)) c"

definition pass_on :: "('e, 'g) game_ops \<Rightarrow> ('g payload \<Rightarrow> 'w option) \<Rightarrow> 'e frame_bundle \<Rightarrow>
  ('e, 'g) updater \<times> ('e, 'w) communicator \<Rightarrow> go_panic + ('e, 'g) updater \<times> ('e, 'w) communicator" where
  "pass_on G enc lb s =
     (case s of (u, c) \<Rightarrow>
        seq (handle_local G lb u) (\<lambda>u'.
        seq (hand_over enc u u' c) (\<lambda>c'. Inr (u', c'))))"

definition pass_group :: "('e, 'g) game_ops \<Rightarrow> ('g payload \<Rightarrow> 'w option) \<Rightarrow> 'e frame_bundle list \<Rightarrow>
  ('e, 'g) updater \<times> ('e, 'w) communicator \<Rightarrow> go_panic + ('e, 'g) updater \<times> ('e, 'w) communicator" where
  "pass_group G enc rbs s =
     (case s of (u, c) \<Rightarrow>
        seq (handle_remote G rbs u) (\<lambda>u'.
        seq (hand_over enc u u' c) (\<lambda>c'. Inr (u', c'))))"

text \<open>
  An input of the bundler; each bundle it sends is handled by the updater, and the messages the
  updater sends while handling it by the communicator.
\<close>

definition engine_step :: "('e, 'g) game_ops \<Rightarrow> ('g payload \<Rightarrow> 'w option) \<Rightarrow> 'e bundler_in \<Rightarrow>
  ('e, 'g, 't, 'w) engine \<Rightarrow> go_panic + ('e, 'g, 't, 'w) engine" where
  "engine_step G enc i e =
     (case bundler_step i (en_bundler e) of
        None \<Rightarrow> Inr e
      | Some r \<Rightarrow>
          seq r (\<lambda>b.
          seq (fold_res (pass_on G enc) (drop (length (bu_out (en_bundler e))) (bu_out b)) (en_updater e, en_comm e)) (\<lambda>s.
          Inr (e\<lparr>en_bundler := b, en_updater := fst s, en_comm := snd s\<rparr>))))"

definition engine_run :: "('e, 'g) game_ops \<Rightarrow> ('g payload \<Rightarrow> 'w option) \<Rightarrow> 'e bundler_in list \<Rightarrow>
  ('e, 'g, 't, 'w) engine \<Rightarrow> go_panic + ('e, 'g, 't, 'w) engine" where
  "engine_run G enc is e = fold_res (engine_step G enc) is e"

text \<open>\<open>ApplyEvent\<close> and \<open>GetState\<close>: an event for the bundler, and the answer to a request for the last final frame.\<close>

definition apply_event :: "'e \<Rightarrow> 'e bundler_in" where
  "apply_event e = GameEvent e"

definition get_state :: "('e, 'g, 't, 'w) engine \<Rightarrow> go_panic + ('e, 'g) updater" where
  "get_state e = handle_request \<lparr>rq_frame = -1, rq_chan = 0, rq_final = True\<rparr> (en_updater e)"

section \<open>An engine on its own\<close>

text \<open>The state of an updater whose only engine is \<open>me\<close>: every frame it has is final.\<close>

definition lone :: "('e, 'g) game_ops \<Rightarrow> engine_id \<Rightarrow> ('e, 'g) updater \<Rightarrow> bool" where
  "lone G me u \<longleftrightarrow> (\<exists>s. run_inv G s u \<and> \<not> hi_pending s) \<and> up_skip u = 0 \<and> up_fast u = [] \<and>
     win_start u = up_global u \<and> engines_at u (win_start u) = fmupd me True fmempty \<and> 2 \<le> win_len u \<and>
     0 \<le> eid me"

text \<open>What one frame of game events does to a game.\<close>

definition solo_frame :: "('e, 'g) game_ops \<Rightarrow> 'e list \<Rightarrow> 'g \<Rightarrow> 'g" where
  "solo_frame G es g = g_think G (fold (g_apply G) es g)"

lemma keys_singleton [simp]: "keys (fmupd i v fmempty) = [i]"
  by (simp add: keys_def sorted_list_of_fset.rep_eq)

lemma solo_frame_step:
  "frame_step G (fmupd me \<lparr>ae_game = gs, ae_engine = []\<rparr> fmempty) (fmupd me True fmempty, g) =
   (fmupd me True fmempty, solo_frame G gs g)"
  by (simp add: frame_step_def frame_engines_def frame_game_def bundle_get_def solo_frame_def Let_def)

lemma fmempty_add [simp]: "fmempty ++\<^sub>f m = (m :: ('a, 'b) fmap)"
  by (rule fmap_ext) simp

fun numbered :: "engine_id \<Rightarrow> int \<Rightarrow> 'e list list \<Rightarrow> 'e frame_bundle list" where
  "numbered me f [] = []"
| "numbered me f (gs # gss) = \<lparr>fb_frame = f, fb_bundle = local_bundle me gs []\<rparr> # numbered me (f + 1) gss"

fun deliverable :: "'g list \<Rightarrow> 'e upd_out \<Rightarrow> bool" where
  "deliverable h (BootstrapOut bf) = (\<exists>a < length h. bf_game bf = Some a)"
| "deliverable h m = True"

lemma on_boot_frame_none: "cm_bootstraps c = [] \<Longrightarrow> on_boot_frame enc bf c = Inr c"
  by (simp add: on_boot_frame_def sweep_done)

lemma deliver_ok:
  assumes "cm_bootstraps c = []" and "\<forall>m \<in> set ms. deliverable h m"
  shows "\<exists>c'. fold_res (deliver enc h) ms c = Inr c' \<and> cm_bootstraps c' = []"
  using assms
proof (induction ms arbitrary: c)
  case (Cons m ms)
  have "\<exists>c1. deliver enc h m c = Inr c1 \<and> cm_bootstraps c1 = []"
    using Cons.prems
    by (cases m) (auto simp: deliver_def on_broadcast_def Let_def load_def on_boot_frame_none)
  then obtain c1 where c1: "deliver enc h m c = Inr c1" "cm_bootstraps c1 = []" by blast
  then show ?case using Cons.IH [OF c1(2)] Cons.prems by simp
qed simp

lemma advanced_deliverable:
  assumes "advanced G s u v"
  shows "\<exists>out. up_out v = up_out u @ out \<and> (\<forall>m \<in> set out. deliverable (up_heap v) m)"
proof -
  obtain out where out: "up_out v = up_out u @ out"
    "boot_outs out = (if up_hosting u then map (boot_of v) [win_start u + 1..win_start v] else [])"
    using assms unfolding advanced_def by blast
  have ok: "win_ok v" using upd_shapeD(1) [OF upd_invD(1) [OF settledD(1) [OF advancedD(1) [OF assms]]]] .
  have "deliverable (up_heap v) m" if "m \<in> set out" for m
  proof (cases m)
    case (BootstrapOut b)
    then have "b \<in> set (boot_outs out)" using that by (simp add: BootstrapOut_mem)
    then obtain f where "b = boot_of v f" using out(2) by (auto split: if_splits)
    then show ?thesis using game_ptr [OF ok, of f] BootstrapOut by (force simp: boot_of_def)
  qed auto
  with out(1) show ?thesis by blast
qed

context game_iface
begin

lemma lone_step:
  assumes l: "lone G me u" and b: "up_global u + 1 + win_len u \<le> max_i32"
  shows "\<exists>v. handle_local G \<lparr>fb_frame = up_global u + 1, fb_bundle = local_bundle me gs []\<rparr> u = Inr v \<and>
    lone G me v \<and> up_global v = up_global u + 1 \<and> win_len v = win_len u \<and>
    game_at v (win_start v) = solo_frame G gs (game_at u (win_start u)) \<and>
    (\<exists>out. up_out v = up_out u @ out \<and> (\<forall>m \<in> set out. deliverable (up_heap v) m))"
proof -
  obtain s where s: "run_inv G s u" "\<not> hi_pending s" using l by (auto simp: lone_def)
  note ld = l [unfolded lone_def] and ru = run_invD [OF s(1)]
  let ?f = "up_global u + 1" and ?m = "fmupd me \<lparr>ae_game = gs, ae_engine = []\<rparr> fmempty :: 'e bundle_map"
  let ?lb = "\<lparr>fb_frame = ?f, fb_bundle = local_bundle me gs []\<rparr>" and ?s = "add_bundle (up_global u + 1) ?m s"
  note st = ru(1) and inv = settledD(1) [OF ru(1)]
  have mp: "map_of_nilable (local_bundle me gs []) = ?m" by (simp add: local_bundle_def)
  have empty: "hi_bundles s ?f = fmempty" using upd_invD(5) [OF inv] by (simp add: history_ok_def)
  have fit: "fits s (win_start u) (win_len u) (fb_frame ?lb) (fb_bundle ?lb)"
    using ld b by (simp add: fits_def mp empty disjoint_bundles_def nonneg_ids_def)
  obtain w v where v: "handle_local G ?lb u = Inr (fast_answered v)" "dw_first w = win_start u"
      "dw_len w = win_len u" "advanced G ?s (local_absorbed ?lb u w) v"
    using local_tail_ok [OF inv settledD(3) [OF st] _ ru(4) fit] ld by (auto simp: mp)
  note ad = advancedD [OF v(4)]
  have fast: "fast_answered v = v" using ad(9) ld by (simp add: fast_answered_def sweep_done)
  have gl: "up_global v = ?f" and ws: "win_start u \<le> win_start v" and wl: "win_len v = win_len u"
    and sk: "up_skip v = 0" and fq: "up_fast v = []"
    using ad(3,4,5,7,9) v(2,3) ld by (auto simp: local_absorbed_def)
  have base: "hi_base s < ?f" using settled_order [OF st] by simp
  have ws0: "win_start u = up_global u" and eng0: "engines_at u (win_start u) = fmupd me True fmempty"
    using ld by auto
  have su: "state_at G s (up_global u) = (fmupd me True fmempty, game_at u (win_start u))"
    using settled_view [OF st, of "up_global u", symmetric] eng0 by (simp add: ws0)
  have "state_at G ?s ?f = frame_step G ?m (state_at G ?s (up_global u))"
    using state_at_step [of ?s ?f G] base s(2) by (simp add: empty add_bundle_def)
  also have "state_at G ?s (up_global u) = state_at G s (up_global u)"
    using base by (simp add: state_at_add_bundle)
  finally have sf: "state_at G ?s ?f = (fmupd me True fmempty, solo_frame G gs (game_at u (win_start u)))"
    by (simp add: su solo_frame_step)
  have comp: "complete G ?s ?f" by (simp add: complete_def sf empty)
  have "win_start v = ?f"
  proof (rule ccontr)
    assume "win_start v \<noteq> ?f"
    then have "win_start v = up_global u" using ws ld settled_order(2) [OF ad(1)] gl by simp
    then show False using ad(2) comp gl by (simp add: maximal_def)
  qed
  moreover have "(engines_at v ?f, game_at v ?f) = state_at G ?s ?f"
    using settled_view [OF ad(1), of ?f] calculation gl by simp
  moreover have "run_inv G ?s v" using ad(1,6) gl ru(2) by (simp add: run_inv_def)
  moreover have "\<not> hi_pending ?s" using s(2) by (simp add: add_bundle_def)
  ultimately have "lone G me v \<and> game_at v (win_start v) = solo_frame G gs (game_at u (win_start u))"
    unfolding lone_def using gl wl sk fq ld sf by auto
  moreover obtain out where "up_out v = (up_out u @ [Broadcast ?lb]) @ out" "\<forall>m \<in> set out. deliverable (up_heap v) m"
    using advanced_deliverable [OF v(4)] by auto
  then have "\<exists>out. up_out v = up_out u @ out \<and> (\<forall>m \<in> set out. deliverable (up_heap v) m)"
    by (intro exI [of _ "Broadcast ?lb # out"]) simp
  ultimately show ?thesis using v(1) gl wl by (auto simp: fast)
qed

lemma lone_bundles:
  assumes "lone G me u" and "cm_bootstraps c = []"
    and "up_global u + int (length gss) + win_len u \<le> max_i32"
  shows "\<exists>v c'. fold_res (pass_on G enc) (numbered me (up_global u + 1) gss) (u, c) = Inr (v, c') \<and>
    lone G me v \<and> up_global v = up_global u + int (length gss) \<and> win_len v = win_len u \<and>
    game_at v (win_start v) = fold (solo_frame G) gss (game_at u (win_start u)) \<and> cm_bootstraps c' = []"
  using assms
proof (induction gss arbitrary: u c)
  case (Cons gs gss)
  have "up_global u + 1 + win_len u \<le> max_i32" using Cons.prems(3) by simp
  then obtain v out where v: "handle_local G \<lparr>fb_frame = up_global u + 1, fb_bundle = local_bundle me gs []\<rparr> u = Inr v"
    "lone G me v" "up_global v = up_global u + 1" "win_len v = win_len u"
    "game_at v (win_start v) = solo_frame G gs (game_at u (win_start u))"
    "up_out v = up_out u @ out" "\<forall>m \<in> set out. deliverable (up_heap v) m"
    using lone_step [OF Cons.prems(1)] by blast
  obtain c1 where c1: "fold_res (deliver enc (up_heap v)) out c = Inr c1" "cm_bootstraps c1 = []"
    using deliver_ok [OF Cons.prems(2) v(7)] by blast
  have one: "pass_on G enc \<lparr>fb_frame = up_global u + 1, fb_bundle = local_bundle me gs []\<rparr> (u, c) = Inr (v, c1)"
    using v(1,6) c1(1) by (simp add: pass_on_def hand_over_def)
  have "up_global v + int (length gss) + win_len v \<le> max_i32" using Cons.prems(3) v(3,4) by simp
  from Cons.IH [OF v(2) c1(2) this] obtain v' c' where r:
    "fold_res (pass_on G enc) (numbered me (up_global v + 1) gss) (v, c1) = Inr (v', c')"
    "lone G me v'" "up_global v' = up_global v + int (length gss)" "win_len v' = win_len v"
    "game_at v' (win_start v') = fold (solo_frame G) gss (game_at v (win_start v))" "cm_bootstraps c' = []"
    by blast
  have "fold_res (pass_on G enc) (numbered me (up_global u + 1) (gs # gss)) (u, c) = Inr (v', c')"
    using one r(1) by (simp add: v(3))
  with r v(3,4,5) show ?case by (intro exI [of _ v'] exI [of _ c']) simp
qed simp

end

section \<open>Engine runs\<close>

definition frame_events :: "engine_id \<Rightarrow> 'e frame_bundle \<Rightarrow> 'e list" where
  "frame_events me fb = ae_game (bundle_get (fb_bundle fb) me)"

text \<open>An engine between two inputs when it is alone.\<close>

definition solo :: "('e, 'g) game_ops \<Rightarrow> ('e, 'g, 't, 'w) engine \<Rightarrow> bool" where
  "solo G e \<longleftrightarrow> bundler_ok (en_bundler e) \<and> bu_running (en_bundler e) \<and> bu_engine (en_bundler e) = [] \<and>
     lone G (ep_id (bu_params (en_bundler e))) (en_updater e) \<and>
     bu_frame (en_bundler e) = up_global (en_updater e) + 1 \<and> cm_bootstraps (en_comm e) = []"

fun solo_input :: "'e bundler_in \<Rightarrow> bool" where
  "solo_input (GameEvent e) = True"
| "solo_input Tick = True"
| "solo_input _ = False"

definition current_game :: "('e, 'g, 't, 'w) engine \<Rightarrow> 'g" where
  "current_game e = game_at (en_updater e) (win_start (en_updater e))"

lemma numbered_replicate:
  "numbered me f (replicate k []) = map (\<lambda>i. \<lparr>fb_frame = i, fb_bundle = local_bundle me [] []\<rparr>) [f..f + int k - 1]"
proof (induction k arbitrary: f)
  case (Suc k)
  then show ?case by (simp add: upto_rec1 add.commute add.left_commute)
qed simp

lemma tick_bundles_numbered:
  assumes "bu_engine b = []" and "bu_frame b < n"
  shows "tick_bundles b n =
    numbered (ep_id (bu_params b)) (bu_frame b) (bu_game b # replicate (nat (n - bu_frame b - 1)) [])"
proof -
  have "tick_bundles b n = \<lparr>fb_frame = bu_frame b, fb_bundle = local_bundle (ep_id (bu_params b)) (bu_game b) []\<rparr> #
      map (\<lambda>f. \<lparr>fb_frame = f, fb_bundle = local_bundle (ep_id (bu_params b)) [] []\<rparr>) [bu_frame b + 1..n - 1]"
    using assms by (simp add: tick_bundles_def upto_rec1)
  then show ?thesis using assms(2) by (simp add: numbered_replicate)
qed

lemma map_frame_events: "map (frame_events me) (numbered me f gss) = gss"
  by (induction gss arbitrary: f) (simp_all add: frame_events_def)

context game_iface
begin

lemma solo_step:
  assumes e: "solo G e" and i: "solo_input i" and b': "bundler_step i (en_bundler e) = Some (Inr b')"
    and bound: "bu_frame b' + win_len (en_updater e) \<le> max_i32 + 1"
  shows "\<exists>e'. engine_step G enc i e = Inr e' \<and> solo G e' \<and> en_bundler e' = b' \<and>
    win_len (en_updater e') = win_len (en_updater e) \<and>
    (\<exists>new. bu_out b' = bu_out (en_bundler e) @ new \<and>
       current_game e' = fold (solo_frame G) (map (frame_events (ep_id (bu_params b'))) new) (current_game e))"
proof -
  let ?b = "en_bundler e" and ?u = "en_updater e" and ?c = "en_comm e"
  note ed = e [unfolded solo_def]
  obtain ok: "bundler_ok b'" "bu_params b' = bu_params ?b" "bu_running b'"
    using bundler_step_ok [of ?b i] ed b' i by (cases i) auto
  show ?thesis
  proof (cases i)
    case (GameEvent x)
    then have b'': "b' = ?b\<lparr>bu_game := bu_game ?b @ [x]\<rparr>" using b' ed by simp
    have "engine_step G enc i e = Inr (e\<lparr>en_bundler := b', en_updater := ?u, en_comm := ?c\<rparr>)"
      using b' b'' by (simp add: engine_step_def)
    then show ?thesis using ed ok b'' by (auto simp: solo_def current_game_def)
  next
    case Tick
    obtain n where n: "frame_of (bu_params ?b) (i64 (bu_current_ms ?b + 1)) = Inr n"
      using ed by (auto simp: frame_of_def bundler_ok_def)
    let ?b1 = "?b\<lparr>bu_current_ms := i64 (bu_current_ms ?b + 1)\<rparr>"
    have b'': "b' = ticked ?b1 n"
    proof -
      have "in_i32 (bu_frame ?b)" "\<not> bu_closed ?b" using ed by (auto simp: bundler_ok_def)
      from on_tick_eq [OF n this] show ?thesis using b' ed Tick by simp
    qed
    show ?thesis
    proof (cases "bu_frame ?b < n")
      case False
      then have b3: "b' = ?b1" by (simp add: b'' ticked_def)
      have "engine_step G enc i e = Inr (e\<lparr>en_bundler := b', en_updater := ?u, en_comm := ?c\<rparr>)"
        using b' b3 by (simp add: engine_step_def)
      then show ?thesis using ed ok b3 by (auto simp: solo_def current_game_def)
    next
      case True
      let ?gss = "bu_game ?b # replicate (nat (n - bu_frame ?b - 1)) []"
      let ?me = "ep_id (bu_params ?b)"
      have tb: "tick_bundles ?b1 n = numbered ?me (up_global ?u + 1) ?gss"
        using tick_bundles_numbered [of ?b1 n] ed True by simp
      have b3: "bu_out b' = bu_out ?b @ numbered ?me (up_global ?u + 1) ?gss" "bu_engine b' = []" "bu_frame b' = n"
        using True tb by (auto simp: b'' ticked_def)
      have len: "int (length ?gss) = n - bu_frame ?b" using True by simp
      have "up_global ?u + int (length ?gss) + win_len ?u \<le> max_i32"
        using bound ed b3(3) unfolding len by simp
      then obtain v c where v: "fold_res (pass_on G enc) (numbered ?me (up_global ?u + 1) ?gss) (?u, ?c) = Inr (v, c)"
        "lone G ?me v" "up_global v = up_global ?u + int (length ?gss)" "win_len v = win_len ?u"
        "game_at v (win_start v) = fold (solo_frame G) ?gss (game_at ?u (win_start ?u))" "cm_bootstraps c = []"
        using lone_bundles [of ?me ?u ?c ?gss enc] ed by blast
      let ?e = "e\<lparr>en_bundler := b', en_updater := v, en_comm := c\<rparr>"
      have "engine_step G enc i e = Inr ?e" using b' b3(1) v(1) by (simp add: engine_step_def)
      moreover have "solo G ?e"
        using ok b3 v ed unfolding solo_def len by simp
      moreover have "current_game ?e = fold (solo_frame G) (map (frame_events ?me) (numbered ?me (up_global ?u + 1) ?gss)) (current_game e)"
        unfolding map_frame_events using v(5) by (simp add: current_game_def)
      ultimately show ?thesis using v(4) ok(2) b3(1) by auto
    qed
  qed (use i in auto)
qed

lemma solo_run:
  assumes "solo G e" and "\<forall>i \<in> set is. solo_input i"
    and "0 < ep_frame_ms (bu_params (en_bundler e))" and "0 \<le> bu_current_ms (en_bundler e)"
    and "bu_frame (en_bundler e) = bu_current_ms (en_bundler e) div ep_frame_ms (bu_params (en_bundler e))"
    and "bu_current_ms (en_bundler e) + ticks is < 2 ^ 63"
    and "(bu_current_ms (en_bundler e) + ticks is) div ep_frame_ms (bu_params (en_bundler e)) +
         win_len (en_updater e) \<le> max_i32 + 1"
  shows "\<exists>e' new. engine_run G enc is e = Inr e' \<and> solo G e' \<and>
    bundler_run is (en_bundler e) = Inr (en_bundler e') \<and>
    bu_out (en_bundler e') = bu_out (en_bundler e) @ new \<and>
    current_game e' = fold (solo_frame G) (map (frame_events (ep_id (bu_params (en_bundler e)))) new) (current_game e)"
  using assms
proof (induction "is" arbitrary: e)
  case Nil
  then show ?case by (simp add: engine_run_def)
next
  case (Cons i "is")
  let ?b = "en_bundler e" and ?fm = "ep_frame_ms (bu_params (en_bundler e))"
  have bok: "bundler_ok ?b" "bu_running ?b" using Cons.prems(1) by (auto simp: solo_def)
  obtain b1 where b1: "bundler_step i ?b = Some (Inr b1)" "bu_params b1 = bu_params ?b" "bu_frame ?b \<le> bu_frame b1"
    using bundler_step_ok [OF bok, of i] by blast
  have tk: "ticks (i # is) = ticks [i] + ticks is" by (cases i) auto
  have tn: "0 \<le> ticks [i]" "0 \<le> ticks is" using ticks_nonneg by blast+
  have i: "solo_input i" using Cons.prems(2) by simp
  have run1: "bundler_run [i] ?b = Inr b1" using b1(1) by (simp del: bundler_step.simps)
  have le: "(bu_current_ms ?b + ticks [i]) div ?fm \<le> (bu_current_ms ?b + ticks (i # is)) div ?fm"
    by (rule zdiv_mono1) (use tk tn Cons.prems(3) in auto)
  have wl: "2 \<le> win_len (en_updater e)" using Cons.prems(1) by (simp add: solo_def lone_def)
  have clock: "bu_current_ms b1 = bu_current_ms ?b + ticks [i] \<and> bu_frame b1 = bu_current_ms b1 div ?fm"
    by (rule bundler_clock [OF bok Cons.prems(3-5), of "[i]", OF _ _ _ _ run1])
      (use i Cons.prems(6,7) tk tn le wl in \<open>auto\<close>)
  have "bu_frame b1 + win_len (en_updater e) \<le> max_i32 + 1" using clock le Cons.prems(7) by simp
  from solo_step [OF Cons.prems(1) i b1(1) this, of enc]
  obtain e1 n1 where e1: "engine_step G enc i e = Inr e1" "solo G e1" "en_bundler e1 = b1"
    "win_len (en_updater e1) = win_len (en_updater e)" "bu_out b1 = bu_out ?b @ n1"
    "current_game e1 = fold (solo_frame G) (map (frame_events (ep_id (bu_params b1))) n1) (current_game e)"
    by blast
  have "\<exists>e' new. engine_run G enc is e1 = Inr e' \<and> solo G e' \<and>
    bundler_run is (en_bundler e1) = Inr (en_bundler e') \<and>
    bu_out (en_bundler e') = bu_out (en_bundler e1) @ new \<and>
    current_game e' = fold (solo_frame G) (map (frame_events (ep_id (bu_params (en_bundler e1)))) new) (current_game e1)"
    by (rule Cons.IH [OF e1(2)]) (use Cons.prems clock b1 e1 tk tn in \<open>auto simp: add.assoc\<close>)
  then obtain e' n2 where e': "engine_run G enc is e1 = Inr e'" "solo G e'"
    "bundler_run is b1 = Inr (en_bundler e')" "bu_out (en_bundler e') = bu_out b1 @ n2"
    "current_game e' = fold (solo_frame G) (map (frame_events (ep_id (bu_params b1))) n2) (current_game e1)"
    unfolding e1(3) by blast
  have "bundler_run (i # is) ?b = Inr (en_bundler e')" using b1(1) e'(3) by (simp del: bundler_step.simps)
  moreover have "engine_run G enc (i # is) e = Inr e'" using e1(1) e'(1) by (simp add: engine_run_def)
  ultimately show ?case using e'(2,4,5) e1(5,6) b1(2)
    by (intro exI [of _ e'] exI [of _ "n1 @ n2"]) (simp del: bundler_run.simps)
qed

end

section \<open>\<open>NewNetEngine\<close>\<close>

context game_iface
begin

lemma new_net_engine_ok:
  fixes tstart :: "'t \<Rightarrow> go_panic + 't"
  assumes t: "tstart t = Inr t'" and fm: "2 \<le> frame_ms" "frame_ms < 2 ^ 31"
    and mf: "1 \<le> max_frames" "max_frames < max_i32"
  shows "\<exists>e. new_net_engine G tstart t g frame_ms max_frames ping_up join_up = Inr e \<and> solo G e \<and>
    current_game e = g \<and> bu_frame (en_bundler e) = 1 \<and> bu_current_ms (en_bundler e) = frame_ms + 1 \<and>
    ep_frame_ms (bu_params (en_bundler e)) = frame_ms \<and> win_len (en_updater e) = max_frames + 1 \<and>
    bu_out (en_bundler e) = [] \<and> bu_game (en_bundler e) = [] \<and> win_start (en_updater e) = 0"
proof -
  let ?p = "net_params frame_ms max_frames"
  have pm: "ep_max_frames ?p = max_frames" by (simp add: net_params_def)
  have fm64: "i64 (frame_ms + 1) = frame_ms + 1" using fm by simp
  have "1 < frame_ms" using fm by simp
  then have "(frame_ms + 1) div frame_ms = 1" by (simp add: div_add_self1)
  then have dv: "(frame_ms + 1) sdiv frame_ms = 1" using fm by (simp add: sdiv_nonneg)
  obtain b :: "('e, 't) bundler" where b: "bundler_start tstart (zero_bundler ?p t (i64 (frame_ms + 1))) = Inr b" "bundler_ok b"
      "bu_running b" "bu_params b = ?p" "bu_frame b = 1" "bu_out b = []" "bu_game b = []" "bu_engine b = []"
      "bu_current_ms b = frame_ms + 1"
    using bundler_start_ok [of tstart "zero_bundler ?p t (i64 (frame_ms + 1))" t'] t fm fm64 dv
    by (auto simp: zero_bundler_def net_params_def)
  have d: "fd_game (initial_data ?p :: 'e frame_data) = Some 0"
    "known_engines (fd_info (initial_data ?p :: 'e frame_data)) = fmupd (EngineId 1234) True fmempty"
    by (simp_all add: initial_data_def known_engines_def net_params_def)
  let ?s = "history0 0 (fmupd (EngineId 1234) True fmempty) g False"
  obtain w h where u: "start G 0 (initial_data ?p) (zero_updater ?p True [g]) =
        Inr ((zero_updater ?p True [g])\<lparr>up_window := w, up_heap := h, up_local := 0, up_global := 0, up_dirty := 1\<rparr>)"
      "dw_first w = 0" "dw_len w = max_frames + 1"
      "settled G ?s ((zero_updater ?p True [g])\<lparr>up_window := w, up_heap := h, up_local := 0, up_global := 0, up_dirty := 1\<rparr>)"
    using start_ok [OF d(1), of "zero_updater ?p True [g]" 0] mf d(2)
    by (auto simp: Let_def pm)
  let ?u = "(zero_updater ?p True [g])\<lparr>up_window := w, up_heap := h, up_local := 0, up_global := 0, up_dirty := 1\<rparr>"
  have vw: "(engines_at ?u 0, game_at ?u 0) = (fmupd (EngineId 1234) True fmempty, g)"
    using settled_view [OF u(4), of 0] u(2) by (simp add: state_at_def)
  have "lone G (EngineId 1234) ?u"
    unfolding lone_def using u vw mf by (auto simp: run_inv_def intro!: exI [of _ ?s])
  let ?net = "host_request (Some host_ping) (Some host_join) ping_up join_up make_std_net"
  have "solo G \<lparr>en_bundler = b, en_updater = ?u, en_comm = comm_start (zero_communicator None), en_net = ?net\<rparr>"
    using b \<open>lone G (EngineId 1234) ?u\<close> by (simp add: solo_def net_params_def comm_start_def zero_communicator_def)
  moreover have "new_net_engine G tstart t g frame_ms max_frames ping_up join_up =
      Inr \<lparr>en_bundler = b, en_updater = ?u, en_comm = comm_start (zero_communicator None), en_net = ?net\<rparr>"
    unfolding new_net_engine_def Let_def using b(1) u(1) by simp
  ultimately show ?thesis using b u(2,3) vw
    by (intro exI) (auto simp: current_game_def net_params_def)
qed

end

end
