(* ===== verification/Updater_Calls.thy ===== *)
theory Updater_Calls
  imports Updater_Runs
begin

text \<open>
  The calls of the updater that block their caller: \<open>RequestFinalGameState\<close>,
  \<open>RequestFastGameState\<close>, \<open>NumEngines\<close> and \<open>Shutdown\<close> of \<open>core/updater.go\<close>, and when a call for a
  final state returns.
\<close>

section \<open>The calls\<close>

text \<open>
  A call makes a response channel \<open>c\<close>, sends its request to \<open>routine\<close> (an input of \<open>upd_step\<close>) and
  returns what it receives from that channel; \<open>None\<close> means that it is still blocked.
\<close>

definition request_final_game_state :: "int \<Rightarrow> nat \<Rightarrow> 'e upd_in" where
  "request_final_game_state f c = RequestState \<lparr>rq_frame = f, rq_chan = c, rq_final = True\<rparr>"

definition request_fast_game_state :: "int \<Rightarrow> nat \<Rightarrow> 'e upd_in" where
  "request_fast_game_state f c = RequestState \<lparr>rq_frame = f, rq_chan = c, rq_final = False\<rparr>"

fun response :: "nat \<Rightarrow> 'e upd_out list \<Rightarrow> (nat option \<times> int) option" where
  "response c [] = None"
| "response c (Respond c' p f # out) = (if c' = c then Some (p, f) else response c out)"
| "response c (m # out) = response c out"

text \<open>\<open>NumEngines\<close> sends on \<open>info_request\<close> and takes the answer of that round from \<open>info_response\<close>.\<close>

fun info_answer :: "'e upd_out list \<Rightarrow> int option" where
  "info_answer [] = None"
| "info_answer (InfoResponse n # out) = Some n"
| "info_answer (m # out) = info_answer out"

definition num_engines :: "('e, 'g) updater \<Rightarrow> go_panic + ('e, 'g) updater \<times> int option" where
  "num_engines u = seq (handle_info u) (\<lambda>v. Inr (v, info_answer (drop (length (up_out u)) (up_out v))))"

text \<open>\<open>Shutdown\<close> sends on a channel that no constructor makes (\<open>runs_no_shutdown\<close>): \<open>None\<close>, it blocks.\<close>

definition shutdown_call :: "('e, 'g) game_ops \<Rightarrow> ('e, 'g) updater \<Rightarrow> (go_panic + ('e, 'g) updater) option" where
  "shutdown_call G u = upd_step G ShutdownSignal u"

lemma num_engines_eq:
  "run_inv G s u \<Longrightarrow> num_engines u =
     (let n = int (length (keys (engines_at u (win_start u)))) in Inr (send (InfoResponse n) u, Some n))"
  by (simp add: num_engines_def info_round Let_def)

lemma response_append: "response c (xs @ ys) = (case response c xs of None \<Rightarrow> response c ys | Some a \<Rightarrow> Some a)"
  by (induction xs rule: response.induct) auto

lemma response_none: "response c out = None \<longleftrightarrow> c \<notin> set (resp_chans out)"
  by (induction out rule: resp_chans.induct) auto

lemma response_mem: "response c out = Some (p, f) \<Longrightarrow> Respond c p f \<in> set out"
  by (induction out rule: response.induct) (auto split: if_splits)

section \<open>Waiting for a final frame\<close>

text \<open>The inputs that are neither a request on channel \<open>c\<close> nor a request for the final frame \<open>f\<close>.\<close>

fun other_request :: "nat \<Rightarrow> int \<Rightarrow> 'e upd_in \<Rightarrow> bool" where
  "other_request c f (RequestState r) = (rq_chan r \<noteq> c \<and> \<not> (rq_final r \<and> rq_frame r = f))"
| "other_request c f _ = True"

context game_iface
begin

lemma shutdown_blocks: "runs G s u \<Longrightarrow> shutdown_call G u = None"
  using runs_no_shutdown by (simp add: shutdown_call_def)

end

text \<open>
  A call for the final frame \<open>f\<close> is blocked on channel \<open>c\<close>, and no other request waits for \<open>f\<close>.
\<close>

definition awaiting :: "nat \<Rightarrow> int \<Rightarrow> ('e, 'g) updater \<Rightarrow> bool" where
  "awaiting c f u \<longleftrightarrow> win_start u < f \<and> response c (up_out u) = None \<and> c \<in># ledger u \<and>
     (\<forall>r \<in> set (up_final u). rq_chan r = c \<longrightarrow> rq_frame r = f) \<and> (\<forall>r \<in> set (up_fast u). rq_chan r \<noteq> c) \<and>
     length (filter (\<lambda>r. rq_frame r = f) (up_final u)) \<le> 1"

definition answered :: "('e, 'g) game_ops \<Rightarrow> ('e, 'g) history \<Rightarrow> nat \<Rightarrow> int \<Rightarrow> ('e, 'g) updater \<Rightarrow> bool" where
  "answered G s c f u \<longleftrightarrow>
     (\<exists>a. response c (up_out u) = Some (Some a, f) \<and> up_heap u ! a = snd (state_at G s f))"

text \<open>
  The answer to a call came in one of the rounds: it names frame \<open>f\<close> and points to an object that,
  when the answer is sent, holds the game of that frame; and it is what the call returns.
\<close>

definition answered_by :: "('e, 'g) game_ops \<Rightarrow> ('e, 'g) history \<Rightarrow> ('e, 'g) updater \<Rightarrow> nat \<Rightarrow> int \<Rightarrow>
  'e upd_in list \<Rightarrow> ('e, 'g) history \<Rightarrow> ('e, 'g) updater \<Rightarrow> bool" where
  "answered_by G s u c f is t v \<longleftrightarrow> (\<exists>a js ks t' x. is = js @ ks \<and> rounds G s u js t' x \<and> rounds G t' x ks t v \<and>
     response c (up_out x) = Some (Some a, f) \<and> up_heap x ! a = snd (state_at G t' f) \<and>
     response c (up_out v) = Some (Some a, f))"

lemma ledger_mem: "c \<in># ledger u \<longleftrightarrow> c \<in> rq_chan ` set (up_final u) \<or> c \<in> rq_chan ` set (up_fast u) \<or>
    response c (up_out u) \<noteq> None"
  by (auto simp: ledger_def response_none)

lemma clears_length:
  assumes "clears lo hi q q'"
  shows "length (filter P q') \<le> length (filter P q)"
proof -
  have "size (filter_mset P (mset q')) \<le> size (filter_mset P (mset q))"
    using assms unfolding clears_def by (intro size_mset_mono multiset_filter_mono) blast
  then show ?thesis by (simp flip: size_mset)
qed

text \<open>A round without a request: the call is answered exactly when the window reaches its frame.\<close>

lemma awaiting_round:
  assumes "awaiting c f u" and w: "answers_waiting u v" and "ledger v = ledger u" and t: "sends_truth G s u v"
  shows "if f \<le> win_start v then answered G s c f v else awaiting c f v"
proof -
  note aw = assms(1) [unfolded awaiting_def] and d = answers_waitingD [OF w]
  obtain out where out: "up_out v = up_out u @ out"
    "\<And>c p f. Respond c p f \<in> set out \<Longrightarrow> p \<noteq> None \<and>
        ((\<exists>r \<in> set (up_final u). rq_chan r = c \<and> rq_frame r = f \<and> win_start u < f \<and> f \<le> win_start v) \<or>
         (\<exists>r \<in> set (up_fast u). rq_chan r = c))"
    using w unfolding answers_waiting_def by blast
  have res: "response c (up_out v) = response c out" using aw by (simp add: out(1) response_append)
  have due: "c \<in># ledger v" using aw assms(3) by simp
  have fast: "c \<notin> rq_chan ` set (up_fast v)" using d(3) aw by blast
  show ?thesis
  proof (cases "f \<le> win_start v")
    case True
    have "\<forall>r \<in> set (up_final v). rq_frame r \<noteq> f" using d(1) aw True unfolding clears_def by blast
    then have "c \<notin> rq_chan ` set (up_final v)" using aw d(2) by blast
    then have "response c out \<noteq> None" using due fast ledger_mem [of c v] res by simp
    then obtain p g where "response c out = Some (p, g)" by auto
    moreover from response_mem [OF this] have pg: "p \<noteq> None" "g = f" using out(2) [of c p g] aw by auto
    ultimately obtain a where a: "response c out = Some (Some a, f)" by auto
    obtain out' where "up_out v = up_out u @ out'" "\<forall>m \<in> set out'. true_message G s (up_heap v) m"
      using t unfolding sends_truth_def by blast
    then have "true_message G s (up_heap v) (Respond c (Some a) f)" using response_mem [OF a] out(1) by auto
    then show ?thesis using True a res by (auto simp: answered_def)
  next
    case False
    have "response c out = None"
    proof (rule ccontr)
      assume "response c out \<noteq> None"
      then obtain p g where "response c out = Some (p, g)" by auto
      from out(2) [OF response_mem [OF this]] show False using aw False by auto
    qed
    moreover have "length (filter (\<lambda>r. rq_frame r = f) (up_final v)) \<le> 1"
      using clears_length [OF d(1), of "\<lambda>r. rq_frame r = f"] aw by linarith
    moreover have "\<forall>r \<in> set (up_final v). rq_chan r = c \<longrightarrow> rq_frame r = f" using d(2) aw by blast
    moreover have "\<forall>r \<in> set (up_fast v). rq_chan r \<noteq> c" using fast by blast
    ultimately show ?thesis using False due res by (simp add: awaiting_def)
  qed
qed

context game_iface
begin

lemma awaiting_step:
  assumes u: "run_inv G s u" and ok: "input_ok G i s u" and o: "other_request c f i" and aw: "awaiting c f u"
    and v: "upd_step G i u = Some (Inr v)"
  shows "if f \<le> win_start v then answered G (accept_input i u s) c f v else awaiting c f v"
proof (cases i)
  case (LocalBundle lb)
  then show ?thesis using local_round [OF u, of lb] ok v awaiting_round [OF aw, of v G "accept_local lb u s"] by auto
next
  case (RemoteBundles rbs)
  then show ?thesis
    using remote_round [OF u, of rbs] ok v awaiting_round [OF aw, of v G "fold (accept (win_start u)) rbs s"] by auto
next
  case (RequestState r)
  then have "rq_final r \<or> 0 \<le> rq_frame r \<or> win_start u \<le> up_local u" "handle_request r u = Inr v"
    using ok v by auto
  then show ?thesis using handle_request_eq [OF u, of r] o aw RequestState
    by (cases "answer_of r u")
      (auto simp: awaiting_def ledger_def response_append split: if_splits)
next
  case InfoRequest
  then show ?thesis using info_round [OF u] v aw by (auto simp: awaiting_def ledger_def response_append)
next
  case ShutdownSignal
  then show ?thesis using v aw by (auto simp: awaiting_def ledger_def response_append split: if_splits)
qed

lemma response_step:
  assumes "run_inv G s u" and "input_ok G i s u" and "upd_step G i u = Some (Inr v)"
    and "response c (up_out u) = Some a"
  shows "response c (up_out v) = Some a"
proof -
  have "sends_truth G (accept_input i u s) u v" using round_ok [OF assms(1,2)] assms(3) by auto
  then show ?thesis using assms(4) by (auto simp: sends_truth_def response_append)
qed

lemma answered_by_more:
  assumes "run_inv G s u" and "answered_by G s u c f is t v" and "input_ok G i t v" and "upd_step G i v = Some (Inr w)"
  shows "answered_by G s u c f (is @ [i]) (accept_input i v t) w"
proof -
  obtain a js ks t' x where x: "is = js @ ks" "rounds G s u js t' x" "rounds G t' x ks t v"
      "response c (up_out x) = Some (Some a, f)" "up_heap x ! a = snd (state_at G t' f)"
      "response c (up_out v) = Some (Some a, f)"
    using assms(2) unfolding answered_by_def by blast
  have "run_inv G t v" by (rule rounds_run_inv [OF x(3) rounds_run_inv [OF x(2) assms(1)]])
  then have "response c (up_out w) = Some (Some a, f)" using response_step assms(3,4) x(6) by blast
  moreover have "is @ [i] = js @ ks @ [i]" using x(1) by simp
  ultimately show ?thesis
    using x(2,4,5) rounds_more [OF x(3) assms(3,4)] unfolding answered_by_def by blast
qed

lemma awaiting_rounds:
  assumes "rounds G s u is t v" and "run_inv G s u" and "awaiting c f u" and "\<forall>i \<in> set is. other_request c f i"
  shows "if f \<le> win_start v then answered_by G s u c f is t v else awaiting c f v"
  using assms(1,4)
proof (induction rule: rounds.induct)
  case rounds_none
  then show ?case using assms(3) by (auto simp: awaiting_def)
next
  case (rounds_more "is" t v i w)
  note more = rounds_more.hyps
  have v: "run_inv G t v" by (rule rounds_run_inv [OF more(1) assms(2)])
  have IH: "if f \<le> win_start v then answered_by G s u c f is t v else awaiting c f v"
    using rounds_more.IH rounds_more.prems by simp
  show ?case
  proof (cases "f \<le> win_start v")
    case True
    then have "answered_by G s u c f (is @ [i]) (accept_input i v t) w"
      using IH answered_by_more [OF assms(2)] more(2,3) by simp
    moreover have "win_start v \<le> win_start w" using round_ok [OF v more(2)] more(3) by auto
    ultimately show ?thesis using True by simp
  next
    case False
    then have "awaiting c f v" using IH by simp
    then have st: "if f \<le> win_start w then answered G (accept_input i v t) c f w else awaiting c f w"
      using awaiting_step [OF v more(2) _ _ more(3)] rounds_more.prems by simp
    show ?thesis
    proof (cases "f \<le> win_start w")
      case True
      with st obtain a where "response c (up_out w) = Some (Some a, f)"
          "up_heap w ! a = snd (state_at G (accept_input i v t) f)"
        by (auto simp: answered_def)
      then have "answered_by G s u c f (is @ [i]) (accept_input i v t) w"
        using rounds.rounds_more [OF more] rounds.rounds_none append_Nil2 unfolding answered_by_def by metis
      then show ?thesis using True by simp
    next
      case False
      with st show ?thesis by simp
    qed
  qed
qed

lemma response_rounds:
  "rounds G s u is t v \<Longrightarrow> run_inv G s u \<Longrightarrow> response c (up_out u) = Some a \<Longrightarrow> response c (up_out v) = Some a"
  by (induction rule: rounds.induct) (use response_step rounds_run_inv in blast)+

text \<open>A call for a final state on a fresh channel, when no other request waits for its frame.\<close>

lemma final_call:
  assumes u: "run_inv G s u" and fresh: "c \<notin># ledger u" and alone: "\<forall>r \<in> set (up_final u). rq_frame r \<noteq> f"
    and v: "upd_step G (request_final_game_state f c) u = Some (Inr v)"
    and rs: "rounds G s v is t w" and others: "\<forall>i \<in> set is. other_request c f i"
  shows "let g = (if f < 0 then win_start u else f) in
    if g < win_start u then response c (up_out w) = Some (None, 0)
    else if g \<le> win_start w then answered_by G s v c g is t w
    else response c (up_out w) = None"
proof -
  let ?r = "\<lparr>rq_frame = f, rq_chan = c, rq_final = True\<rparr>"
  have hr: "handle_request ?r u = Inr v" using v by (simp add: request_final_game_state_def)
  have ri: "run_inv G s v" "win_start v = win_start u" "sends_truth G s u v"
    using request_round [OF u, of ?r] hr by auto
  have out: "response c (up_out u) = None" and notin: "c \<notin> rq_chan ` set (up_final u)" "c \<notin> rq_chan ` set (up_fast u)"
    using fresh by (auto simp: ledger_mem)
  have le: "win_start u \<le> win_start w" using rounds_win [OF rs ri(1)] ri(2) by simp
  show ?thesis
  proof (cases "answer_of ?r u")
    case Later
    then have lt: "0 \<le> f" "win_start u < f" by (auto simp: answer_of_def Let_def split: if_splits)
    have "v = u\<lparr>up_final := up_final u @ [?r]\<rparr>" using handle_request_eq [OF u, of ?r] hr Later by simp
    then have "awaiting c f v" using lt out notin alone by (auto simp: awaiting_def ledger_def)
    from awaiting_rounds [OF rs ri(1) this others] show ?thesis
      using lt by (auto simp: Let_def awaiting_def split: if_splits)
  next
    case (Now p g)
    then have vv: "v = send (Respond c p g) u" using handle_request_eq [OF u, of ?r] hr by simp
    then have rv: "response c (up_out v) = Some (p, g)" using out by (simp add: response_append)
    note rw = response_rounds [OF rs ri(1) rv]
    show ?thesis
    proof (cases "0 \<le> f \<and> f < win_start u")
      case True
      then have "p = None" "g = 0" using Now by (auto simp: answer_of_def Let_def)
      then show ?thesis using True rw by simp
    next
      case False
      then have pg: "p = fd_game (fd_at u g)" "g = (if f < 0 then win_start u else f)" "g = win_start u"
        using Now by (auto simp: answer_of_def Let_def split: if_splits)
      obtain a where a: "p = Some a" using game_ptr [OF run_invD(5) [OF u]] pg(1) by metis
      have "true_message G s (up_heap v) (Respond c (Some a) g)"
        using ri(3) by (auto simp: sends_truth_def vv a)
      then have "up_heap v ! a = snd (state_at G s g)" by simp
      then have "answered_by G s v c g is t w"
        unfolding answered_by_def using rounds_none rs rv rw a append_Nil by metis
      then show ?thesis using le pg(3) by (simp add: Let_def flip: pg(2))
    qed
  qed
qed

end

end
