(* ===== verification/Updater_Faults.thy ===== *)
theory Updater_Faults
  imports Updater_Runs Auditor
begin

text \<open>
  What happens outside the conditions of \<open>Updater_Runs\<close>: the panics and lost answers that the
  code's own comments leave open.
\<close>

section \<open>Frames beyond the window\<close>

lemma for_le_stops:
  assumes "I a s" and "a \<le> c" and "c \<le> b"
    and "\<And>i t. a \<le> i \<Longrightarrow> i < c \<Longrightarrow> I i t \<Longrightarrow> \<exists>t'. body i t = Inr t' \<and> I (i + 1) t'"
    and "\<And>t. I c t \<Longrightarrow> body c t = Inl e" and "c \<le> max_i32"
  shows "for_le a b body s = Inl e"
  using assms(1,2,4)
proof (induction "nat (c - a)" arbitrary: a s)
  case 0
  then have "a = c" by simp
  then show ?case using 0 assms(3,5) by (simp add: for_le.simps)
next
  case (Suc n)
  then have ac: "a < c" by simp
  obtain s' where s': "body a s = Inr s'" "I (a + 1) s'" using Suc.prems(3) [OF order_refl ac Suc.prems(1)] by blast
  have "for_le (a + 1) b body s' = Inl e"
    by (rule Suc.hyps(1)) (use Suc.hyps(2) s'(2) ac Suc.prems(3) in auto)
  then show ?case using s'(1) ac assms(3,6) by (subst for_le.simps) simp
qed

context game_iface
begin

lemma open_beyond:
  assumes u: "upd_inv G s u" and f: "win_start u + win_len u \<le> f" and b: "win_start u + win_len u \<le> max_i32"
  shows "for_le (i32 (up_global u + 1)) f init_frame_data u = Inl OutsideWindow"
proof -
  note sh = upd_shapeD [OF upd_invD(1) [OF u]]
  let ?e = "win_start u + win_len u"
  have start: "open_inv s u (up_global u + 1) u"
    unfolding open_inv_def by (rule exI [of _ "up_window u"]) (use u sh in \<open>auto simp: upd_inv_def\<close>)
  have stop: "init_frame_data ?e t = Inl OutsideWindow" if t: "open_inv s u ?e t" for t
  proof -
    obtain w where w: "t = u\<lparr>up_window := w\<rparr>" "dw_first w = win_start u" "dw_len w = win_len u" "win_ok t"
      using t unfolding open_inv_def by blast
    have "inwin t (?e - 1)" "\<not> inwin t ?e" using w sh by (auto simp: dw_inb_def)
    moreover have "i32 (?e - 1) = ?e - 1" "\<not> ?e - 1 < win_start t" using w sh b by auto
    ultimately show ?thesis
      unfolding init_frame_data_def using w(4) by (simp add: dw_get_fd_at dw_get_out [OF win_ok_dw])
  qed
  have "for_le (up_global u + 1) f init_frame_data u = Inl OutsideWindow"
    by (rule for_le_stops [where I = "open_inv s u" and c = ?e])
      (use start stop f b sh open_step [OF u] in auto)
  then show ?thesis using sh by simp
qed

lemma remote_beyond:
  assumes u: "upd_inv G s u" and f: "win_start u + win_len u \<le> fb_frame rb"
    and b: "win_start u + win_len u \<le> max_i32"
  shows "handle_remote G (rb # rbs) u = Inl OutsideWindow"
proof -
  have "win_start u < fb_frame rb" using f upd_shapeD(9) [OF upd_invD(1) [OF u]] by simp
  then have "remote_one rb u = Inl OutsideWindow"
    using open_beyond [OF u f b] by (simp add: remote_one_def)
  then show ?thesis by (simp add: handle_remote_def)
qed

section \<open>A second bundle of one engine for one frame\<close>

lemma remote_collision:
  assumes u: "upd_inv G s u" and f: "win_start u < fb_frame rb" "fb_frame rb \<le> up_global u"
    and c: "\<not> disjoint_bundles (hi_bundles s (fb_frame rb)) (map_of_nilable (fb_bundle rb))"
  shows "\<exists>k. handle_remote G (rb # rbs) u = Inl (Collision (eid k)) \<and>
    k \<in> fmdom' (hi_bundles s (fb_frame rb)) \<and> k \<in> fmdom' (map_of_nilable (fb_bundle rb))"
proof -
  note sh = upd_shapeD [OF upd_invD(1) [OF u]]
  let ?f = "fb_frame rb" and ?b = "fb_bundle rb"
  obtain k where k: "absorb (Some (hi_bundles s ?f)) ?b = Inl (Collision (eid k))"
      "k \<in> fmdom' (hi_bundles s ?f)" "k \<in> fmdom' (map_of_nilable ?b)"
    using absorb_with_collision [OF keys_enumerates c] by (auto simp: absorb_def)
  have inw: "inwin u ?f" using f sh by (auto simp: dw_inb_def)
  have fb: "fd_bundle (fd_at u ?f) = Some (hi_bundles s ?f)"
    using upd_invD(4) [OF u] f by (simp add: bundles_match_def)
  let ?v = "extend_to ?f u"
  have ab: "absorb_at ?f ?b (?v\<lparr>up_skip := sk\<rparr>) = Inl (Collision (eid k))" for sk
    using inw by (simp add: absorb_at_def dw_get_fd_at [OF sh(1)] fb k(1))
  have ab': "absorb_at ?f ?b ?v = Inl (Collision (eid k))"
    using inw by (simp add: absorb_at_def dw_get_fd_at [OF sh(1)] fb k(1))
  have "i32 (up_global u + 1) = up_global u + 1" using sh by simp
  then have "for_le (i32 (up_global u + 1)) ?f init_frame_data u = Inr u" using f by simp
  then have "remote_one rb u = Inl (Collision (eid k))"
    using f note_joined_total [of ?b "ep_id (up_params u)" ?f "up_skip ?v"] ab ab'
    by (auto simp: remote_one_def Let_def)
  with k show ?thesis by (auto simp: handle_remote_def)
qed

section \<open>A closed channel of local bundles\<close>

lemma closed_local:
  assumes u: "run_inv G s u" and k: "up_skip u = 0" "0 < win_start u"
  shows "handle_local G zero_frame_bundle u = Inl OutsideWindow"
proof -
  note ru = run_invD [OF u] and sh = upd_shapeD [OF upd_invD(1) [OF settledD(1) [OF run_invD(1) [OF u]]]]
  have i: "i32 (up_global u + 1) = up_global u + 1" using sh by simp
  have "\<not> inwin u 0" using k by (simp add: dw_inb_def)
  then have "absorb_at 0 None (extend_to 0 (u\<lparr>up_local := 0\<rparr>)) = Inl OutsideWindow"
    using dw_get_out [OF sh(2)] by (simp add: absorb_at_def)
  then show ?thesis using k ru sh
    unfolding handle_local_def zero_frame_bundle_def by (simp add: i Let_def)
qed

end

section \<open>Two requests for one frame\<close>

lemma two_final_requests:
  assumes "win_ok u" and "up_final u = [r1, r2]" and "rq_frame r1 = win_start u" and "rq_frame r2 = win_start u"
  shows "fulfill_final_requests u =
    Inr (u\<lparr>up_final := [r2],
           up_out := up_out u @ [Respond (rq_chan r1) (fd_game (fd_at u (win_start u))) (win_start u)]\<rparr>)"
proof -
  have "sweep (\<lambda>r. rq_frame r = win_start u) 0 [r1, r2] = ([r1], [r2])"
    using assms(3,4) by (simp add: sweep_hit sweep_done)
  moreover have "inwin u (win_start u)" using dw_okD [OF win_ok_dw [OF assms(1)]] by (simp add: dw_inb_def)
  ultimately show ?thesis using fulfill_final_ok [OF assms(1)] assms(2) by simp
qed

end
