(* ===== verification/Gob.thy ===== *)
theory Gob
  imports Events
begin

text \<open>
  \<open>GobEncode\<close> and \<open>GobDecode\<close> of \<open>AllEvents\<close> (\<open>core/event.go\<close>): the two event lists, each
  preceded by its length as a \<open>uint32\<close>. The stream is a list of gob values; \<open>encoding/gob\<close>
  writes an interface value only when its type has been registered, which is the argument
  \<open>reg\<close> for the user's events (the two engine events are registered by \<open>init\<close>), and refuses to
  read a value of another type than the one asked for.
\<close>

section \<open>Streams\<close>

datatype 'e gob_value =
    GobLen int                   \<comment> \<open>a \<open>uint32\<close>\<close>
  | GobGame 'e                   \<comment> \<open>an \<open>Event\<close> interface value\<close>
  | GobEngine engine_event       \<comment> \<open>an \<open>EngineEvent\<close> interface value\<close>

datatype gob_error = NotRegistered | WrongType | EndOfStream

definition u32_len :: "'x list \<Rightarrow> int" where
  "u32_len xs = take_bit 32 (int (length xs))"

text \<open>The two loops of \<open>GobEncode\<close>, on the buffer written so far.\<close>

fun encode_games :: "('e \<Rightarrow> bool) \<Rightarrow> 'e list \<Rightarrow> 'e gob_value list \<Rightarrow> gob_error + 'e gob_value list" where
  "encode_games reg [] buf = Inr buf"
| "encode_games reg (e # es) buf =
     (if reg e then encode_games reg es (buf @ [GobGame e]) else Inl NotRegistered)"

fun encode_engines :: "engine_event list \<Rightarrow> 'e gob_value list \<Rightarrow> 'e gob_value list" where
  "encode_engines [] buf = buf"
| "encode_engines (e # es) buf = encode_engines es (buf @ [GobEngine e])"

definition gob_encode :: "('e \<Rightarrow> bool) \<Rightarrow> 'e all_events \<Rightarrow> gob_error + 'e gob_value list" where
  "gob_encode reg ae =
     (case encode_games reg (ae_game ae) [GobLen (u32_len (ae_game ae))] of
        Inl err \<Rightarrow> Inl err
      | Inr buf \<Rightarrow> Inr (encode_engines (ae_engine ae) (buf @ [GobLen (u32_len (ae_engine ae))])))"

fun decode_len :: "'e gob_value list \<Rightarrow> gob_error + int \<times> 'e gob_value list" where
  "decode_len (GobLen n # vs) = Inr (n, vs)"
| "decode_len (_ # vs) = Inl WrongType"
| "decode_len [] = Inl EndOfStream"

fun decode_games :: "nat \<Rightarrow> 'e gob_value list \<Rightarrow> gob_error + 'e list \<times> 'e gob_value list" where
  "decode_games 0 vs = Inr ([], vs)"
| "decode_games (Suc n) (GobGame e # vs) =
     (case decode_games n vs of Inl err \<Rightarrow> Inl err | Inr (es, rest) \<Rightarrow> Inr (e # es, rest))"
| "decode_games (Suc n) [] = Inl EndOfStream"
| "decode_games (Suc n) (_ # vs) = Inl WrongType"

fun decode_engines :: "nat \<Rightarrow> 'e gob_value list \<Rightarrow> gob_error + engine_event list \<times> 'e gob_value list" where
  "decode_engines 0 vs = Inr ([], vs)"
| "decode_engines (Suc n) (GobEngine e # vs) =
     (case decode_engines n vs of Inl err \<Rightarrow> Inl err | Inr (es, rest) \<Rightarrow> Inr (e # es, rest))"
| "decode_engines (Suc n) [] = Inl EndOfStream"
| "decode_engines (Suc n) (_ # vs) = Inl WrongType"

definition gob_decode :: "'e gob_value list \<Rightarrow> gob_error + 'e all_events" where
  "gob_decode vs =
     (case decode_len vs of Inl err \<Rightarrow> Inl err
      | Inr (n, vs1) \<Rightarrow>
     (case decode_games (nat n) vs1 of Inl err \<Rightarrow> Inl err
      | Inr (gs, vs2) \<Rightarrow>
     (case decode_len vs2 of Inl err \<Rightarrow> Inl err
      | Inr (m, vs3) \<Rightarrow>
     (case decode_engines (nat m) vs3 of Inl err \<Rightarrow> Inl err
      | Inr (es, vs4) \<Rightarrow> Inr \<lparr>ae_game = gs, ae_engine = es\<rparr>))))"

section \<open>What is written and read\<close>

lemma encode_games_eq:
  "encode_games reg es buf = (if list_all reg es then Inr (buf @ map GobGame es) else Inl NotRegistered)"
  by (induction es arbitrary: buf) auto

lemma encode_engines_eq: "encode_engines es buf = buf @ map GobEngine es"
  by (induction es arbitrary: buf) auto

lemma gob_encode_eq:
  "gob_encode reg ae =
     (if list_all reg (ae_game ae)
      then Inr (GobLen (u32_len (ae_game ae)) # map GobGame (ae_game ae) @
                GobLen (u32_len (ae_engine ae)) # map GobEngine (ae_engine ae))
      else Inl NotRegistered)"
  by (simp add: gob_encode_def encode_games_eq encode_engines_eq)

lemma decode_games_map: "decode_games (length es) (map GobGame es @ vs) = Inr (es, vs)"
  by (induction es) auto

lemma decode_engines_map: "decode_engines (length es) (map GobEngine es @ vs) = Inr (es, vs)"
  by (induction es) auto

lemma decode_engines_all: "decode_engines (length es) (map GobEngine es) = Inr (es, [])"
  using decode_engines_map [of es "[]"] by simp

lemma u32_len_small: "length xs < 2 ^ 32 \<Longrightarrow> nat (u32_len xs) = length xs"
  by (simp add: u32_len_def take_bit_int_eq_self)

lemma gob_decode_encoded:
  assumes "length (ae_game ae) < 2 ^ 32" and "length (ae_engine ae) < 2 ^ 32"
  shows "gob_decode (GobLen (u32_len (ae_game ae)) # map GobGame (ae_game ae) @
           GobLen (u32_len (ae_engine ae)) # map GobEngine (ae_engine ae)) = Inr ae"
  using assms by (simp add: gob_decode_def u32_len_small decode_games_map decode_engines_all)

text \<open>A shortened stream is an error, never a shorter list.\<close>

lemma decode_games_short: "length es < n \<Longrightarrow> decode_games n (map GobGame es) = Inl EndOfStream"
proof (induction es arbitrary: n)
  case Nil
  then show ?case by (cases n) auto
next
  case (Cons e es)
  then obtain m where "n = Suc m" "length es < m" by (cases n) auto
  then show ?case using Cons.IH by simp
qed

lemma decode_engines_short: "length es < n \<Longrightarrow> decode_engines n (map GobEngine es) = Inl EndOfStream"
proof (induction es arbitrary: n)
  case Nil
  then show ?case by (cases n) auto
next
  case (Cons e es)
  then obtain m where "n = Suc m" "length es < m" by (cases n) auto
  then show ?case using Cons.IH by simp
qed

lemma gob_decode_prefix:
  assumes "length (ae_game ae) < 2 ^ 32" and "length (ae_engine ae) < 2 ^ 32"
    and "gob_encode reg ae = Inr vs" and "k < length vs"
  shows "gob_decode (take k vs) = Inl EndOfStream"
proof -
  let ?g = "ae_game ae" and ?e = "ae_engine ae"
  have vs: "vs = GobLen (u32_len ?g) # map GobGame ?g @ GobLen (u32_len ?e) # map GobEngine ?e"
    using assms(3) by (simp add: gob_encode_eq split: if_splits)
  show ?thesis
  proof (cases k)
    case 0
    then show ?thesis by (simp add: gob_decode_def)
  next
    case (Suc j)
    consider "j < length ?g" | "j = length ?g" | i where "j = length ?g + Suc i" "i < length ?e"
    proof (cases "j \<le> length ?g")
      case False
      then obtain i where "j = length ?g + Suc i" using less_imp_Suc_add [of "length ?g" j] by auto
      then show thesis using that(3) assms(4) Suc vs by auto
    qed (use that(1,2) in force)
    then show ?thesis
    proof cases
      case 1
      then have "take k vs = GobLen (u32_len ?g) # map GobGame (take j ?g)"
        by (simp add: vs Suc take_map)
      then show ?thesis using 1 decode_games_short [of "take j ?g" "length ?g"] assms(1)
        by (simp add: gob_decode_def u32_len_small)
    next
      case 2
      then have "take k vs = GobLen (u32_len ?g) # map GobGame ?g @ []" by (simp add: vs Suc)
      then show ?thesis using decode_games_map [of ?g "[]"] assms(1)
        by (simp add: gob_decode_def u32_len_small)
    next
      case 3
      then have "take k vs = GobLen (u32_len ?g) # map GobGame ?g @ GobLen (u32_len ?e) # map GobEngine (take i ?e)"
        by (simp add: vs Suc take_map)
      then show ?thesis
        using 3 assms(1,2)
        by (simp add: gob_decode_def u32_len_small decode_games_map decode_engines_short)
    qed
  qed
qed

end
