(* ===== verification/Network_Mock.thy ===== *)
theory Network_Mock
  imports Events
begin

text \<open>
  The in-process network of \<open>core/network_mock.go\<close>: a registry of hosts with their callbacks and
  connections, and the lanes between the two ends of a connection. Host objects are numbered by
  their \<open>id\<close>, connections by the order in which they are made. A callback that is nil is
  \<open>None\<close>; errors are the sum type \<open>mock_error\<close>.
\<close>

section \<open>The registry\<close>

datatype 'err mock_error =
    UnknownRemoteType
  | SelfConnection
  | ConnectedTwice
  | AlreadyConnected
  | RemoteNotFound
  | JoinRefused 'err

record ('d, 'err) mock_host =
  mh_id :: nat
  mh_ping :: "('d \<Rightarrow> 'd \<times> 'err option) option"
  mh_join :: "('d \<Rightarrow> 'err option) option"
  mh_conns :: "(nat \<times> nat) list"        \<comment> \<open>\<open>conn_data\<close>: connection and \<open>remote_id\<close>\<close>
  mh_new_conns :: "nat list"            \<comment> \<open>connections offered on \<open>new_conns\<close>\<close>

record ('d, 'err) mock_net =
  mn_hosts :: "nat list"
  mn_host_id :: nat
  mn_pair_id :: nat
  mn_objs :: "('d, 'err) mock_host list"     \<comment> \<open>every host ever made, by \<open>id\<close>\<close>
  mn_pairs :: "nat list"                   \<comment> \<open>the \<open>pair_id\<close> of every connection ever made\<close>

datatype ('d, 'err) remote_host =
    MockRemote 'd "'err option" nat        \<comment> \<open>\<open>networkMockRemoteHost\<close>\<close>
  | OtherRemote

definition empty_net :: "('d, 'err) mock_net" where
  "empty_net = \<lparr>mn_hosts = [], mn_host_id = 0, mn_pair_id = 0, mn_objs = [], mn_pairs = []\<rparr>"

definition new_host_mock :: "('d, 'err) mock_net \<Rightarrow> ('d, 'err) mock_net \<times> nat" where
  "new_host_mock n =
     (n\<lparr>mn_host_id := mn_host_id n + 1,
        mn_objs := mn_objs n @ [\<lparr>mh_id = mn_host_id n, mh_ping = None, mh_join = None, mh_conns = [], mh_new_conns = []\<rparr>],
        mn_hosts := mn_hosts n @ [mn_host_id n]\<rparr>, mn_host_id n)"

definition mock_host_fns :: "nat \<Rightarrow> ('d \<Rightarrow> 'd \<times> 'err option) option \<Rightarrow> ('d \<Rightarrow> 'err option) option \<Rightarrow>
  ('d, 'err) mock_net \<Rightarrow> ('d, 'err) mock_net" where
  "mock_host_fns h p j n = n\<lparr>mn_objs := (mn_objs n)[h := (mn_objs n ! h)\<lparr>mh_ping := p, mh_join := j\<rparr>]\<rparr>"

definition mock_ping :: "'d \<Rightarrow> ('d, 'err) mock_net \<Rightarrow> ('d, 'err) remote_host list" where
  "mock_ping data n =
     fold (\<lambda>i rhs. case mh_ping (mn_objs n ! i) of
                     None \<Rightarrow> rhs
                   | Some f \<Rightarrow> rhs @ [MockRemote (fst (f data)) (snd (f data)) (mh_id (mn_objs n ! i))])
       (mn_hosts n) []"

text \<open>\<open>makeConnMockPair\<close>: the local connection gets the even number, the remote one the odd.\<close>

definition make_pair :: "nat \<Rightarrow> nat \<Rightarrow> ('d, 'err) mock_net \<Rightarrow> ('d, 'err) mock_net \<times> nat \<times> nat" where
  "make_pair a b n =
     (let c1 = length (mn_pairs n); c2 = Suc c1;
          o1 = (mn_objs n)[a := (mn_objs n ! a)\<lparr>mh_conns := mh_conns (mn_objs n ! a) @ [(c1, b)]\<rparr>];
          o2 = o1[b := (o1 ! b)\<lparr>mh_conns := mh_conns (o1 ! b) @ [(c2, a)]\<rparr>]
      in (n\<lparr>mn_pair_id := mn_pair_id n + 1, mn_pairs := mn_pairs n @ [mn_pair_id n, mn_pair_id n],
            mn_objs := o2\<rparr>, c1, c2))"

definition connected_to :: "nat \<Rightarrow> ('d, 'err) mock_host \<Rightarrow> bool" where
  "connected_to r h \<longleftrightarrow> r \<in> set (map snd (mh_conns h))"

definition mock_join :: "nat \<Rightarrow> ('d, 'err) remote_host \<Rightarrow> 'd \<Rightarrow> ('d, 'err) mock_net \<Rightarrow>
  go_panic + ('d, 'err) mock_net \<times> ('err mock_error + nat)" where
  "mock_join h remote data n =
     (case remote of
        OtherRemote \<Rightarrow> Inr (n, Inl UnknownRemoteType)
      | MockRemote _ _ r \<Rightarrow>
          if r = mh_id (mn_objs n ! h) then Inr (n, Inl SelfConnection)
          else if connected_to r (mn_objs n ! h) then Inr (n, Inl ConnectedTwice)
          else case find (\<lambda>i. mh_id (mn_objs n ! i) = r) (mn_hosts n) of
                 None \<Rightarrow> Inr (n, Inl RemoteNotFound)
               | Some i \<Rightarrow>
                   if connected_to (mh_id (mn_objs n ! h)) (mn_objs n ! i) then Inr (n, Inl AlreadyConnected)
                   else case mh_join (mn_objs n ! i) of
                          None \<Rightarrow> Inl NilDereference
                        | Some f \<Rightarrow>
                            (case f data of
                               Some err \<Rightarrow> Inr (n, Inl (JoinRefused err))
                             | None \<Rightarrow>
                                 (case make_pair h i n of (n1, c1, c2) \<Rightarrow>
                                    Inr (n1\<lparr>mn_objs := (mn_objs n1)[i := (mn_objs n1 ! i)
                                             \<lparr>mh_new_conns := mh_new_conns (mn_objs n1 ! i) @ [c2]\<rparr>]\<rparr>, Inr c1))))"

definition active_connections :: "nat \<Rightarrow> ('d, 'err) mock_net \<Rightarrow> nat" where
  "active_connections h n = length (mh_conns (mn_objs n ! h))"

text \<open>\<open>Shutdown\<close>: no callbacks any more, and out of the list, the last host moving into the gap.\<close>

fun swap_out :: "nat \<Rightarrow> nat list \<Rightarrow> nat list" where
  "swap_out h [] = []"
| "swap_out h (x # xs) = (if x = h then (if xs = [] then [] else last xs # butlast xs) else x # swap_out h xs)"

definition mock_shutdown :: "nat \<Rightarrow> ('d, 'err) mock_net \<Rightarrow> ('d, 'err) mock_net" where
  "mock_shutdown h n = (let n1 = mock_host_fns h None None n in n1\<lparr>mn_hosts := swap_out h (mn_hosts n1)\<rparr>)"

section \<open>Registries that the operations reach\<close>

definition net_ok :: "('d, 'err) mock_net \<Rightarrow> bool" where
  "net_ok n \<longleftrightarrow> mn_host_id n = length (mn_objs n) \<and> distinct (mn_hosts n) \<and>
     (\<forall>h \<in> set (mn_hosts n). h < length (mn_objs n)) \<and>
     (\<forall>h < length (mn_objs n). mh_id (mn_objs n ! h) = h \<and>
        distinct (map snd (mh_conns (mn_objs n ! h))) \<and> h \<notin> set (map snd (mh_conns (mn_objs n ! h))) \<and>
        (\<forall>r \<in> set (map snd (mh_conns (mn_objs n ! h))). r < length (mn_objs n))) \<and>
     (\<forall>a < length (mn_objs n). \<forall>b < length (mn_objs n).
        connected_to b (mn_objs n ! a) \<longleftrightarrow> connected_to a (mn_objs n ! b))"

lemma net_ok_empty: "net_ok empty_net"
  by (simp add: net_ok_def empty_net_def)

lemma net_okD:
  assumes "net_ok n"
  shows "mn_host_id n = length (mn_objs n)" and "distinct (mn_hosts n)"
    and "h \<in> set (mn_hosts n) \<Longrightarrow> h < length (mn_objs n)"
    and "h < length (mn_objs n) \<Longrightarrow> mh_id (mn_objs n ! h) = h"
    and "h < length (mn_objs n) \<Longrightarrow> connected_to r (mn_objs n ! h) \<Longrightarrow> r < length (mn_objs n)"
    and "h < length (mn_objs n) \<Longrightarrow> \<not> connected_to h (mn_objs n ! h)"
    and "a < length (mn_objs n) \<Longrightarrow> b < length (mn_objs n) \<Longrightarrow>
         connected_to b (mn_objs n ! a) \<longleftrightarrow> connected_to a (mn_objs n ! b)"
  using assms unfolding net_ok_def connected_to_def by blast+

lemma net_ok_new: "net_ok n \<Longrightarrow> net_ok (fst (new_host_mock n))"
proof -
  assume n: "net_ok n"
  have no: "\<not> connected_to (length (mn_objs n)) (mn_objs n ! a)" if "a < length (mn_objs n)" for a
    using net_okD(5) [OF n that] by blast
  show ?thesis
    using n no unfolding net_ok_def new_host_mock_def
    by (auto simp: nth_append less_Suc_eq connected_to_def)
qed

lemma mock_host_fns_view:
  "length (mn_objs (mock_host_fns h p j n)) = length (mn_objs n)"
  "a < length (mn_objs n) \<Longrightarrow> mh_conns (mn_objs (mock_host_fns h p j n) ! a) = mh_conns (mn_objs n ! a)"
  "a < length (mn_objs n) \<Longrightarrow> mh_id (mn_objs (mock_host_fns h p j n) ! a) = mh_id (mn_objs n ! a)"
  "mn_hosts (mock_host_fns h p j n) = mn_hosts n" "mn_host_id (mock_host_fns h p j n) = mn_host_id n"
  unfolding mock_host_fns_def by (simp_all, (cases "a = h"; simp)+)

lemma net_ok_fns: "net_ok n \<Longrightarrow> net_ok (mock_host_fns h p j n)"
  unfolding net_ok_def connected_to_def by (simp add: mock_host_fns_view)

lemma swap_out_mset: "distinct xs \<Longrightarrow> mset (swap_out h xs) = mset xs - {#h#}"
proof (induction xs)
  case (Cons x xs)
  show ?case
  proof (cases "x = h")
    case True
    have "mset (last xs # butlast xs) = mset xs" if "xs \<noteq> []"
    proof -
      have "mset (butlast xs @ [last xs]) = mset xs" by (simp only: append_butlast_last_id [OF that])
      then show ?thesis by simp
    qed
    with True show ?thesis by auto
  next
    case False
    then show ?thesis using Cons by auto
  qed
qed simp

lemma swap_out_set: "distinct xs \<Longrightarrow> set (swap_out h xs) = set xs - {h} \<and> distinct (swap_out h xs)"
proof -
  assume d: "distinct xs"
  then have "\<forall>a. count (mset xs) a = (if a \<in> set xs then 1 else 0)" by (simp add: distinct_count_atmost_1)
  then have c: "count (mset (swap_out h xs)) a = (if a \<in> set xs - {h} then 1 else 0)" for a
    using swap_out_mset [OF d, of h] by auto
  then have "set (swap_out h xs) = set xs - {h}"
    by (metis (mono_tags, lifting) Diff_iff count_mset_0_iff equalityI subsetI zero_neq_one)
  with c show ?thesis by (simp add: distinct_count_atmost_1)
qed

lemma net_ok_shutdown: "net_ok n \<Longrightarrow> net_ok (mock_shutdown h n)"
  using net_ok_fns [of n h None None] swap_out_set [of "mn_hosts n" h]
  unfolding net_ok_def mock_shutdown_def Let_def
  by (auto simp: mock_host_fns_view connected_to_def)

section \<open>Joining\<close>

lemma find_registered:
  assumes "net_ok n"
  shows "find (\<lambda>i. mh_id (mn_objs n ! i) = r) (mn_hosts n) = (if r \<in> set (mn_hosts n) then Some r else None)"
proof -
  have "set hs \<subseteq> set (mn_hosts n) \<Longrightarrow>
        find (\<lambda>i. mh_id (mn_objs n ! i) = r) hs = (if r \<in> set hs then Some r else None)" for hs
    by (induction hs) (use net_okD(3,4) [OF assms] in auto)
  then show ?thesis by simp
qed

lemma make_pair_view:
  assumes "a < length (mn_objs n)" and "b < length (mn_objs n)" and "a \<noteq> b"
    and "make_pair a b n = (n', c1, c2)"
  shows "length (mn_objs n') = length (mn_objs n)" "mn_hosts n' = mn_hosts n" "mn_host_id n' = mn_host_id n"
    "mn_pairs n' = mn_pairs n @ [mn_pair_id n, mn_pair_id n]" "mn_pair_id n' = mn_pair_id n + 1"
    "c1 = length (mn_pairs n)" "c2 = Suc (length (mn_pairs n))"
    "k < length (mn_objs n) \<Longrightarrow> mh_id (mn_objs n' ! k) = mh_id (mn_objs n ! k)"
    "k < length (mn_objs n) \<Longrightarrow> mh_conns (mn_objs n' ! k) = mh_conns (mn_objs n ! k) @
       (if k = a then [(c1, b)] else if k = b then [(c2, a)] else [])"
    "k < length (mn_objs n) \<Longrightarrow> mh_join (mn_objs n' ! k) = mh_join (mn_objs n ! k)"
  using assms by (auto simp: make_pair_def Let_def nth_list_update)

lemma net_ok_pair:
  assumes n: "net_ok n" and ab: "a < length (mn_objs n)" "b < length (mn_objs n)" "a \<noteq> b"
    and new: "\<not> connected_to b (mn_objs n ! a)" and mp: "make_pair a b n = (n', c1, c2)"
  shows "net_ok n'" and "connected_to b (mn_objs n' ! a)" and "connected_to a (mn_objs n' ! b)"
proof -
  note v = make_pair_view [OF ab mp]
  have new': "\<not> connected_to a (mn_objs n ! b)" using net_okD(7) [OF n ab(1,2)] new by simp
  have ct: "connected_to r (mn_objs n' ! k) \<longleftrightarrow>
      connected_to r (mn_objs n ! k) \<or> k = a \<and> r = b \<or> k = b \<and> r = a"
    if "k < length (mn_objs n)" for k r
    using ab(3) by (auto simp: connected_to_def v(9) [OF that])
  show "connected_to b (mn_objs n' ! a)" "connected_to a (mn_objs n' ! b)"
    using ab by (simp_all add: ct)
  show "net_ok n'"
    unfolding net_ok_def
  proof (intro conjI allI impI ballI)
    fix k assume "k < length (mn_objs n')"
    then have k: "k < length (mn_objs n)" by (simp add: v)
    have dk: "distinct (map snd (mh_conns (mn_objs n ! k)))" using n k by (simp add: net_ok_def)
    show "mh_id (mn_objs n' ! k) = k" using net_okD(4) [OF n k] by (simp add: v k)
    show "distinct (map snd (mh_conns (mn_objs n' ! k)))"
      using dk new new' ab(3) by (auto simp: v(9) [OF k] connected_to_def)
    show "k \<notin> set (map snd (mh_conns (mn_objs n' ! k)))"
      using net_okD(6) [OF n k] ab(3) by (auto simp: v(9) [OF k] connected_to_def)
    show "r < length (mn_objs n')" if "r \<in> set (map snd (mh_conns (mn_objs n' ! k)))" for r
      using that net_okD(5) [OF n k, of r] ab by (auto simp: v k connected_to_def split: if_splits)
  next
    fix x y assume "x < length (mn_objs n')" "y < length (mn_objs n')"
    then show "connected_to y (mn_objs n' ! x) = connected_to x (mn_objs n' ! y)"
      using net_okD(7) [OF n, of x y] by (auto simp: v ct)
  qed (use n in \<open>auto simp: v net_ok_def\<close>)
qed

text \<open>Every outcome of \<open>Join\<close>, in the order of the checks.\<close>

lemma mock_join_eq:
  assumes n: "net_ok n" and h: "h < length (mn_objs n)"
  shows "mock_join h (MockRemote d e r) data n =
    (if r = h then Inr (n, Inl SelfConnection)
     else if connected_to r (mn_objs n ! h) then Inr (n, Inl ConnectedTwice)
     else if r \<notin> set (mn_hosts n) then Inr (n, Inl RemoteNotFound)
     else case mh_join (mn_objs n ! r) of
            None \<Rightarrow> Inl NilDereference
          | Some f \<Rightarrow>
              (case f data of
                 Some err \<Rightarrow> Inr (n, Inl (JoinRefused err))
               | None \<Rightarrow>
                   (case make_pair h r n of (n1, c1, c2) \<Rightarrow>
                      Inr (n1\<lparr>mn_objs := (mn_objs n1)[r := (mn_objs n1 ! r)
                               \<lparr>mh_new_conns := mh_new_conns (mn_objs n1 ! r) @ [c2]\<rparr>]\<rparr>, Inr c1))))"
proof -
  have "r \<in> set (mn_hosts n) \<Longrightarrow> connected_to h (mn_objs n ! r) \<longleftrightarrow> connected_to r (mn_objs n ! h)"
    using net_okD(7) [OF n] net_okD(3) [OF n] h by blast
  then show ?thesis
    by (auto simp: mock_join_def find_registered [OF n] net_okD(4) [OF n h])
qed

lemma net_ok_offer:
  "net_ok n \<Longrightarrow> net_ok (n\<lparr>mn_objs := (mn_objs n)[r := (mn_objs n ! r)\<lparr>mh_new_conns := cs\<rparr>]\<rparr>)"
proof -
  let ?n = "n\<lparr>mn_objs := (mn_objs n)[r := (mn_objs n ! r)\<lparr>mh_new_conns := cs\<rparr>]\<rparr>"
  have "mh_conns (mn_objs ?n ! k) = mh_conns (mn_objs n ! k) \<and> mh_id (mn_objs ?n ! k) = mh_id (mn_objs n ! k)"
    if "k < length (mn_objs n)" for k
    by (cases "k = r") (use that in auto)
  moreover assume "net_ok n"
  ultimately show ?thesis by (simp add: net_ok_def connected_to_def)
qed

lemma mock_join_ok:
  assumes n: "net_ok n" and h: "h < length (mn_objs n)" and j: "mock_join h remote data n = Inr (n', res)"
  shows "net_ok n'"
    and "res = Inr c \<Longrightarrow> \<exists>d e r. remote = MockRemote d e r \<and> r \<noteq> h \<and> r \<in> set (mn_hosts n) \<and>
      \<not> connected_to r (mn_objs n ! h) \<and> connected_to r (mn_objs n' ! h) \<and> connected_to h (mn_objs n' ! r) \<and>
      Suc c \<in> set (mh_new_conns (mn_objs n' ! r)) \<and> mn_pairs n' ! c = mn_pairs n' ! Suc c \<and>
      active_connections h n' = active_connections h n + 1 \<and> active_connections r n' = active_connections r n + 1"
    and "res = Inl err \<Longrightarrow> n' = n"
proof -
  have all: "net_ok n' \<and> (\<forall>c. res = Inr c \<longrightarrow> (\<exists>d e r. remote = MockRemote d e r \<and> r \<noteq> h \<and> r \<in> set (mn_hosts n) \<and>
      \<not> connected_to r (mn_objs n ! h) \<and> connected_to r (mn_objs n' ! h) \<and> connected_to h (mn_objs n' ! r) \<and>
      Suc c \<in> set (mh_new_conns (mn_objs n' ! r)) \<and> mn_pairs n' ! c = mn_pairs n' ! Suc c \<and>
      active_connections h n' = active_connections h n + 1 \<and> active_connections r n' = active_connections r n + 1)) \<and>
      (\<forall>err. res = Inl err \<longrightarrow> n' = n)"
  proof (cases remote)
    case OtherRemote
    then show ?thesis using j n by (auto simp: mock_join_def)
  next
    case (MockRemote d e r)
    note eq = mock_join_eq [OF n h, of d e r data]
    show ?thesis
    proof (cases "r = h \<or> connected_to r (mn_objs n ! h) \<or> r \<notin> set (mn_hosts n) \<or>
        (\<exists>f err. mh_join (mn_objs n ! r) = Some f \<and> f data = Some err) \<or> mh_join (mn_objs n ! r) = None")
      case True
      then show ?thesis using j n MockRemote eq by (auto split: if_splits)
    next
      case False
      then obtain f where f: "mh_join (mn_objs n ! r) = Some f" "f data = None"
        by (metis option.exhaust)
      obtain n1 c1 c2 where mp: "make_pair h r n = (n1, c1, c2)" by (cases "make_pair h r n")
      have r: "r < length (mn_objs n)" "h \<noteq> r" "\<not> connected_to r (mn_objs n ! h)"
        using False net_okD(3) [OF n] by auto
      note v = make_pair_view [OF h r(1,2) mp] and ok = net_ok_pair [OF n h r(1,2,3) mp]
      let ?n = "n1\<lparr>mn_objs := (mn_objs n1)[r := (mn_objs n1 ! r)
                  \<lparr>mh_new_conns := mh_new_conns (mn_objs n1 ! r) @ [c2]\<rparr>]\<rparr>"
      have res: "n' = ?n" "res = Inr c1" using j MockRemote eq False f mp by auto
      have cn: "mh_conns (mn_objs ?n ! k) = mh_conns (mn_objs n1 ! k)" for k
        by (cases "k = r"; cases "r < length (mn_objs n1)") (auto simp: not_less list_update_beyond)
      have "mh_new_conns (mn_objs ?n ! r) = mh_new_conns (mn_objs n1 ! r) @ [c2]"
        using r(1) v(1) by simp
      then show ?thesis
        using net_ok_offer [OF ok(1)] ok(2,3) False MockRemote r v h
        by (auto simp: res cn connected_to_def active_connections_def nth_append)
    qed
  qed
  show "net_ok n'" using all by (rule conjunct1)
  show "\<exists>d e r. remote = MockRemote d e r \<and> r \<noteq> h \<and> r \<in> set (mn_hosts n) \<and>
      \<not> connected_to r (mn_objs n ! h) \<and> connected_to r (mn_objs n' ! h) \<and> connected_to h (mn_objs n' ! r) \<and>
      Suc c \<in> set (mh_new_conns (mn_objs n' ! r)) \<and> mn_pairs n' ! c = mn_pairs n' ! Suc c \<and>
      active_connections h n' = active_connections h n + 1 \<and> active_connections r n' = active_connections r n + 1"
    if "res = Inr c" using all that by simp
  show "n' = n" if "res = Inl err" using all that by simp
qed

text \<open>All registries that operations reach are well-formed, and the hosts in it are the live ones.\<close>

inductive reg_step :: "('d, 'err) mock_net \<Rightarrow> ('d, 'err) mock_net \<Rightarrow> bool" where
  reg_new: "reg_step n (fst (new_host_mock n))"
| reg_host: "h < length (mn_objs n) \<Longrightarrow> reg_step n (mock_host_fns h p j n)"
| reg_join: "h < length (mn_objs n) \<Longrightarrow> mock_join h remote data n = Inr (n', res) \<Longrightarrow> reg_step n n'"
| reg_shutdown: "h < length (mn_objs n) \<Longrightarrow> reg_step n (mock_shutdown h n)"

inductive registry :: "('d, 'err) mock_net \<Rightarrow> bool" where
  reg_empty: "registry empty_net"
| reg_more: "registry n \<Longrightarrow> reg_step n n' \<Longrightarrow> registry n'"

inductive_cases reg_stepE: "reg_step n n'"

lemma reg_step_ok: "reg_step n n' \<Longrightarrow> net_ok n \<Longrightarrow> net_ok n'"
  by (erule reg_stepE) (auto intro: net_ok_new net_ok_fns net_ok_shutdown mock_join_ok(1))

lemma registry_ok: "registry n \<Longrightarrow> net_ok n"
  by (induction rule: registry.induct) (auto intro: net_ok_empty reg_step_ok)

section \<open>The lane from one end of a connection to the other\<close>

text \<open>
  A message is put into a container and encoded by the sender's \<open>routine\<close>, moved by one of the
  two \<open>connRoutine\<close>s of the hosts, decoded by the receiver's \<open>routine\<close> and handed to whoever
  reads. Each hand-over is a goroutine of its own, so each stage is a bag. gob does not transmit
  an empty byte slice: it arrives as nil.
\<close>

datatype 'e message = DataMsg "nat list" | BundleMsg "'e frame_bundle"

record 'e container =
  dc_data :: "nat list option"
  dc_bundle :: "'e frame_bundle option"

fun pack :: "'e message \<Rightarrow> 'e container" where
  "pack (DataMsg d) = \<lparr>dc_data = Some d, dc_bundle = None\<rparr>"
| "pack (BundleMsg b) = \<lparr>dc_data = None, dc_bundle = Some b\<rparr>"

definition gob_trip :: "'e container \<Rightarrow> 'e container" where
  "gob_trip c = (if dc_data c = Some [] then c\<lparr>dc_data := None\<rparr> else c)"

definition unpack :: "'e container \<Rightarrow> 'e message option" where
  "unpack c = (case dc_data c of Some d \<Rightarrow> Some (DataMsg d)
               | None \<Rightarrow> (case dc_bundle c of Some b \<Rightarrow> Some (BundleMsg b) | None \<Rightarrow> None))"

record 'e lane =
  ln_encoded :: "'e container multiset"
  ln_moved :: "'e container multiset"
  ln_arrived :: "'e message multiset"
  ln_read :: "'e message list"

definition empty_lane :: "'e lane" where
  "empty_lane = \<lparr>ln_encoded = {#}, ln_moved = {#}, ln_arrived = {#}, ln_read = []\<rparr>"

datatype 'e lane_act = LaneSend "'e message" | LaneMove "'e container" | LaneDecode "'e container" | LaneRead "'e message"

inductive lane_step :: "'e lane \<Rightarrow> 'e lane_act \<Rightarrow> 'e lane \<Rightarrow> bool" where
  lane_send: "lane_step l (LaneSend m) (l\<lparr>ln_encoded := add_mset (pack m) (ln_encoded l)\<rparr>)"
| lane_move: "c \<in># ln_encoded l \<Longrightarrow>
    lane_step l (LaneMove c) (l\<lparr>ln_encoded := ln_encoded l - {#c#}, ln_moved := add_mset c (ln_moved l)\<rparr>)"
| lane_decode: "c \<in># ln_moved l \<Longrightarrow>
    lane_step l (LaneDecode c) (l\<lparr>ln_moved := ln_moved l - {#c#},
      ln_arrived := (case unpack (gob_trip c) of None \<Rightarrow> ln_arrived l | Some m \<Rightarrow> add_mset m (ln_arrived l))\<rparr>)"
| lane_read: "m \<in># ln_arrived l \<Longrightarrow>
    lane_step l (LaneRead m) (l\<lparr>ln_arrived := ln_arrived l - {#m#}, ln_read := ln_read l @ [m]\<rparr>)"

inductive_simps lane_step_simps: "lane_step l a l'"

inductive lane_run :: "'e lane \<Rightarrow> 'e lane_act list \<Rightarrow> 'e lane \<Rightarrow> bool" where
  lane_nil: "lane_run l [] l"
| lane_cons: "lane_step l a l' \<Longrightarrow> lane_run l' as l'' \<Longrightarrow> lane_run l (a # as) l''"

fun lane_sent :: "'e lane_act list \<Rightarrow> 'e message multiset" where
  "lane_sent [] = {#}"
| "lane_sent (LaneSend m # as) = add_mset m (lane_sent as)"
| "lane_sent (a # as) = lane_sent as"

text \<open>Everything in the lane, as the messages it will come out as.\<close>

definition in_lane :: "'e lane \<Rightarrow> 'e message multiset" where
  "in_lane l = image_mset (the \<circ> unpack) (ln_encoded l) + image_mset (the \<circ> unpack) (ln_moved l) +
               ln_arrived l + mset (ln_read l)"

definition sendable :: "'e container \<Rightarrow> bool" where
  "sendable c \<longleftrightarrow> (\<exists>m. m \<noteq> DataMsg [] \<and> c = pack m)"

lemma unpack_pack [simp]: "unpack (pack m) = Some m"
  by (cases m) (auto simp: unpack_def)

lemma sendable_trip: "sendable c \<Longrightarrow> gob_trip c = c \<and> (\<exists>m. unpack c = Some m)"
proof -
  assume "sendable c"
  then obtain m where m: "m \<noteq> DataMsg []" "c = pack m" by (auto simp: sendable_def)
  then have "gob_trip c = c" by (cases m) (auto simp: gob_trip_def)
  with m show ?thesis by auto
qed

lemma lane_step_in_lane:
  assumes "lane_step l a l'" and "\<forall>c. c \<in># ln_encoded l + ln_moved l \<longrightarrow> sendable c"
    and "a \<noteq> LaneSend (DataMsg [])"
  shows "in_lane l' = in_lane l + lane_sent [a] \<and> (\<forall>c. c \<in># ln_encoded l' + ln_moved l' \<longrightarrow> sendable c)"
  using assms(1)
proof cases
  case (lane_send m)
  then show ?thesis using assms(2,3) by (auto simp: in_lane_def sendable_def)
next
  case (lane_move c)
  obtain A where A: "ln_encoded l = add_mset c A" using multi_member_split [OF lane_move(3)] by blast
  have "in_lane l' = in_lane l" "ln_encoded l' + ln_moved l' = ln_encoded l + ln_moved l"
    unfolding lane_move(2) by (simp_all add: in_lane_def A)
  then show ?thesis using assms(2) lane_move(1) by simp
next
  case (lane_decode c)
  obtain A where A: "ln_moved l = add_mset c A" using multi_member_split [OF lane_decode(3)] by blast
  obtain m where m: "gob_trip c = c" "unpack c = Some m" using lane_decode(3) assms(2) sendable_trip [of c] by auto
  have "in_lane l' = in_lane l" "ln_encoded l + ln_moved l = add_mset c (ln_encoded l' + ln_moved l')"
    unfolding lane_decode(2) by (simp_all add: in_lane_def A m)
  then show ?thesis using assms(2) lane_decode(1) by simp
next
  case (lane_read m)
  obtain A where "ln_arrived l = add_mset m A" using multi_member_split [OF lane_read(3)] by blast
  with lane_read assms(2) show ?thesis by (simp add: in_lane_def)
qed

lemma lane_run_in_lane:
  assumes "lane_run l as l'" and "\<forall>c. c \<in># ln_encoded l + ln_moved l \<longrightarrow> sendable c"
    and "LaneSend (DataMsg []) \<notin> set as"
  shows "in_lane l' = in_lane l + lane_sent as"
  using assms
proof (induction rule: lane_run.induct)
  case (lane_cons l a l' as l'')
  have st: "in_lane l' = in_lane l + lane_sent [a]" "\<forall>c. c \<in># ln_encoded l' + ln_moved l' \<longrightarrow> sendable c"
    using lane_step_in_lane [OF lane_cons.hyps(1)] lane_cons.prems by auto
  have "in_lane l'' = in_lane l' + lane_sent as" using lane_cons.IH st(2) lane_cons.prems(2) by simp
  moreover have "lane_sent (a # as) = lane_sent [a] + lane_sent as" by (cases a) auto
  ultimately show ?case using st(1) by (simp add: add.assoc)
qed simp

text \<open>The lane never gets stuck while something is in it.\<close>

lemma lane_progress:
  assumes "in_lane l \<noteq> mset (ln_read l)"
  shows "\<exists>a l'. lane_step l a l' \<and> (\<forall>m. a \<noteq> LaneSend m)"
proof -
  have "ln_encoded l \<noteq> {#} \<or> ln_moved l \<noteq> {#} \<or> ln_arrived l \<noteq> {#}" using assms by (auto simp: in_lane_def)
  then consider c where "c \<in># ln_encoded l" | c where "c \<in># ln_moved l" | m where "m \<in># ln_arrived l"
    by (meson multiset_nonemptyE)
  then show ?thesis
    by cases (blast intro: lane_move lane_decode lane_read)+
qed

section \<open>\<open>Close\<close>\<close>

text \<open>
  \<open>Close\<close> sends twice on the unbuffered channel \<open>purge\<close>; the readers are the connection's
  \<open>routine\<close> and its host's \<open>connRoutine\<close>, each of which returns after one receive, so a second
  \<open>Close\<close> blocks (\<open>None\<close>). The \<open>routine\<close> closes the receiving channels first, and a goroutine
  that is still trying to hand a message over panics.
\<close>

definition mock_close :: "bool \<Rightarrow> 'e lane \<Rightarrow> (go_panic + bool) option" where
  "mock_close alive incoming =
     (if \<not> alive then None
      else if ln_arrived incoming \<noteq> {#} then Some (Inl ClosedChannel)
      else Some (Inr False))"

end
