(* ===== verification/Examples.thy ===== *)
theory Examples
  imports Pnf Updater_Calls Updater_Faults Gob Network_Mock Network_Standard
begin

text \<open>
  Concrete states for the witnesses of the properties: two engines, \<open>7\<close> (the host) and \<open>9\<close>, that
  play the \<open>TestGame\<close> of \<open>core/all_specs_test.go\<close> and exchange the bundles of frame 1 in
  opposite orders.
\<close>

section \<open>Two engines\<close>

definition ex_params :: "int \<Rightarrow> engine_params" where
  "ex_params i = \<lparr>ep_id = EngineId i, ep_delay = 1, ep_frame_ms = 5, ep_max_frames = 3\<rparr>"

definition ex_game :: test_game where
  "ex_game = \<lparr>tg_a = 0, tg_b = '''', tg_thinks = 0\<rparr>"

definition ex_engines :: "(engine_id, bool) fmap" where
  "ex_engines = fmupd (EngineId 7) True (fmupd (EngineId 9) True fmempty)"

definition ex_data :: "test_event frame_data" where
  "ex_data = \<lparr>fd_info = \<lparr>ei_engines = Some ex_engines\<rparr>, fd_game = Some 0, fd_bundle = None\<rparr>"

definition ex_7 :: "test_event frame_bundle" where
  "ex_7 = \<lparr>fb_frame = 1, fb_bundle = local_bundle (EngineId 7) [EventA 5] []\<rparr>"

definition ex_9 :: "test_event frame_bundle" where
  "ex_9 = \<lparr>fb_frame = 1, fb_bundle = local_bundle (EngineId 9) [EventB ''x''] []\<rparr>"

definition the_right :: "'a + 'b \<Rightarrow> 'b" where
  "the_right r = (case r of Inr x \<Rightarrow> x | Inl _ \<Rightarrow> undefined)"

lemma the_right: "\<not> isl r \<Longrightarrow> r = Inr (the_right r)"
  by (cases r) (auto simp: the_right_def)

definition ex_start :: "int \<Rightarrow> (test_event, test_game) updater" where
  "ex_start i = the_right (start test_ops 0 ex_data (zero_updater (ex_params i) True [ex_game]))"

definition ex_host1 :: "(test_event, test_game) updater" where
  "ex_host1 = the_right (handle_local test_ops ex_7 (ex_start 7))"

definition ex_host2 :: "(test_event, test_game) updater" where
  "ex_host2 = the_right (handle_remote test_ops [ex_9] ex_host1)"

definition ex_peer1 :: "(test_event, test_game) updater" where
  "ex_peer1 = the_right (handle_local test_ops ex_9 (ex_start 9))"

definition ex_peer2 :: "(test_event, test_game) updater" where
  "ex_peer2 = the_right (handle_remote test_ops [ex_7] ex_peer1)"

definition ex_history :: "(test_event, test_game) history" where
  "ex_history = history0 0 ex_engines ex_game False"

definition ex_m7 :: "test_event bundle_map" where
  "ex_m7 = fmupd (EngineId 7) \<lparr>ae_game = [EventA 5], ae_engine = []\<rparr> fmempty"

definition ex_m9 :: "test_event bundle_map" where
  "ex_m9 = fmupd (EngineId 9) \<lparr>ae_game = [EventB ''x''], ae_engine = []\<rparr> fmempty"

lemma ex_maps: "map_of_nilable (fb_bundle ex_7) = ex_m7" "map_of_nilable (fb_bundle ex_9) = ex_m9"
  by (simp_all add: ex_7_def ex_9_def local_bundle_def ex_m7_def ex_m9_def)

lemma ex_runs0: "runs test_ops ex_history (ex_start i)"
proof -
  have "\<exists>u. start test_ops 0 ex_data (zero_updater (ex_params i) True [ex_game]) = Inr u"
    using test.started_run_inv [of ex_data 0 "[ex_game]" "ex_params i" 0 True]
    by (auto simp: ex_data_def ex_params_def)
  then have s: "start test_ops 0 ex_data (zero_updater (ex_params i) True [ex_game]) = Inr (ex_start i)"
    by (auto simp: ex_start_def the_right_def)
  have "runs test_ops (history0 0 (known_engines (fd_info ex_data)) ([ex_game] ! 0) False) (ex_start i)"
    by (rule runs.started [OF _ _ _ _ _ s]) (auto simp: ex_data_def ex_params_def)
  then show ?thesis by (simp add: ex_history_def ex_data_def known_engines_def)
qed

lemma ex_start_facts:
  "up_skip (ex_start 7) = 0" "up_skip (ex_start 9) = 0" "win_start (ex_start 7) = 0" "win_start (ex_start 9) = 0"
  "win_len (ex_start 7) = 4" "win_len (ex_start 9) = 4" "up_global (ex_start 7) = 0" "up_global (ex_start 9) = 0"
  "up_fast (ex_start 7) = []" "up_fast (ex_start 9) = []"
  by code_simp+

lemma ex_host1_ok: "handle_local test_ops ex_7 (ex_start 7) = Inr ex_host1"
  unfolding ex_host1_def by (rule the_right) code_simp

lemma ex_host2_ok: "handle_remote test_ops [ex_9] ex_host1 = Inr ex_host2"
  unfolding ex_host2_def by (rule the_right) code_simp

lemma ex_peer1_ok: "handle_local test_ops ex_9 (ex_start 9) = Inr ex_peer1"
  unfolding ex_peer1_def by (rule the_right) code_simp

lemma ex_peer2_ok: "handle_remote test_ops [ex_7] ex_peer1 = Inr ex_peer2"
  unfolding ex_peer2_def by (rule the_right) code_simp

lemma ex_facts:
  "win_start ex_host1 = 0" "win_len ex_host1 = 4" "win_start ex_peer1 = 0" "win_len ex_peer1 = 4"
  "win_start ex_host2 = 1" "win_start ex_peer2 = 1" "up_global ex_host2 = 1" "up_global ex_peer2 = 1"
  "up_global ex_host1 = 1" "up_skip ex_host2 = 0" "win_len ex_host2 = 4" "up_local ex_host2 = 1"
  by code_simp+

definition ex_s1 :: "(test_event, test_game) history" where
  "ex_s1 = add_bundle 1 ex_m7 ex_history"

definition ex_s2 :: "(test_event, test_game) history" where
  "ex_s2 = add_bundle 1 ex_m9 ex_s1"

definition ex_t1 :: "(test_event, test_game) history" where
  "ex_t1 = add_bundle 1 ex_m9 ex_history"

definition ex_t2 :: "(test_event, test_game) history" where
  "ex_t2 = add_bundle 1 ex_m7 ex_t1"

lemma ex_frames: "fb_frame ex_7 = 1" "fb_frame ex_9 = 1"
  by (simp_all add: ex_7_def ex_9_def)

lemma ex_domains:
  "fmdom' ex_m7 = {EngineId 7}" "fmdom' ex_m9 = {EngineId 9}"
  by (simp_all add: ex_m7_def ex_m9_def)

lemma ex_local_inputs:
  "input_ok test_ops (LocalBundle ex_7) ex_history (ex_start 7)"
  "input_ok test_ops (LocalBundle ex_9) ex_history (ex_start 9)"
  by (simp_all add: local_ok_def ignored_def ex_start_facts joined_history_def fits_def ex_frames ex_maps
      ex_domains fast_ok_def disjoint_bundles_def nonneg_ids_def ex_history_def)

lemma ex_remote_inputs:
  "input_ok test_ops (RemoteBundles [ex_9]) ex_s1 ex_host1"
  "input_ok test_ops (RemoteBundles [ex_7]) ex_t1 ex_peer1"
  by (simp_all add: ex_facts fits_def ex_frames ex_maps ex_domains disjoint_bundles_def nonneg_ids_def
      ex_history_def ex_s1_def ex_t1_def)

lemma ex_accepts:
  "accept_input (LocalBundle ex_7) (ex_start 7) ex_history = ex_s1"
  "accept_input (LocalBundle ex_9) (ex_start 9) ex_history = ex_t1"
  "accept_input (RemoteBundles [ex_9]) ex_host1 ex_s1 = ex_s2"
  "accept_input (RemoteBundles [ex_7]) ex_peer1 ex_t1 = ex_t2"
  by (simp_all add: accept_local_def ignored_def ex_start_facts joined_history_def ex_frames ex_maps
      ex_s1_def ex_t1_def ex_s2_def ex_t2_def accept_def ex_facts)

lemma ex_host1_runs: "runs test_ops ex_s1 ex_host1"
  using runs.round [OF ex_runs0 ex_local_inputs(1)] ex_host1_ok by (simp add: ex_accepts del: accept_input.simps)

lemma ex_peer1_runs: "runs test_ops ex_t1 ex_peer1"
  using runs.round [OF ex_runs0 ex_local_inputs(2)] ex_peer1_ok by (simp add: ex_accepts del: accept_input.simps)

lemma ex_host2_runs: "runs test_ops ex_s2 ex_host2"
  using runs.round [OF ex_host1_runs ex_remote_inputs(1)] ex_host2_ok by (simp add: ex_accepts del: accept_input.simps)

lemma ex_peer2_runs: "runs test_ops ex_t2 ex_peer2"
  using runs.round [OF ex_peer1_runs ex_remote_inputs(2)] ex_peer2_ok by (simp add: ex_accepts del: accept_input.simps)

section \<open>What was sent\<close>

definition ex_sent :: "int \<Rightarrow> test_event bundle_map" where
  "ex_sent f = (if f = 1 then ex_m7 ++\<^sub>f ex_m9 else fmempty)"

lemma ex_sum: "ex_m7 ++\<^sub>f ex_m9 = ex_m9 ++\<^sub>f ex_m7"
  by (rule fmap_ext) (auto simp: ex_m7_def ex_m9_def)

lemma ex_hosted: "hosted (EngineId 7) ex_sent ex_s2" "hosted (EngineId 7) ex_sent ex_t2"
proof -
  have "host_only (EngineId 7) (ex_m7 ++\<^sub>f ex_m9)"
    by (auto simp: host_only_def ex_m7_def ex_m9_def)
  then have ho: "host_only (EngineId 7) (ex_sent f)" for f
    by (cases "f = 1") (simp_all add: ex_sent_def, simp add: host_only_def)
  have b: "hi_bundles ex_s2 f = ex_sent f" "hi_bundles ex_t2 f = ex_sent f" for f
    by (simp_all add: ex_s2_def ex_s1_def ex_t2_def ex_t1_def ex_history_def ex_sent_def ex_sum)
  have "EngineId 7 \<in> fmdom' ex_engines" by (simp add: ex_engines_def)
  then show "hosted (EngineId 7) ex_sent ex_s2" "hosted (EngineId 7) ex_sent ex_t2"
    using ho by (simp_all add: hosted_def follows_def b fmsubset.rep_eq)
      (simp_all add: ex_s2_def ex_s1_def ex_t2_def ex_t1_def ex_history_def add_bundle_def)
qed

section \<open>Two requests for frame 1\<close>

definition ex_request :: "nat \<Rightarrow> state_request" where
  "ex_request c = \<lparr>rq_frame = 1, rq_chan = c, rq_final = True\<rparr>"

definition ex_q1 :: "(test_event, test_game) updater" where
  "ex_q1 = the_right (handle_request (ex_request 1) (ex_start 7))"

definition ex_q2 :: "(test_event, test_game) updater" where
  "ex_q2 = the_right (handle_request (ex_request 2) ex_q1)"

definition ex_q3 :: "(test_event, test_game) updater" where
  "ex_q3 = the_right (handle_local test_ops ex_7 ex_q2)"

definition ex_q4 :: "(test_event, test_game) updater" where
  "ex_q4 = the_right (handle_remote test_ops [ex_9] ex_q3)"

lemma ex_q_ok:
  "handle_request (ex_request 1) (ex_start 7) = Inr ex_q1"
  "handle_request (ex_request 2) ex_q1 = Inr ex_q2"
  "handle_local test_ops ex_7 ex_q2 = Inr ex_q3"
  "handle_remote test_ops [ex_9] ex_q3 = Inr ex_q4"
  unfolding ex_q1_def ex_q2_def ex_q3_def ex_q4_def by ((rule the_right)?, code_simp)+

lemma ex_q_facts:
  "up_skip ex_q2 = 0" "win_start ex_q2 = 0" "win_len ex_q2 = 4" "up_global ex_q2 = 0" "up_fast ex_q2 = []"
  "win_start ex_q3 = 0" "win_len ex_q3 = 4" "win_start ex_q4 = 1" "up_final ex_q4 = [ex_request 2]"
  "up_fast ex_q4 = []" "resp_chans (up_out ex_q4) = [1]"
  by code_simp+

lemma ex_q4_runs: "runs test_ops ex_s2 ex_q4"
proof -
  have 1: "runs test_ops ex_history ex_q1"
    using runs.round [OF ex_runs0 [of 7], of "RequestState (ex_request 1)"] ex_q_ok(1) by (simp add: ex_request_def)
  have 2: "runs test_ops ex_history ex_q2"
    using runs.round [OF 1, of "RequestState (ex_request 2)"] ex_q_ok(2) by (simp add: ex_request_def)
  have ok: "input_ok test_ops (LocalBundle ex_7) ex_history ex_q2"
    by (simp add: local_ok_def ignored_def ex_q_facts joined_history_def fits_def ex_frames ex_maps
        ex_domains fast_ok_def disjoint_bundles_def nonneg_ids_def ex_history_def)
  have "accept_input (LocalBundle ex_7) ex_q2 ex_history = ex_s1"
    by (simp add: accept_local_def ignored_def ex_q_facts joined_history_def ex_frames ex_maps ex_s1_def)
  then have 3: "runs test_ops ex_s1 ex_q3"
    using runs.round [OF 2 ok] ex_q_ok(3) by (simp del: accept_input.simps)
  have ok': "input_ok test_ops (RemoteBundles [ex_9]) ex_s1 ex_q3"
    by (simp add: ex_q_facts fits_def ex_frames ex_maps ex_domains disjoint_bundles_def nonneg_ids_def
        ex_history_def ex_s1_def)
  have "accept_input (RemoteBundles [ex_9]) ex_q3 ex_s1 = ex_s2"
    by (simp add: ex_frames ex_maps ex_s2_def accept_def ex_q_facts)
  then show ?thesis
    using runs.round [OF 3 ok'] ex_q_ok(4) by (simp del: accept_input.simps)
qed

section \<open>A call for frame 1\<close>

text \<open>The host's caller asks for the final state of frame 1, before the bundle of engine 9 has arrived.\<close>

definition ex_w1 :: "(test_event, test_game) updater" where
  "ex_w1 = the_right (handle_request (ex_request 8) ex_host1)"

definition ex_w2 :: "(test_event, test_game) updater" where
  "ex_w2 = the_right (handle_remote test_ops [ex_9] ex_w1)"

lemma ex_w_ok: "handle_request (ex_request 8) ex_host1 = Inr ex_w1" "handle_remote test_ops [ex_9] ex_w1 = Inr ex_w2"
  unfolding ex_w1_def ex_w2_def by ((rule the_right)?, code_simp)+

lemma ex_w_facts: "win_start ex_w1 = 0" "win_len ex_w1 = 4" "win_start ex_w2 = 1"
  "up_final ex_host1 = []" "up_fast ex_host1 = []" "response 8 (up_out ex_host1) = None"
  by code_simp+

lemma ex_w_rounds: "rounds test_ops ex_s1 ex_w1 [RemoteBundles [ex_9]] ex_s2 ex_w2"
proof -
  have ok: "input_ok test_ops (RemoteBundles [ex_9]) ex_s1 ex_w1"
    by (simp add: ex_w_facts fits_def ex_frames ex_maps ex_domains disjoint_bundles_def nonneg_ids_def
        ex_history_def ex_s1_def)
  have "accept_input (RemoteBundles [ex_9]) ex_w1 ex_s1 = ex_s2"
    by (simp add: ex_frames ex_maps ex_s2_def accept_def ex_w_facts)
  then show ?thesis
    using rounds_more [OF rounds_none ok] ex_w_ok(2) by (simp del: accept_input.simps)
qed

end
