(* ===== verification/Updater_Properties.thy ===== *)
theory Updater_Properties
  imports Examples
begin

text \<open>
  The properties of the updater, over the runs of \<open>Updater_Runs\<close>, each with a witness on the two
  engines of \<open>Examples\<close>.
\<close>

section \<open>The updater\<close>

text \<open>C4: at every moment of a run of the updater (\<open>Start\<close> or \<open>Bootstrap\<close>, then any rounds of
  \<open>routine\<close>), the engines and the game stored for every frame of the window up to the newest one
  are those of a replay, frame by frame and in order, of all the bundles accepted so far, whatever
  the order in which they arrived; and the stored bundle of a frame is what was accepted for it.\<close>

theorem updater_replays:
  assumes "game_iface G" and "runs G s u" and "win_start u \<le> f" and "f \<le> up_global u"
  shows "(engines_at u f, game_at u f) = state_at G s f \<and>
         (win_start u < f \<longrightarrow> fd_bundle (fd_at u f) = Some (hi_bundles s f))"
proof -
  note r = game_iface.runs_inv [OF assms(1,2)]
  show ?thesis
    using settled_view [OF run_invD(1) [OF r] assms(3,4)]
      upd_invD(4) [OF settledD(1) [OF run_invD(1) [OF r]]] assms(3,4)
    by (simp add: bundles_match_def)
qed

theorem updater_replays_witness:
  "(engines_at ex_host2 1, game_at ex_host2 1) = state_at test_ops ex_s2 1 \<and>
   game_at ex_host2 1 = \<lparr>tg_a = 5, tg_b = ''x'', tg_thinks = 1\<rparr>"
proof
  show "(engines_at ex_host2 1, game_at ex_host2 1) = state_at test_ops ex_s2 1"
    using updater_replays [OF test.game_iface_axioms ex_host2_runs, of 1] by (simp add: ex_facts)
  show "game_at ex_host2 1 = \<lparr>tg_a = 5, tg_b = ''x'', tg_thinks = 1\<rparr>" by code_simp
qed

text \<open>C5: two updaters whose accepted bundles come from the same senders, with engine events from
  one host that stays in the game, agree on the engines and the game of every frame that both have
  made final, in whatever order their bundles arrived; the second may have started later, from a
  final frame of the first.\<close>

theorem updaters_agree:
  assumes "game_iface G" and "runs G s u" and "runs G t v"
    and "hosted h sent s" and "hosted h sent t"
    and "hi_base s \<le> hi_base t" and "hi_base t \<le> win_start u"
    and "state_at G s (hi_base t) = (hi_engines t, hi_game t)"
    and "hi_base t \<le> f" and "f \<le> win_start u" and "f \<le> win_start v"
  shows "state_at G s f = state_at G t f \<and>
         (f = win_start u \<and> f = win_start v \<longrightarrow> engines_at u f = engines_at v f \<and> game_at u f = game_at v f)"
proof -
  note u = run_invD(1) [OF game_iface.runs_inv [OF assms(1,2)]] and v = run_invD(1) [OF game_iface.runs_inv [OF assms(1,3)]]
  have eq: "state_at G s f = state_at G t f"
    by (rule settled_agree [OF u v assms(4-8) assms(9-11)])
  then show ?thesis
    using settled_view [OF u, of f] settled_view [OF v, of f] settled_order(2) [OF u] settled_order(2) [OF v]
    by (metis order_refl prod.inject)
qed

theorem updaters_agree_witness:
  "engines_at ex_host2 1 = engines_at ex_peer2 1 \<and> game_at ex_host2 1 = game_at ex_peer2 1"
proof -
  have b: "hi_base ex_s2 = 0" "hi_base ex_t2 = 0" "hi_engines ex_t2 = ex_engines" "hi_game ex_t2 = ex_game"
    "state_at test_ops ex_s2 0 = (ex_engines, ex_game)"
    by (simp_all add: ex_s2_def ex_s1_def ex_t2_def ex_t1_def ex_history_def state_at_def)
  show ?thesis
    using updaters_agree [OF test.game_iface_axioms ex_host2_runs ex_peer2_runs ex_hosted, of 1]
    by (simp add: b ex_facts)
qed

text \<open>C12: the updater never panics and never blocks on an input within its callers' obligations, which
  \<open>input_ok\<close> states. A bundle that is not ignored lies inside the window and clear of the largest
  frame number, has no negative ids, and is not the second one of an engine for a frame. When an engine
  that has just learned the frame it joins on sends its first bundle, that frame is ahead of the
  window, the bundle is at most one frame past what was heard, and no events of its own are known for
  the frames between. No fast request waits for a local frame that the window passes in that round, no
  fast request for the newest frame arrives while the local frame is behind the window, and nobody
  sends on the channel of \<open>Shutdown\<close>, which is nil. The updater stays in a run, and the first frame of
  its window never moves back. For requests the obligation is exact: one outside it panics.\<close>

theorem updater_handles:
  assumes "game_iface G" and "runs G s u" and "input_ok G i s u"
  shows "(\<exists>v. upd_step G i u = Some (Inr v) \<and> runs G (accept_input i u s) v \<and> win_start u \<le> win_start v) \<and>
    (\<forall>r. \<not> input_ok G (RequestState r) s u \<longrightarrow> upd_step G (RequestState r) u = Some (Inl OutsideWindow))"
  using game_iface.round_ok [OF assms(1) game_iface.runs_inv [OF assms(1,2)] assms(3)]
    runs.round [OF assms(2,3)] request_outside [OF game_iface.runs_inv [OF assms(1,2)]] by auto

theorem updater_handles_witness:
  "\<exists>v. upd_step test_ops (RemoteBundles [ex_9]) ex_host1 = Some (Inr v) \<and>
       runs test_ops (accept_input (RemoteBundles [ex_9]) ex_host1 ex_s1) v \<and> win_start ex_host1 \<le> win_start v"
  using conjunct1 [OF updater_handles [OF test.game_iface_axioms ex_host1_runs ex_remote_inputs(1)]] .

text \<open>C20: \<open>Start\<close> on a frame with a game never panics for a positive window size and frame
  numbers clear of \<open>MaxInt32\<close>; the new run stands for the given engines and game, with the window
  at that frame.\<close>

theorem updater_starts:
  assumes "game_iface G" and "fd_game d = Some a" and "a < length h"
    and "0 \<le> ep_max_frames p" and "0 \<le> f" and "f + ep_max_frames p < max_i32"
  shows "\<exists>u. start G f d (zero_updater p hosting h) = Inr u \<and>
             runs G (history0 f (known_engines (fd_info d)) (h ! a) False) u \<and>
             win_start u = f \<and> engines_at u f = known_engines (fd_info d) \<and> game_at u f = h ! a"
proof -
  obtain u where u: "start G f d (zero_updater p hosting h) = Inr u"
      "run_inv G (history0 f (known_engines (fd_info d)) (h ! a) False) u" "win_start u = f"
    using game_iface.started_run_inv [OF assms] by blast
  then have "(engines_at u f, game_at u f) = (known_engines (fd_info d), h ! a)"
    using settled_view [OF run_invD(1) [OF u(2)], of f] settled_order(2) [OF run_invD(1) [OF u(2)]]
    by (simp add: state_at_def)
  with u show ?thesis using runs.started [OF assms(2-6) u(1)] by auto
qed

theorem updater_starts_witness:
  "\<exists>u. start test_ops 0 ex_data (zero_updater (ex_params 7) True [ex_game]) = Inr u \<and>
       runs test_ops (history0 0 (known_engines (fd_info ex_data)) ([ex_game] ! 0) False) u \<and>
       win_start u = 0 \<and> engines_at u 0 = known_engines (fd_info ex_data) \<and> game_at u 0 = [ex_game] ! 0"
  by (rule updater_starts [OF test.game_iface_axioms]) (simp_all add: ex_data_def ex_params_def)

text \<open>C21: \<open>Bootstrap\<close> never panics for a window of at least two frames: the new run stands for
  the engines and the game that were sent and shows them on the frame and, as a placeholder, on the
  next one, which is the last frame it knows. It ignores local bundles, and if it knows an engine, it
  stays on its frame through all later rounds as long as it has accepted no bundle for the next one.\<close>

theorem updater_bootstraps:
  assumes "game_iface G" and "bf_game b = Some a" and "a < length h" and "1 \<le> ep_max_frames p"
    and "0 \<le> bf_frame b" and "bf_frame b + ep_max_frames p + 2 \<le> max_i32"
  shows "\<exists>u. bootstrap G b (zero_updater p hosting h) = Inr u \<and>
             runs G (history0 (bf_frame b) (known_engines (bf_info b)) (h ! a) True) u \<and>
             win_start u = bf_frame b \<and> up_global u = bf_frame b + 1 \<and>
             (engines_at u (bf_frame b), game_at u (bf_frame b)) = (known_engines (bf_info b), h ! a) \<and>
             (engines_at u (bf_frame b + 1), game_at u (bf_frame b + 1)) = (known_engines (bf_info b), h ! a) \<and>
             (\<forall>lb. handle_local G lb u = Inr u) \<and>
             (\<forall>is t w. rounds G (history0 (bf_frame b) (known_engines (bf_info b)) (h ! a) True) u is t w \<longrightarrow>
                known_engines (bf_info b) \<noteq> fmempty \<longrightarrow> hi_bundles t (bf_frame b + 1) = fmempty \<longrightarrow>
                win_start w = bf_frame b)"
proof -
  let ?s = "history0 (bf_frame b) (known_engines (bf_info b)) (h ! a) True :: ('a, 'b) history"
  obtain u where u: "bootstrap G b (zero_updater p hosting h) = Inr u" "run_inv G ?s u"
      "win_start u = bf_frame b" "up_skip u = -1" "up_global u = bf_frame b + 1"
    using game_iface.booted_run_inv [OF assms] by blast
  have "(engines_at u (bf_frame b), game_at u (bf_frame b)) = (known_engines (bf_info b), h ! a)"
    and "(engines_at u (bf_frame b + 1), game_at u (bf_frame b + 1)) = (known_engines (bf_info b), h ! a)"
    using settled_view [OF run_invD(1) [OF u(2)], of "bf_frame b"] settled_view [OF run_invD(1) [OF u(2)], of "bf_frame b + 1"]
      u(3,5) state_at_base [of G ?s] state_at_pending [of ?s G] by simp_all
  moreover have "handle_local G lb u = Inr u" for lb
    by (rule game_iface.handle_local_ignored [OF assms(1)]) (simp add: u(4))
  ultimately show ?thesis using u runs.booted [OF assms(2-6) u(1)] game_iface.booted_waits [OF assms(1) _ u(2)]
    by (intro exI [of _ u]) blast
qed

theorem updater_bootstraps_witness:
  "\<exists>u. bootstrap test_ops \<lparr>bf_frame = 4, bf_game = Some 0, bf_info = fd_info ex_data\<rparr>
         (zero_updater (ex_params 9) True [ex_game]) = Inr u \<and> win_start u = 4"
  using updater_bootstraps [OF test.game_iface_axioms, of "\<lparr>bf_frame = 4, bf_game = Some 0, bf_info = fd_info ex_data\<rparr>"
      0 "[ex_game]" "ex_params 9" True]
  by (auto simp: ex_params_def)

text \<open>C13: after a group of remote bundles or a local bundle the window has moved as far as it can:
  it has reached every frame up to which all frames are complete.\<close>

theorem updater_progress:
  assumes "game_iface G" and "runs G s u" and "input_ok G i s u"
    and "(\<exists>rbs. i = RemoteBundles rbs) \<or> (\<exists>lb. i = LocalBundle lb \<and> \<not> ignored lb u)"
    and "upd_step G i u = Some (Inr v)" and "f \<le> up_global v"
    and "\<forall>k. hi_base s < k \<and> k \<le> f \<longrightarrow> complete G (accept_input i u s) k"
  shows "f \<le> win_start v"
proof (rule ccontr)
  note r = game_iface.runs_inv [OF assms(1,2)]
  assume f: "\<not> f \<le> win_start v"
  have mx: "maximal G (accept_input i u s) v \<and> run_inv G (accept_input i u s) v"
    using assms(4)
  proof (elim disjE exE conjE)
    fix rbs assume i: "i = RemoteBundles rbs"
    then show ?thesis
      using game_iface.remote_round [OF assms(1) r, of rbs] assms(3,5) by auto
  next
    fix lb assume i: "i = LocalBundle lb" "\<not> ignored lb u"
    then show ?thesis
      using game_iface.local_round [OF assms(1) r, of lb] assms(3,5) by auto
  qed
  then have "hi_base s \<le> win_start v" using settled_order(1) [OF run_invD(1)] by fastforce
  with mx f assms(6,7) show False by (auto simp: maximal_def)
qed

theorem updater_progress_witness: "1 \<le> win_start ex_host2"
proof (rule updater_progress [OF test.game_iface_axioms ex_host1_runs ex_remote_inputs(1)])
  show "upd_step test_ops (RemoteBundles [ex_9]) ex_host1 = Some (Inr ex_host2)" by (simp add: ex_host2_ok)
  have c1: "complete test_ops ex_s2 1"
    using settledD(3) [OF run_invD(1) [OF test.runs_inv [OF ex_host2_runs]], of 1]
    by (simp add: ex_facts) (simp add: ex_s2_def ex_s1_def ex_history_def)
  have "complete test_ops ex_s2 k" if "0 < k \<and> k \<le> 1" for k
  proof -
    have "k = 1" using that by auto
    with c1 show ?thesis by simp
  qed
  then show "\<forall>k. hi_base ex_s1 < k \<and> k \<le> 1 \<longrightarrow>
      complete test_ops (accept_input (RemoteBundles [ex_9]) ex_host1 ex_s1) k"
    unfolding ex_accepts by (simp add: ex_s1_def ex_history_def)
qed (simp_all add: ex_facts)

text \<open>C15: everything the updater sends during a round is true when the round ends: an answer that
  carries a game points to the game of the frame it names, and a frame handed to the Communicator
  for bootstrapping carries the engines and the game of that frame.\<close>

theorem updater_sends_truth:
  assumes "game_iface G" and "runs G s u" and "input_ok G i s u" and "upd_step G i u = Some (Inr v)"
  shows "\<exists>out. up_out v = up_out u @ out \<and> (\<forall>m \<in> set out. true_message G (accept_input i u s) (up_heap v) m)"
  using game_iface.round_ok [OF assms(1) game_iface.runs_inv [OF assms(1,2)] assms(3)] assms(4)
  unfolding sends_truth_def by fastforce

theorem updater_sends_truth_witness:
  "\<exists>out. up_out ex_host2 = up_out ex_host1 @ out \<and>
         (\<forall>m \<in> set out. true_message test_ops (accept_input (RemoteBundles [ex_9]) ex_host1 ex_s1) (up_heap ex_host2) m)"
  by (rule updater_sends_truth [OF test.game_iface_axioms ex_host1_runs ex_remote_inputs(1)])
    (simp add: ex_host2_ok)

text \<open>C16: no request is lost and none is answered twice: in every round, the channels on which an
  answer was given or is still due are the previous ones, plus the channel of the request the round
  received, if any.\<close>

theorem updater_answers_once:
  assumes "game_iface G" and "runs G s u" and "input_ok G i s u" and "upd_step G i u = Some (Inr v)"
  shows "mset (map rq_chan (up_final v)) + mset (map rq_chan (up_fast v)) + mset (resp_chans (up_out v)) =
         mset (map rq_chan (up_final u)) + mset (map rq_chan (up_fast u)) + mset (resp_chans (up_out u)) + asked i"
  using game_iface.round_ok [OF assms(1) game_iface.runs_inv [OF assms(1,2)] assms(3)] assms(4)
  by (auto simp: ledger_def)

theorem updater_answers_once_witness:
  "\<exists>v. handle_request \<lparr>rq_frame = 3, rq_chan = 8, rq_final = True\<rparr> ex_host2 = Inr v \<and>
       mset (map rq_chan (up_final v)) + mset (map rq_chan (up_fast v)) + mset (resp_chans (up_out v)) =
       mset (map rq_chan (up_final ex_host2)) + mset (map rq_chan (up_fast ex_host2)) + mset (resp_chans (up_out ex_host2)) + {#8#}"
proof -
  let ?r = "\<lparr>rq_frame = 3, rq_chan = 8, rq_final = True\<rparr>"
  obtain v where v: "upd_step test_ops (RequestState ?r) ex_host2 = Some (Inr v)"
    using test.round_ok [OF test.runs_inv [OF ex_host2_runs], of "RequestState ?r"] by auto
  show ?thesis
    using updater_answers_once [OF test.game_iface_axioms ex_host2_runs _ v] v by auto
qed

text \<open>C14: a call of \<open>RequestFinalGameState\<close> returns. On a fresh channel, and when no other request
  waits for the same frame, the call for a frame the window has left gets no game, a call for a
  negative frame gets the first frame of the window, and a call for any other frame is blocked
  exactly until the window reaches that frame; the answer names the frame and points to an object
  that, when it is sent, holds the game of that frame. Whatever rounds follow, the caller keeps that
  answer.\<close>

theorem final_state_returns:
  assumes "game_iface G" and "runs G s u"
    and "c \<notin> rq_chan ` (set (up_final u) \<union> set (up_fast u))" and "response c (up_out u) = None"
    and "\<forall>r \<in> set (up_final u). rq_frame r \<noteq> f"
    and "upd_step G (request_final_game_state f c) u = Some (Inr v)"
    and "rounds G s v is t w" and "\<forall>i \<in> set is. other_request c f i"
  shows "let g = (if f < 0 then win_start u else f) in
    if g < win_start u then response c (up_out w) = Some (None, 0)
    else if g \<le> win_start w then answered_by G s v c g is t w
    else response c (up_out w) = None"
  by (rule game_iface.final_call [OF assms(1) game_iface.runs_inv [OF assms(1,2)] _ assms(5-8)])
    (use assms(3,4) in \<open>auto simp: ledger_mem\<close>)

theorem final_state_returns_witness: "\<exists>a. response 8 (up_out ex_w2) = Some (Some a, 1)"
proof -
  have "answered_by test_ops ex_s1 ex_w1 8 1 [RemoteBundles [ex_9]] ex_s2 ex_w2"
    using final_state_returns [where c = 8 and f = 1, OF test.game_iface_axioms ex_host1_runs _ _ _ _ ex_w_rounds] ex_w_ok(1)
    by (simp add: ex_w_facts ex_facts request_final_game_state_def ex_request_def)
  then show ?thesis unfolding answered_by_def by blast
qed

text \<open>Every outcome of a request for a game state. A negative frame asks for the newest state
  (final, or of the local frame), a frame that left the window gets no game, a frame that is known is
  answered at once with its own game, and only a later one waits.\<close>

theorem request_outcome:
  assumes "game_iface G" and "runs G s u" and "rq_final r \<or> 0 \<le> rq_frame r \<or> win_start u \<le> up_local u"
  shows "handle_request r u = Inr (
    let newest = (if rq_final r then win_start u else up_local u); f = rq_frame r;
        at = (\<lambda>k. u\<lparr>up_out := up_out u @ [Respond (rq_chan r) (fd_game (fd_at u k)) k]\<rparr>) in
    if f < 0 then at newest
    else if f < win_start u then u\<lparr>up_out := up_out u @ [Respond (rq_chan r) None 0]\<rparr>
    else if f \<le> newest then at f
    else if rq_final r then u\<lparr>up_final := up_final u @ [r]\<rparr>
    else u\<lparr>up_fast := up_fast u @ [r]\<rparr>)"
  using handle_request_eq [OF game_iface.runs_inv [OF assms(1,2)] assms(3)]
  by (simp add: answer_of_def Let_def send_def)

theorem request_outcome_witness:
  "handle_request \<lparr>rq_frame = -1, rq_chan = 8, rq_final = True\<rparr> ex_host2 =
   Inr (ex_host2\<lparr>up_out := up_out ex_host2 @ [Respond 8 (fd_game (fd_at ex_host2 1)) 1]\<rparr>)"
  using request_outcome [OF test.game_iface_axioms ex_host2_runs, of "\<lparr>rq_frame = -1, rq_chan = 8, rq_final = True\<rparr>"]
  by (simp add: Let_def ex_facts)

text \<open>C19: the order of arrival does not matter: two runs that began on the same state and have
  accepted the same bundles up to a frame show the same engines and the same game on it.\<close>

theorem arrival_order_irrelevant:
  assumes "game_iface G" and "runs G s u" and "runs G t v"
    and "hi_base s = hi_base t" and "hi_engines s = hi_engines t" and "hi_game s = hi_game t"
    and "hi_pending s = hi_pending t" and "\<forall>k. hi_base s < k \<and> k \<le> f \<longrightarrow> hi_bundles s k = hi_bundles t k"
    and "win_start u \<le> f" and "f \<le> up_global u" and "win_start v \<le> f" and "f \<le> up_global v"
  shows "engines_at u f = engines_at v f \<and> game_at u f = game_at v f"
proof -
  have "state_at G s f = state_at G t f" by (rule state_at_cong) (use assms(4-8) in auto)
  then show ?thesis
    using settled_view [OF run_invD(1) [OF game_iface.runs_inv [OF assms(1,2)]] assms(9,10)]
      settled_view [OF run_invD(1) [OF game_iface.runs_inv [OF assms(1,3)]] assms(11,12)]
    by (metis prod.inject)
qed

theorem arrival_order_irrelevant_witness:
  "engines_at ex_host2 1 = engines_at ex_peer2 1 \<and> game_at ex_host2 1 = game_at ex_peer2 1"
  by (rule arrival_order_irrelevant [OF test.game_iface_axioms ex_host2_runs ex_peer2_runs])
    (simp_all add: ex_facts, simp_all add: ex_s2_def ex_s1_def ex_t2_def ex_t1_def ex_history_def ex_sum
      add_bundle_def)

text \<open>C22: every frame of the window has a game object of its own, so that \<open>OverwriteWith\<close> is never
  called on one object and itself, and thinking about a frame changes no other.\<close>

theorem window_games_distinct:
  assumes "game_iface G" and "runs G s u"
    and "win_start u \<le> f" and "f < win_start u + win_len u"
    and "win_start u \<le> k" and "k < win_start u + win_len u"
  shows "(\<exists>a < length (up_heap u). fd_game (fd_at u f) = Some a) \<and>
         (f \<noteq> k \<longrightarrow> fd_game (fd_at u f) \<noteq> fd_game (fd_at u k))"
proof -
  have w: "win_ok u" using run_invD(5) [OF game_iface.runs_inv [OF assms(1,2)]] .
  have "inwin u f" "inwin u k" using assms(3-6) by (simp_all add: dw_inb_def)
  then show ?thesis using game_ptr [OF w, of f] game_ptr_inj [OF w, of f k] by metis
qed

theorem window_games_distinct_witness:
  "fd_game (fd_at ex_host2 1) \<noteq> fd_game (fd_at ex_host2 4)"
  using window_games_distinct [OF test.game_iface_axioms ex_host2_runs, of 1 4] by (simp add: ex_facts)

text \<open>C26: a remote bundle for a frame at or beyond the end of the window makes the updater panic
  (the check the code's TODO asks for is missing).\<close>

theorem far_bundle_panics:
  assumes "game_iface G" and "runs G s u" and "win_start u + win_len u \<le> fb_frame rb"
    and "win_start u + win_len u \<le> max_i32"
  shows "handle_remote G (rb # rbs) u = Inl OutsideWindow"
  using game_iface.remote_beyond [OF assms(1) settledD(1) [OF run_invD(1) [OF game_iface.runs_inv [OF assms(1,2)]]] assms(3,4)] .

theorem far_bundle_panics_witness:
  "handle_remote test_ops [\<lparr>fb_frame = 5, fb_bundle = None\<rparr>] ex_host2 = Inl OutsideWindow"
  by (rule far_bundle_panics [OF test.game_iface_axioms ex_host2_runs]) (simp_all add: ex_facts)

text \<open>A second bundle of an engine for a frame that is still in the window makes the updater
  panic with the id of an engine that both bundles contain.\<close>

theorem duplicate_bundle_panics:
  assumes "game_iface G" and "runs G s u" and "win_start u < fb_frame rb" and "fb_frame rb \<le> up_global u"
    and "fmdom' (hi_bundles s (fb_frame rb)) \<inter> fmdom' (map_of_nilable (fb_bundle rb)) \<noteq> {}"
  shows "\<exists>k. handle_remote G (rb # rbs) u = Inl (Collision (eid k)) \<and>
    k \<in> fmdom' (hi_bundles s (fb_frame rb)) \<inter> fmdom' (map_of_nilable (fb_bundle rb))"
  using game_iface.remote_collision [OF assms(1) settledD(1) [OF run_invD(1) [OF game_iface.runs_inv [OF assms(1,2)]]] assms(3,4)]
    assms(5) by (auto simp: disjoint_bundles_def)

theorem duplicate_bundle_panics_witness:
  "handle_remote test_ops [ex_7] ex_host1 = Inl (Collision 7)"
  using duplicate_bundle_panics [OF test.game_iface_axioms ex_host1_runs, of ex_7 "[]"]
  by (auto simp: ex_facts ex_frames ex_maps ex_domains ex_s1_def ex_history_def)

text \<open>Once the window has left frame 0, a receive from the closed channel of local bundles (the
  Bundler closes it on shutdown) makes the updater panic.\<close>

theorem closed_bundler_panics:
  assumes "game_iface G" and "runs G s u" and "up_skip u = 0" and "0 < win_start u"
  shows "upd_step G (LocalBundle zero_frame_bundle) u = Some (Inl OutsideWindow)"
  using game_iface.closed_local [OF assms(1) game_iface.runs_inv [OF assms(1,2)] assms(3,4)] by simp

theorem closed_bundler_panics_witness:
  "upd_step test_ops (LocalBundle zero_frame_bundle) ex_host2 = Some (Inl OutsideWindow)"
  by (rule closed_bundler_panics [OF test.game_iface_axioms ex_host2_runs]) (simp_all add: ex_facts)

text \<open>C25: a request whose frame the window has already reached (as the second of two requests for
  one frame is, since the removal loop of \<open>fulfillFinalRequests\<close> skips the element it moves into the
  gap) is never answered, whatever happens next.\<close>

theorem request_starves:
  assumes "game_iface G" and "runs G s u" and "input_ok G i s u" and "upd_step G i u = Some (Inr v)"
    and "stale c u" and "c \<notin># asked i"
  shows "stale c v \<and> count (mset (resp_chans (up_out v))) c = count (mset (resp_chans (up_out u))) c"
  using game_iface.stale_round [OF assms(1) game_iface.runs_inv [OF assms(1,2)] assms(3,5,6,4)] .

theorem request_starves_witness:
  "up_final ex_q4 = [ex_request 2] \<and> rq_frame (ex_request 2) = win_start ex_q4 \<and>
   (\<exists>v. upd_step test_ops InfoRequest ex_q4 = Some (Inr v) \<and> stale 2 v \<and>
        count (mset (resp_chans (up_out v))) 2 = 0)"
proof -
  obtain v where v: "upd_step test_ops InfoRequest ex_q4 = Some (Inr v)"
    using test.round_ok [OF test.runs_inv [OF ex_q4_runs], of InfoRequest] by auto
  have "stale 2 ex_q4" by (simp add: stale_def ex_q_facts ex_request_def)
  then have "stale 2 v \<and> count (mset (resp_chans (up_out v))) 2 = count (mset (resp_chans (up_out ex_q4))) 2"
    using request_starves [OF test.game_iface_axioms ex_q4_runs _ v] by simp
  then show ?thesis using v by (simp add: ex_q_facts ex_request_def)
qed

text \<open>\<open>Shutdown\<close> of an updater never returns: no constructor makes the channel it sends on, so the
  case that would receive from it can never be chosen.\<close>

theorem shutdown_never_received:
  assumes "game_iface G" and "runs G s u"
  shows "upd_step G ShutdownSignal u = None"
  using game_iface.runs_no_shutdown [OF assms] by simp

theorem shutdown_never_received_witness: "upd_step test_ops ShutdownSignal ex_host2 = None"
  by (rule shutdown_never_received [OF test.game_iface_axioms ex_host2_runs])

text \<open>Grouping remote bundles loses none, invents none and keeps their order; the groups handed to
  the updater are never empty.\<close>

theorem nagle_groups_arrivals:
  "concat (fst (nagle None is)) @ group_of (snd (nagle None is)) = arrivals is \<and>
   (\<forall>grp \<in> set (fst (nagle None is)). grp \<noteq> [])"
  using nagle_arrivals [of None "is"] nagle_groups [of None "is"] by auto

theorem nagle_groups_arrivals_witness:
  "fst (nagle None [Arrival ex_7, Arrival ex_9, TimerFires, Arrival ex_7]) = [[ex_7, ex_9]] \<and>
   concat (fst (nagle None [Arrival ex_7, Arrival ex_9, TimerFires, Arrival ex_7])) @
     group_of (snd (nagle None [Arrival ex_7, Arrival ex_9, TimerFires, Arrival ex_7])) = [ex_7, ex_9, ex_7]"
  using nagle_groups_arrivals [of "[Arrival ex_7, Arrival ex_9, TimerFires, Arrival ex_7]"] by simp

end
