(* ===== verification/Component_Properties.thy ===== *)
theory Component_Properties
  imports Examples
begin

text \<open>
  The properties of the windows, the bundles, their encoding and the bundler.
\<close>

section \<open>The windows\<close>

text \<open>C37: writing any list of frames inside a data window succeeds, and afterwards every frame of the
  window reads as the last value written to it, or as before when none was.\<close>

theorem data_window_stores:
  assumes "dw_ok w" and "\<forall>p \<in> set ps. dw_first w \<le> p \<and> p < dw_end w"
  shows "\<exists>w'. fold_res (\<lambda>p w. dw_set w p (f p)) ps w = Inr w' \<and> dw_ok w' \<and>
    (\<forall>q. dw_first w \<le> q \<and> q < dw_end w \<longrightarrow> dw_get w' q = (if q \<in> set ps then Inr (f q) else dw_get w q))"
proof -
  have "\<forall>p \<in> set ps. dw_inb w p" using assms dw_end_eq [OF assms(1)] by (simp add: dw_inb_def)
  from dw.store_all_ok [OF assms(1) this, of f, unfolded dw.store_all_def]
  show ?thesis using dw_end_eq [OF assms(1)] unfolding dw_inb_def by metis
qed

definition ex_window :: "int data_window" where
  "ex_window = \<lparr>dw_first = 10, dw_start = 2, dw_data = [100, 101, 102]\<rparr>"

theorem data_window_stores_witness:
  "\<exists>w'. fold_res (\<lambda>p w. dw_set w p (2 * p)) [11, 12] ex_window = Inr w' \<and> dw_get w' 12 = Inr 24 \<and>
        dw_get w' 10 = Inr 102"
proof -
  have ok: "dw_ok ex_window" by code_simp
  have r: "dw_first ex_window = 10" "dw_end ex_window = 13" "dw_get ex_window 10 = Inr 102" by code_simp+
  obtain w' where "fold_res (\<lambda>p w. dw_set w p (2 * p)) [11, 12] ex_window = Inr w'"
    "\<forall>q. 10 \<le> q \<and> q < 13 \<longrightarrow> dw_get w' q = (if q \<in> set [11, 12] then Inr (2 * q) else dw_get ex_window q)"
    using data_window_stores [OF ok, of "[11, 12]" "\<lambda>p. 2 * p"] by (auto simp: r)
  moreover from this(2) have "dw_get w' 12 = Inr 24" "dw_get w' 10 = Inr 102" by (simp_all add: r)
  ultimately show ?thesis by blast
qed

text \<open>C38: a data window reads exactly its frames and panics on all others; \<open>Advance\<close> drops the first
  frame, keeps the others, and the new last frame reads what the dropped one held.\<close>

theorem data_window_slides:
  assumes "dw_ok w" and "dw_first w + dw_len w < max_i32"
  shows "(\<forall>p. if dw_first w \<le> p \<and> p < dw_end w then \<exists>v. dw_get w p = Inr v else dw_get w p = Inl OutsideWindow) \<and>
    (\<exists>w'. dw_advance w = Inr w' \<and> dw_ok w' \<and> dw_first w' = dw_first w + 1 \<and>
          dw_get w' (dw_first w) = Inl OutsideWindow \<and>
          (\<forall>p. dw_first w < p \<and> p < dw_end w \<longrightarrow> dw_get w' p = dw_get w p) \<and>
          dw_get w' (dw_end w) = dw_get w (dw_first w))"
proof -
  note e = dw_end_eq [OF assms(1)] and n = dw_advance_next [OF assms] and b = dw_okD [OF assms(1)]
  have get: "dw_get (dw_next w) p = Inr (dw_at w p)" if "dw_first w < p" "p \<le> dw_end w" for p
    using that e by (simp add: dw_get_eq [OF n(2)] dw_at_next [OF assms(1)] dw_inb_def)
  have out: "dw_get (dw_next w) (dw_first w) = Inl OutsideWindow"
    by (rule dw_get_out [OF n(2)]) (simp add: dw_inb_def)
  have old: "dw_get w p = (if dw_first w \<le> p \<and> p < dw_end w then Inr (dw_at w p) else Inl OutsideWindow)" for p
    using e by (simp add: dw_get_eq [OF assms(1)] dw_get_out [OF assms(1)] dw_inb_def)
  have "dw_get (dw_next w) (dw_end w) = dw_get w (dw_first w)"
    using get [of "dw_end w"] b e dw_at_wraps [of w] by (simp add: old)
  then show ?thesis using n out get old by (auto intro!: exI [of _ "dw_next w"])
qed

theorem data_window_slides_witness:
  "\<exists>w'. dw_advance ex_window = Inr w' \<and> dw_get w' 10 = Inl OutsideWindow \<and> dw_get w' 13 = dw_get ex_window 10"
proof -
  have "dw_ok ex_window" "dw_first ex_window = 10" "dw_end ex_window = 13" "dw_len ex_window = 3" by code_simp+
  then show ?thesis using data_window_slides [of ex_window] by auto
qed

text \<open>The window of the container package, inside its bounds: writing any list of positions
  succeeds, and every position of the window then reads as the last value written to it, or as before.\<close>

theorem u64_window_stores:
  assumes "uw_ok w" and "\<forall>p \<in> set ps. uw_first w \<le> p \<and> p < uw_end w"
  shows "\<exists>w'. fold_res (\<lambda>p w. uw_set w p (f p)) ps w = Inr w' \<and> uw_ok w' \<and>
    (\<forall>q. uw_first w \<le> q \<and> q < uw_end w \<longrightarrow> uw_get w' q = (if q \<in> set ps then Inr (f q) else uw_get w q))"
proof -
  have "\<forall>p \<in> set ps. uw_inb w p" using assms by (simp add: uw_inb_def)
  from uw.store_all_ok [OF assms(1) this, of f, unfolded uw.store_all_def]
  show ?thesis unfolding uw_inb_def by metis
qed

definition ex_u64 :: u64_window where
  "ex_u64 = \<lparr>uw_first = 10, uw_start = 2, uw_data = [''a'', ''b'', ''c'']\<rparr>"

lemma ex_u64_facts: "uw_ok ex_u64" "uw_first ex_u64 = 10" "uw_end ex_u64 = 13"
  by code_simp+

theorem u64_window_stores_witness:
  "\<exists>w'. fold_res (\<lambda>p w. uw_set w p ''z'') [11] ex_u64 = Inr w' \<and> uw_get w' 11 = Inr ''z''"
  using u64_window_stores [OF ex_u64_facts(1), of "[11]" "\<lambda>_. ''z''"] by (auto simp: ex_u64_facts)

text \<open>C39: the bounds check of that window does not work: reading the position after the last one
  does not panic but returns what the first position holds.\<close>

theorem u64_window_end_aliases:
  assumes "uw_ok w"
  shows "uw_get w (uw_end w) = uw_get w (uw_first w) \<and> (\<exists>s. uw_get w (uw_end w) = Inr s)"
  using uw_end_aliases [OF assms] by blast

theorem u64_window_end_aliases_witness: "uw_get ex_u64 13 = Inr ''c''"
proof -
  have "uw_get ex_u64 10 = Inr ''c''" by code_simp
  then show ?thesis using u64_window_end_aliases [OF ex_u64_facts(1)] by (simp add: ex_u64_facts)
qed

section \<open>Bundles and engine information\<close>

text \<open>\<open>each\<close> visits every engine of a bundle exactly once, in ascending order of the ids, whatever
  orders the ranges over the map take, and stops at the first panic of the callback.\<close>

theorem each_ascending:
  assumes "\<forall>i. distinct (ord i) \<and> set (ord i) = fmdom' b" and "\<forall>k \<in> fmdom' b. 0 \<le> eid k"
  shows "each_with ord (Some b) f s = fold_res (\<lambda>k. f k (the (fmlookup b k))) (sorted_list_of_set (fmdom' b)) s"
proof -
  have "each_with ord (Some b) f s = each (Some b) f s"
    by (rule each_with_each) (use assms(1) in \<open>simp add: enumerates_def\<close>)
  also have "\<dots> = fold_res (\<lambda>k. f k (bundle_get (Some b) k)) (keys b) s"
    using each_eq_fold [of "Some b"] assms(2) by (simp add: nonneg_ids_def)
  also have "\<dots> = fold_res (\<lambda>k. f k (the (fmlookup b k))) (keys b) s"
    by (rule fold_res_cong) (auto simp: bundle_get_def fmlookup_dom'_iff)
  also have "keys b = sorted_list_of_set (fmdom' b)"
    by (simp add: keys_def sorted_list_of_fset.rep_eq fmdom'_alt_def)
  finally show ?thesis .
qed

theorem each_ascending_witness:
  "each_with (\<lambda>_. [EngineId 9, EngineId 7]) (Some (ex_m7 ++\<^sub>f ex_m9)) (\<lambda>k _ s. Inr (s @ [eid k])) [] = Inr [7, 9]"
proof -
  have d: "fmdom' (ex_m7 ++\<^sub>f ex_m9) = {EngineId 7, EngineId 9}" by (auto simp: fmdom'_add ex_domains)
  have "each_with (\<lambda>_. [EngineId 9, EngineId 7]) (Some (ex_m7 ++\<^sub>f ex_m9)) (\<lambda>k _ s. Inr (s @ [eid k])) [] =
      fold_res (\<lambda>k s. Inr (s @ [eid k])) (sorted_list_of_set (fmdom' (ex_m7 ++\<^sub>f ex_m9))) []"
    by (rule each_ascending) (auto simp: ex_domains)
  also have "sorted_list_of_set (fmdom' (ex_m7 ++\<^sub>f ex_m9)) = [EngineId 7, EngineId 9]"
    unfolding d by code_simp
  finally show ?thesis by simp
qed

text \<open>\<open>AbsorbEventBundle\<close> merges two bundles exactly when no engine is in both, and otherwise panics
  with the id of an engine in both; two bundles can be absorbed in either order.\<close>

theorem absorb_merges:
  "(absorb (Some m) (Some a) = Inr r \<longleftrightarrow> fmdom' m \<inter> fmdom' a = {} \<and> r = Some (m ++\<^sub>f a)) \<and>
   (fmdom' m \<inter> fmdom' a \<noteq> {} \<longrightarrow> (\<exists>k \<in> fmdom' m \<inter> fmdom' a. absorb (Some m) (Some a) = Inl (Collision (eid k)))) \<and>
   (fmdom' m \<inter> fmdom' a = {} \<and> fmdom' m \<inter> fmdom' b = {} \<and> fmdom' a \<inter> fmdom' b = {} \<longrightarrow>
     seq (absorb (Some m) (Some a)) (\<lambda>r. absorb r (Some b)) = seq (absorb (Some m) (Some b)) (\<lambda>r. absorb r (Some a)))"
proof (intro conjI impI)
  show "absorb (Some m) (Some a) = Inr r \<longleftrightarrow> fmdom' m \<inter> fmdom' a = {} \<and> r = Some (m ++\<^sub>f a)"
    by (simp add: absorb_Inr_iff disjoint_bundles_def)
  show "\<exists>k \<in> fmdom' m \<inter> fmdom' a. absorb (Some m) (Some a) = Inl (Collision (eid k))" if "fmdom' m \<inter> fmdom' a \<noteq> {}"
    using absorb_with_collision [of "keys a" "Some a" m] keys_enumerates [of a] that
    by (auto simp: absorb_def disjoint_bundles_def)
  assume d: "fmdom' m \<inter> fmdom' a = {} \<and> fmdom' m \<inter> fmdom' b = {} \<and> fmdom' a \<inter> fmdom' b = {}"
  have "m ++\<^sub>f a ++\<^sub>f b = m ++\<^sub>f b ++\<^sub>f a"
  proof (rule fmap_ext)
    fix x
    have "\<not> (x \<in> fmdom' a \<and> x \<in> fmdom' b)" using d by blast
    then show "fmlookup (m ++\<^sub>f a ++\<^sub>f b) x = fmlookup (m ++\<^sub>f b ++\<^sub>f a) x"
      by (auto simp: fmdom'_alt_def)
  qed
  moreover have "absorb (Some m) (Some a) = Inr (Some (m ++\<^sub>f a))" "absorb (Some m) (Some b) = Inr (Some (m ++\<^sub>f b))"
    "absorb (Some (m ++\<^sub>f a)) (Some b) = Inr (Some (m ++\<^sub>f a ++\<^sub>f b))"
    "absorb (Some (m ++\<^sub>f b)) (Some a) = Inr (Some (m ++\<^sub>f b ++\<^sub>f a))"
    using d by (auto simp: absorb_Inr_iff disjoint_bundles_def fmdom'_add)
  ultimately show "seq (absorb (Some m) (Some a)) (\<lambda>r. absorb r (Some b)) = seq (absorb (Some m) (Some b)) (\<lambda>r. absorb r (Some a))"
    by simp
qed

theorem absorb_merges_witness:
  "absorb (Some ex_m7) (Some ex_m9) = Inr (Some (ex_m7 ++\<^sub>f ex_m9)) \<and>
   absorb (Some ex_m7) (Some ex_m7) = Inl (Collision 7)"
  using absorb_merges [of ex_m7 ex_m9 "Some (ex_m7 ++\<^sub>f ex_m9)"] absorb_merges [of ex_m7 ex_m7]
  by (simp add: ex_domains)

text \<open>\<open>Copy\<close> of an engine information, whatever the order of its range, has the same engines in a
  map of its own that is never nil, so that applying engine events to a copy never panics: they add
  and remove engines one after the other.\<close>

theorem info_copy_events:
  assumes "distinct ks" and "set ks = fmdom' (known_engines info)"
  shows "fold_res apply_engine_event es (info_copy_with ks info) =
         Inr \<lparr>ei_engines = Some (fold event_on_map es (known_engines info))\<rparr>"
  using info_copy_with_eq [of ks info] assms apply_engine_events_map [of es "known_engines info"]
  by (simp add: enumerates_def)

theorem info_copy_events_witness:
  "fold_res apply_engine_event [EngineJoined (EngineId 3)] (info_copy_with [] \<lparr>ei_engines = None\<rparr>) =
   Inr \<lparr>ei_engines = Some (fmupd (EngineId 3) True fmempty)\<rparr>"
  using info_copy_events [of "[]" "\<lparr>ei_engines = None\<rparr>" "[EngineJoined (EngineId 3)]"]
  by (simp add: known_engines_def)

section \<open>Encoding\<close>

text \<open>C40: \<open>GobDecode\<close> gives back what \<open>GobEncode\<close> wrote, for lists of fewer than \<open>2 ^ 32\<close> events
  whose types are registered; an event of an unregistered type is an error.\<close>

theorem gob_round_trip:
  assumes "length (ae_game ae) < 2 ^ 32" and "length (ae_engine ae) < 2 ^ 32"
  shows "(case gob_encode reg ae of
            Inr vs \<Rightarrow> (\<forall>e \<in> set (ae_game ae). reg e) \<and> gob_decode vs = Inr ae
          | Inl err \<Rightarrow> (\<exists>e \<in> set (ae_game ae). \<not> reg e) \<and> err = NotRegistered)"
  using gob_decode_encoded [OF assms] by (auto simp: gob_encode_eq list_all_iff)

theorem gob_round_trip_witness:
  "(case gob_encode (\<lambda>_. True) \<lparr>ae_game = [EventA 1], ae_engine = [EngineJoined (EngineId 3)]\<rparr> of
      Inr vs \<Rightarrow> gob_decode vs = Inr \<lparr>ae_game = [EventA 1], ae_engine = [EngineJoined (EngineId 3)]\<rparr>
    | Inl err \<Rightarrow> False)"
  using gob_round_trip [of "\<lparr>ae_game = [EventA 1], ae_engine = [EngineJoined (EngineId 3)]\<rparr>" "\<lambda>_. True"]
  by (auto split: sum.splits)

text \<open>A stream that was cut off anywhere is an error, never a bundle with fewer events.\<close>

theorem gob_truncated:
  assumes "length (ae_game ae) < 2 ^ 32" and "length (ae_engine ae) < 2 ^ 32"
    and "gob_encode reg ae = Inr vs" and "k < length vs"
  shows "gob_decode (take k vs) = Inl EndOfStream"
  by (rule gob_decode_prefix [OF assms])

theorem gob_truncated_witness:
  "gob_decode [GobLen 2, GobGame (EventA 1), GobGame (EventA 2)] = Inl EndOfStream"
  using gob_truncated [of "\<lparr>ae_game = [EventA 1, EventA 2], ae_engine = []\<rparr>" "\<lambda>_. True"
      "[GobLen 2, GobGame (EventA 1), GobGame (EventA 2), GobLen 0]" 3]
  by (simp add: gob_encode_eq u32_len_def)

section \<open>The bundler\<close>

text \<open>C23: a started bundler never panics, whatever it receives: it sends one bundle for every frame in
  turn from its first one, without gaps, and the bundles, together with the events still waiting,
  hold all game events and all engine events received before it was stopped, in order.\<close>

theorem bundler_packs_events:
  assumes "tstart (bu_ticker b) = Inr t" and "ep_frame_ms (bu_params b) \<noteq> 0" and "\<not> bu_closed b" and "bu_out b = []"
  shows "\<exists>b0 b'. bundler_start tstart b = Inr b0 \<and> bundler_run is b0 = Inr b' \<and>
    map fb_frame (bu_out b') = [bu_frame b0..bu_frame b' - 1] \<and>
    sent_game b' @ bu_game b' = received_game is \<and> sent_engine b' @ bu_engine b' = received_engine is"
proof -
  obtain b0 where b0: "bundler_start tstart b = Inr b0" "bundler_ok b0" "bu_running b0" "bu_out b0 = []"
      "bu_game b0 = []" "bu_engine b0 = []"
    using bundler_start_ok [of tstart b t] assms by auto
  have "sent_game b0 = []" "sent_engine b0 = []" by (simp_all add: sent_game_def sent_engine_def b0)
  then show ?thesis using bundler_run_ok [OF b0(2,3), of "is"] b0 by auto
qed

definition ex_inputs :: "test_event bundler_in list" where
  "ex_inputs = [GameEvent (EventA 1), Tick, LocalEngineEvent (EngineJoined (EngineId 9)), Tick, Tick, Tick, Tick,
     Tick, GameEvent (EventB ''x'')]"

theorem bundler_packs_events_witness:
  "\<exists>b0 b'. bundler_start basic_start (zero_bundler (ex_params 7) new_basic_ticker 5) = Inr b0 \<and>
     bundler_run ex_inputs b0 = Inr b' \<and> sent_game b' @ bu_game b' = [EventA 1, EventB ''x''] \<and>
     sent_engine b' @ bu_engine b' = [EngineJoined (EngineId 9)]"
proof -
  have "basic_start new_basic_ticker = Inr \<lparr>bt_ticker = True, bt_c = Some 0, bt_made = 1, bt_forwarders = 1\<rparr>"
    by (simp add: basic_start_def new_basic_ticker_def)
  with bundler_packs_events [of basic_start "zero_bundler (ex_params 7) new_basic_ticker 5" _ ex_inputs]
  show ?thesis by (auto simp: zero_bundler_def ex_params_def ex_inputs_def)
qed

text \<open>C24: without clock adjustments the bundler keeps time: after any events and ticks its clock has moved
  by the number of ticks, and its current frame is the number of whole frames on the clock.\<close>

theorem bundler_keeps_time:
  assumes "bundler_start tstart b = Inr b0" and "0 < ep_frame_ms (bu_params b)" and "0 \<le> bu_current_ms b"
    and "\<not> bu_closed b" and "\<forall>i \<in> set is. i \<noteq> StopBundler \<and> (\<forall>d. i \<noteq> TimeDelta d)"
    and "bu_current_ms b + ticks is < 2 ^ 63" and "(bu_current_ms b + ticks is) div ep_frame_ms (bu_params b) \<le> max_i32"
  shows "\<exists>b'. bundler_run is b0 = Inr b' \<and> bu_current_ms b' = bu_current_ms b + ticks is \<and>
    bu_frame b' = (bu_current_ms b + ticks is) div ep_frame_ms (bu_params b)"
proof -
  obtain t where "tstart (bu_ticker b) = Inr t" using assms(1) by (auto simp: bundler_start_def seq_Inr_iff)
  then obtain b1 where b1: "bundler_start tstart b = Inr b1" "bundler_ok b1" "bu_running b1" "bu_params b1 = bu_params b"
      "bu_frame b1 = i32 (i64 (bu_current_ms b sdiv ep_frame_ms (bu_params b)))" "bu_current_ms b1 = bu_current_ms b"
    using bundler_start_ok [of tstart b t] assms by auto
  have b01: "b1 = b0" using assms(1) b1(1) by simp
  note b0 = b1(2-) [unfolded b01]
  let ?ms = "bu_current_ms b" and ?fm = "ep_frame_ms (bu_params b)"
  have le: "?ms div ?fm \<le> (?ms + ticks is) div ?fm" by (rule zdiv_mono1) (use assms(2) ticks_nonneg in auto)
  have nn: "0 \<le> ?ms div ?fm" using assms(2,3) by (simp add: pos_imp_zdiv_nonneg_iff)
  have "i32 (i64 (?ms div ?fm)) = ?ms div ?fm" using le nn assms(7) by simp
  then have fr: "bu_frame b0 = bu_current_ms b0 div ep_frame_ms (bu_params b0)"
    using b0 assms(2,3) by (simp add: sdiv_nonneg)
  obtain b' where b': "bundler_run is b0 = Inr b'" using bundler_run_ok [OF b0(1,2), of "is"] by blast
  have "bu_current_ms b' = bu_current_ms b0 + ticks is \<and> bu_frame b' = bu_current_ms b' div ep_frame_ms (bu_params b0)"
    by (rule bundler_clock [OF b0(1,2) _ _ fr _ _ _ _ b']) (use assms b0 in auto)
  with b' b0 show ?thesis by simp
qed

theorem bundler_keeps_time_witness:
  "\<exists>b0 b'. bundler_start basic_start (zero_bundler (ex_params 7) new_basic_ticker 5) = Inr b0 \<and>
     bundler_run ex_inputs b0 = Inr b' \<and> bu_current_ms b' = 11 \<and> bu_frame b' = 2"
proof -
  let ?b = "zero_bundler (ex_params 7) new_basic_ticker 5 :: (test_event, basic_ticker) bundler"
  have "basic_start new_basic_ticker = Inr \<lparr>bt_ticker = True, bt_c = Some 0, bt_made = 1, bt_forwarders = 1\<rparr>"
    by (simp add: basic_start_def new_basic_ticker_def)
  then obtain b0 where b0: "bundler_start basic_start ?b = Inr b0"
    using bundler_start_ok [of basic_start ?b] by (auto simp: zero_bundler_def ex_params_def)
  have "ticks ex_inputs = 6" by (simp add: ex_inputs_def)
  with bundler_keeps_time [OF b0, of ex_inputs] b0 show ?thesis
    by (auto simp: zero_bundler_def ex_params_def ex_inputs_def)
qed

end
