(* ===== verification/Handshake.thy ===== *)
theory Handshake
  imports Communicator
begin

text \<open>
  What the communicator of a host sends on a connection that joins, over whole runs: its initial
  data and then the frames that the updater completes for its start frame.
\<close>

section \<open>Who has been sent data\<close>

text \<open>Only connections in the list are sent data or wait for a frame.\<close>

definition known_conns :: "('e, 'w) communicator \<Rightarrow> bool" where
  "known_conns c \<longleftrightarrow> (\<forall>k. k \<notin> set (cm_conns c) \<longrightarrow> sent_data k (cm_out c) = []) \<and>
     (\<forall>pb \<in> set (cm_bootstraps c). pb_conn pb \<in> set (cm_conns c))"

lemma sent_boots: "sent_data k (boot_sends enc bf pbs) =
  map (\<lambda>pb. the (enc (BootData bf))) (filter (\<lambda>pb. pb_conn pb = k \<and> bm_frame bf = pb_start pb) pbs)"
  unfolding boot_sends_def by (induction pbs) auto

lemma sent_spawns [simp]:
  "sent_data k (map (\<lambda>j. SpawnBundle j b) js) = []" "sent_data k (map CloseConn js) = []"
  by (induction js) auto

lemma sweep_subset: "set (snd (sweep hit i xs)) \<subseteq> set xs"
  using sweep_mset [of hit i xs] by (metis set_mset_mono mset_subset_eq_add_right set_mset_mset)

lemma known_start: "known_conns (comm_start (zero_communicator hc))"
  by (simp add: known_conns_def comm_start_def zero_communicator_def split: option.splits)

lemma known_boot:
  assumes "known_conns c" and "on_boot_frame enc bf c = Inr c'"
  shows "known_conns c'"
  using assms(1) sweep_subset [of "\<lambda>pb. bm_frame bf = pb_start pb" 0 "cm_bootstraps c"]
  by (auto simp: on_boot_frame_Inr [OF assms(2)] known_conns_def sent_boots filter_empty_conv)

lemma known_step:
  assumes "comm_step enc dec i c = Some (Inr c')" and "known_conns c"
  shows "known_conns c'"
proof (cases i)
  case (BootFrame bf)
  then have "on_boot_frame enc bf c = Inr c'" using assms(1) by (auto split: if_splits)
  then show ?thesis by (rule known_boot [OF assms(2)])
qed (use assms in \<open>auto simp: on_new_conn_def on_broadcast_def on_remote_def on_comm_shutdown_def bootstrap_routine_def Let_def
      known_conns_def split: if_splits option.splits\<close>)

lemma known_run: "comm_run enc dec is c = Some (Inr c') \<Longrightarrow> known_conns c \<Longrightarrow> known_conns c'"
  by (induction "is" arbitrary: c) (auto simp: comm_run_Cons intro: known_step)

section \<open>The frames for one connection\<close>

text \<open>The frames with a given number that reach the communicator, in order.\<close>

fun boots_in :: "int \<Rightarrow> ('e, 'g, 'w) comm_in \<Rightarrow> 'g boot_message list" where
  "boots_in s (BootFrame bf) = (if bm_frame bf = s then [bf] else [])"
| "boots_in s _ = []"

definition boots_for :: "int \<Rightarrow> ('e, 'g, 'w) comm_in list \<Rightarrow> 'g boot_message list" where
  "boots_for s is = concat (map (boots_in s) is)"

lemma boots_for_simps [simp]: "boots_for s [] = []" "boots_for s (i # is) = boots_in s i @ boots_for s is"
  by (simp_all add: boots_for_def)

definition pending :: "nat \<Rightarrow> ('e, 'w) communicator \<Rightarrow> pending_boot list" where
  "pending k c = filter (\<lambda>pb. pb_conn pb = k) (cm_bootstraps c)"

lemma sweep_filter: "mset (filter Q (fst (sweep hit i xs))) + mset (filter Q (snd (sweep hit i xs))) = mset (filter Q xs)"
  using arg_cong [OF sweep_mset [of hit i xs], of "filter_mset Q"] by simp

lemma sweep_pending:
  assumes "filter Q xs = [x]"
  shows "filter Q (snd (sweep hit i xs)) = [] \<or> filter Q (snd (sweep hit i xs)) = [x]"
    and "\<not> hit x \<Longrightarrow> filter Q (snd (sweep hit i xs)) = [x]"
proof -
  define f r where "f = filter Q (fst (sweep hit i xs))" and "r = filter Q (snd (sweep hit i xs))"
  have m: "mset f + mset r = {#x#}" using sweep_filter [of Q hit i xs] assms unfolding f_def r_def by simp
  then have fr: "(f = [] \<and> r = [x]) \<or> (f = [x] \<and> r = [])" by (auto simp: union_is_single)
  then show "filter Q (snd (sweep hit i xs)) = [] \<or> filter Q (snd (sweep hit i xs)) = [x]" by (auto simp: r_def)
  assume "\<not> hit x"
  then have "x \<notin> set f" using sweep_hits [of x hit i xs] by (auto simp: f_def)
  then show "filter Q (snd (sweep hit i xs)) = [x]" using fr by (auto simp: r_def)
qed

text \<open>
  What connection \<open>k\<close> with start frame \<open>s\<close> has been sent after the frames \<open>bfs\<close>: all of them while
  it is pending, and since then a first part of them. The sweep may leave it in the list once.
\<close>

definition served :: "('g payload \<Rightarrow> 'w option) \<Rightarrow> nat \<Rightarrow> int \<Rightarrow> 'w \<Rightarrow> 'g boot_message list \<Rightarrow> nat \<Rightarrow>
  ('e, 'w) communicator \<Rightarrow> bool" where
  "served enc k s w0 bfs n c \<longleftrightarrow>
     sent_data k (cm_out c) = w0 # map (\<lambda>bf. the (enc (BootData bf))) (take n bfs) \<and>
     (\<forall>bf \<in> set (take n bfs). enc (BootData bf) \<noteq> None) \<and> 0 < n \<and>
     (pending k c = [\<lparr>pb_conn = k, pb_start = s\<rparr>] \<and> length bfs \<le> n \<or> pending k c = [] \<and> n \<le> length bfs)"

lemma served_same:
  "served enc k s w0 bfs n c \<Longrightarrow> sent_data k (cm_out c') = sent_data k (cm_out c) \<Longrightarrow> pending k c' = pending k c \<Longrightarrow>
   served enc k s w0 bfs n c'"
  by (simp add: served_def)

lemma served_boot:
  assumes sv: "served enc k s w0 bfs n c" and st: "on_boot_frame enc bf c = Inr c'"
  shows "\<exists>n. served enc k s w0 (bfs @ boots_in s (BootFrame bf)) n c'"
proof -
  let ?hit = "\<lambda>pb. bm_frame bf = pb_start pb" and ?pb = "\<lparr>pb_conn = k, pb_start = s\<rparr>"
  note c' = on_boot_frame_Inr [OF st]
  have sent: "sent_data k (cm_out c') = sent_data k (cm_out c) @ map (\<lambda>pb. the (enc (BootData bf))) (filter ?hit (pending k c))"
    by (subst c') (simp add: sent_boots pending_def)
  have pc: "pending k c' = filter (\<lambda>pb. pb_conn pb = k) (snd (sweep ?hit 0 (cm_bootstraps c)))"
    unfolding pending_def by (subst c') simp
  show ?thesis
  proof (cases "pending k c = []")
    case True
    then have "pending k c' = []"
      using sweep_filter [of "\<lambda>pb. pb_conn pb = k" ?hit 0 "cm_bootstraps c"] unfolding pc by (simp add: pending_def)
    then show ?thesis using sv True sent by (intro exI [of _ n]) (auto simp: served_def)
  next
    case False
    then have p: "pending k c = [?pb]" and n: "length bfs \<le> n" using sv by (auto simp: served_def)
    note sp = sweep_pending [OF p [unfolded pending_def], where hit = ?hit and i = 0]
    show ?thesis
    proof (cases "bm_frame bf = s")
      case True
      obtain c1 where "fold_res (send_boot enc bf) (cm_bootstraps c) c = Inr c1"
        using st by (auto simp: on_boot_frame_def seq_Inr_iff)
      moreover have "?pb \<in> set (pending k c)" using p by simp
      then have "?pb \<in> set (cm_bootstraps c)" by (simp add: pending_def)
      then have "\<exists>pb \<in> set (cm_bootstraps c). bm_frame bf = pb_start pb" using True by force
      ultimately have "enc (BootData bf) \<noteq> None" by (rule send_boots_enc)
      then show ?thesis using sv sp(1) p n True sent by (intro exI [of _ "Suc (length bfs)"]) (auto simp: served_def pc)
    next
      case False
      then show ?thesis using sv sp(2) p n sent by (intro exI [of _ n]) (auto simp: served_def pc)
    qed
  qed
qed

lemma served_step:
  assumes "served enc k s w0 bfs n c" and "comm_step enc dec i c = Some (Inr c')" and "\<And>rid. i \<noteq> NewConn k rid"
  shows "\<exists>n. served enc k s w0 (bfs @ boots_in s i) n c'"
proof (cases i)
  case (NewConn j rid)
  then have "j \<noteq> k" using assms(3) by auto
  then have "served enc k s w0 bfs n c'" using assms(2) NewConn
    by (intro served_same [OF assms(1)]) (auto simp: on_new_conn_def pending_def Let_def split: if_splits option.splits)
  then show ?thesis using NewConn by auto
next
  case (BootFrame bf)
  then have "on_boot_frame enc bf c = Inr c'" using assms(2) by (auto split: if_splits)
  then show ?thesis unfolding BootFrame by (rule served_boot [OF assms(1)])
qed (use assms(2) in \<open>auto intro!: exI [of _ n] served_same [OF assms(1)] simp: on_broadcast_def on_remote_def on_comm_shutdown_def
       bootstrap_routine_def pending_def Let_def split: if_splits\<close>)

lemma served_run:
  assumes "served enc k s w0 bfs n c" and "comm_run enc dec is c = Some (Inr c')" and "\<And>rid. NewConn k rid \<notin> set is"
  shows "\<exists>n. served enc k s w0 (bfs @ boots_for s is) n c'"
  using assms
proof (induction "is" arbitrary: bfs n c)
  case (Cons i "is")
  then obtain c1 where c1: "comm_step enc dec i c = Some (Inr c1)" "comm_run enc dec is c1 = Some (Inr c')"
    by (auto simp: comm_run_Cons)
  obtain m where "served enc k s w0 (bfs @ boots_in s i) m c1"
    using served_step [OF Cons.prems(1) c1(1)] Cons.prems(3) by (metis list.set_intros(1))
  then show ?case using Cons.IH [OF _ c1(2)] Cons.prems(3) by fastforce
qed auto

lemma served_new:
  assumes "known_conns c" and "k \<notin> set (cm_conns c)" and "enc (InitialData (i32 (cm_horizon c + 1)) (EngineId rid)) = Some w0"
  shows "served enc k (i32 (cm_horizon c + 1)) w0 [] 1 (on_new_conn enc k rid c)"
  using assms by (auto simp: served_def on_new_conn_def known_conns_def pending_def Let_def filter_empty_conv)

text \<open>The goroutine of the connection waits until it receives.\<close>

lemma waiting_run:
  assumes "comm_run enc dec is c = Some (Inr c')" and "(k, i) \<in> set (cm_waiting c)" and "\<And>j data. BootReply k j data \<notin> set is"
  shows "(k, i) \<in> set (cm_waiting c')"
  using assms
proof (induction "is" arbitrary: c)
  case (Cons a "is")
  then obtain c1 where c1: "comm_step enc dec a c = Some (Inr c1)" "comm_run enc dec is c1 = Some (Inr c')"
    by (auto simp: comm_run_Cons)
  have "a = BootReply j l data \<Longrightarrow> j \<noteq> k" for j l data using Cons.prems(3) by auto
  then have "(k, i) \<in> set (cm_waiting c1)" using c1(1) Cons.prems(2)
    by (cases a) (auto simp: on_new_conn_def on_broadcast_def on_remote_def on_comm_shutdown_def bootstrap_routine_def Let_def
        split: if_splits option.splits dest!: on_boot_frame_Inr)
  then show ?case using Cons.IH [OF c1(2)] Cons.prems(3) by simp
qed simp

text \<open>The client takes the first frame it is sent.\<close>

lemma join_first:
  assumes "dec w0 = Some (InitialData s i)" and "enc (ReadyData True) = Some w2"
    and "\<forall>bf \<in> set bfs. dec (the (enc (BootData bf))) = Some (BootData bf)"
  shows "comm_join enc dec conn (Some w0)
      (map JoinBundle bs @ map (\<lambda>bf. JoinData (Some (the (enc (BootData bf))))) bfs) c =
    (case bfs of
       [] \<Rightarrow> None
     | bf # _ \<Rightarrow> Some (c\<lparr>cm_out := cm_out c @ [SendData conn w2, RawInOrder (filter (\<lambda>b. s < fb_frame b) bs)],
                           cm_host_conn := Some conn\<rparr>, Some (bf, i)))"
  using assms join_loop_bundles [of enc dec s i "[]" bs "[]"]
  by (cases bfs) (simp_all add: comm_join_def join_conn_def decode_with_def join_loop_bundles)

end
