(* ===== verification/Network_Purge.thy ===== *)
theory Network_Purge
  imports Network_Mock
begin

text \<open>
  The signals on the unbuffered channel \<open>purge\<close> of one end of a mock connection: sent by \<open>Close\<close> and
  \<open>Purge\<close> of \<open>ConnMock\<close>, received by its \<open>routine\<close> and by its host's \<open>connRoutine\<close>, which also
  sends on it. Whoever is ready may take a signal, so a run is a list of actions.
\<close>

section \<open>Model\<close>

text \<open>Which of \<open>current_purge\<close> and \<open>completed_purge\<close> the \<open>routine\<close> receives from.\<close>

datatype routine_phase = OnCurrent | OnCompleted | RoutineDone

text \<open>What a \<open>routine\<close> makes of a signal, and whether it closes the receiving channels.\<close>

fun routine_signal :: "bool \<Rightarrow> routine_phase \<Rightarrow> (routine_phase \<times> bool) option" where
  "routine_signal shutdown OnCurrent = Some (if shutdown then (RoutineDone, True) else (OnCompleted, False))"
| "routine_signal shutdown OnCompleted = Some (OnCurrent, False)"
| "routine_signal shutdown RoutineDone = None"

text \<open>A \<open>connRoutine\<close>: in its \<open>select\<close>, in \<open>wg.Wait()\<close> after a signal, or about to send one back.\<close>

datatype host_phase = Selecting | Waiting bool | Replying | HostDone

record purge_end =
  pe_calls :: "bool list list"     \<comment> \<open>the signals that each running call has still to send\<close>
  pe_routine :: routine_phase
  pe_host :: host_phase
  pe_in :: nat                     \<comment> \<open>the goroutines of the \<open>connRoutine\<close> that send on \<open>cd.recv\<close>, to this \<open>routine\<close>\<close>
  pe_out :: nat                    \<comment> \<open>those that send on \<open>cd.remote_recv\<close>; \<open>wg\<close> counts both\<close>
  pe_unread :: nat                 \<comment> \<open>the goroutines of the \<open>routine\<close> that hand a message to the reader\<close>
  pe_remote :: bool                \<comment> \<open>does the \<open>routine\<close> of the other end run\<close>
  pe_closed :: bool
  pe_crashed :: bool

definition close_signals :: "bool list" where
  "close_signals = [True, True]"

definition purge_signals :: "bool list" where
  "purge_signals = [False, False]"

datatype purge_act =
    Call "bool list"     \<comment> \<open>somebody calls \<open>Close\<close> or \<open>Purge\<close>\<close>
  | ToRoutine nat        \<comment> \<open>the \<open>routine\<close> receives from the call of that index\<close>
  | ToHost nat           \<comment> \<open>the \<open>connRoutine\<close> receives from it\<close>
  | Waited               \<comment> \<open>\<open>wg.Wait()\<close> returns\<close>
  | Reply                \<comment> \<open>the \<open>routine\<close> receives from the \<open>connRoutine\<close>\<close>
  | TakeIn               \<comment> \<open>the \<open>connRoutine\<close> takes a message of the other end and starts a goroutine for it\<close>
  | TakeOut              \<comment> \<open>it takes a message of this end\<close>
  | DeliverIn bool       \<comment> \<open>such a goroutine ends: this \<open>routine\<close> receives; is there something to hand on?\<close>
  | DeliverOut           \<comment> \<open>the \<open>routine\<close> of the other end receives\<close>
  | Arrives              \<comment> \<open>the \<open>routine\<close> receives a message from the other host's \<open>connRoutine\<close>\<close>
  | Reads                \<comment> \<open>somebody receives from \<open>RecvData\<close> or \<open>RecvFrameBundle\<close>\<close>
  | RemoteStops          \<comment> \<open>the \<open>routine\<close> of the other end returns\<close>

text \<open>A goroutine that is sending on a channel panics when the channel is closed, which ends the process.\<close>

definition routine_receives :: "bool \<Rightarrow> purge_end \<Rightarrow> purge_end option" where
  "routine_receives b s = map_option (\<lambda>(r, closes). s\<lparr>pe_routine := r, pe_closed := (pe_closed s \<or> closes),
       pe_crashed := (pe_crashed s \<or> closes \<and> 0 < pe_unread s)\<rparr>)
     (routine_signal b (pe_routine s))"

text \<open>The signal that call \<open>i\<close> sends next.\<close>

definition next_signal :: "nat \<Rightarrow> purge_end \<Rightarrow> bool option" where
  "next_signal i s = (if i < length (pe_calls s) \<and> pe_calls s ! i \<noteq> [] then Some (hd (pe_calls s ! i)) else None)"

definition signal_sent :: "nat \<Rightarrow> purge_end \<Rightarrow> purge_end" where
  "signal_sent i s = s\<lparr>pe_calls := (pe_calls s)[i := tl (pe_calls s ! i)]\<rparr>"

fun purge_act_step :: "purge_act \<Rightarrow> purge_end \<Rightarrow> purge_end option" where
  "purge_act_step (Call bs) s = Some (s\<lparr>pe_calls := pe_calls s @ [bs]\<rparr>)"
| "purge_act_step (ToRoutine i) s = Option.bind (next_signal i s) (\<lambda>b. routine_receives b (signal_sent i s))"
| "purge_act_step (ToHost i) s = (case next_signal i s of
     Some b \<Rightarrow> if pe_host s = Selecting then Some ((signal_sent i s)\<lparr>pe_host := Waiting b\<rparr>) else None | None \<Rightarrow> None)"
| "purge_act_step Waited s = (case pe_host s of
     Waiting b \<Rightarrow> if pe_in s + pe_out s = 0 then Some (s\<lparr>pe_host := if b then HostDone else Replying\<rparr>) else None | _ \<Rightarrow> None)"
| "purge_act_step Reply s = (if pe_host s = Replying then routine_receives False (s\<lparr>pe_host := Selecting\<rparr>) else None)"
| "purge_act_step TakeIn s = (if pe_host s = Selecting then Some (s\<lparr>pe_in := pe_in s + 1\<rparr>) else None)"
| "purge_act_step TakeOut s = (if pe_host s = Selecting then Some (s\<lparr>pe_out := pe_out s + 1\<rparr>) else None)"
| "purge_act_step (DeliverIn full) s =
     (if 0 < pe_in s \<and> pe_routine s \<noteq> RoutineDone
      then Some (s\<lparr>pe_in := pe_in s - 1, pe_unread := pe_unread s + (if full then 1 else 0)\<rparr>) else None)"
| "purge_act_step DeliverOut s = (if 0 < pe_out s \<and> pe_remote s then Some (s\<lparr>pe_out := pe_out s - 1\<rparr>) else None)"
| "purge_act_step Arrives s = (if pe_routine s \<noteq> RoutineDone then Some (s\<lparr>pe_unread := pe_unread s + 1\<rparr>) else None)"
| "purge_act_step Reads s = (if 0 < pe_unread s then Some (s\<lparr>pe_unread := pe_unread s - 1\<rparr>) else None)"
| "purge_act_step RemoteStops s = Some (s\<lparr>pe_remote := False\<rparr>)"

definition purge_step :: "purge_act \<Rightarrow> purge_end \<Rightarrow> purge_end option" where
  "purge_step a s = (if pe_crashed s then None else purge_act_step a s)"

fun purge_run :: "purge_act list \<Rightarrow> purge_end \<Rightarrow> purge_end option" where
  "purge_run [] s = Some s"
| "purge_run (a # as) s = Option.bind (purge_step a s) (purge_run as)"

text \<open>
  An end between two calls, with \<open>i\<close> messages being delivered to it, \<open>k\<close> messages being delivered
  from it, and \<open>u\<close> received messages that nobody has read.
\<close>

definition purge_idle :: "nat \<Rightarrow> nat \<Rightarrow> nat \<Rightarrow> purge_end" where
  "purge_idle i k u = \<lparr>pe_calls = [], pe_routine = OnCurrent, pe_host = Selecting, pe_in = i, pe_out = k, pe_unread = u,
     pe_remote = True, pe_closed = False, pe_crashed = False\<rparr>"

text \<open>
  \<open>NetworkMock.Purge\<close> calls \<open>Purge\<close> on each connection of each registered host, one after the other,
  holding \<open>host_mutex\<close>; \<open>order\<close> is how Go ranges over the connections of a host.
\<close>

definition purge_order :: "(nat \<Rightarrow> nat list) \<Rightarrow> ('d, 'err) mock_net \<Rightarrow> nat list" where
  "purge_order order n = concat (map order (mn_hosts n))"

section \<open>A call of \<open>Purge\<close> or \<open>Close\<close> on an open connection\<close>

lemma purge_run_append: "purge_run (as @ bs) s = Option.bind (purge_run as s) (purge_run bs)"
  by (induction as arbitrary: s) (auto split: Option.bind_split)

fun host_left :: "host_phase \<Rightarrow> nat" where
  "host_left (Waiting b) = 2"
| "host_left Replying = 1"
| "host_left _ = 0"

definition purge_left :: "purge_end \<Rightarrow> nat" where
  "purge_left s = 3 * sum_list (map length (pe_calls s)) + host_left (pe_host s) + 2 * pe_in s + pe_out s + pe_unread s"

text \<open>An action that is neither a new call nor a new message, while the other end runs.\<close>

fun finishing :: "purge_act \<Rightarrow> bool" where
  "finishing (Call bs) = False"
| "finishing TakeIn = False"
| "finishing TakeOut = False"
| "finishing Arrives = False"
| "finishing RemoteStops = False"
| "finishing _ = True"

lemma purge_stepD: "purge_step a s = Some s' \<Longrightarrow> \<not> pe_crashed s \<and> purge_act_step a s = Some s'"
  by (simp add: purge_step_def split: if_splits)

lemma routine_receives_simps:
  assumes "routine_receives b s = Some s'"
  shows "pe_calls s' = pe_calls s" and "pe_host s' = pe_host s" and "pe_in s' = pe_in s" and "pe_out s' = pe_out s"
    and "pe_unread s' = pe_unread s"
  using assms by (auto simp: routine_receives_def)

lemma signal_sent_left:
  assumes "next_signal i s = Some b"
  shows "Suc (sum_list (map length (pe_calls (signal_sent i s)))) = sum_list (map length (pe_calls s))"
proof -
  have i: "i < length (pe_calls s)" "pe_calls s ! i \<noteq> []" using assms by (auto simp: next_signal_def split: if_splits)
  have "sum_list ((map length (pe_calls s))[i := length (pe_calls s ! i) - 1]) + length (pe_calls s ! i) =
      sum_list (map length (pe_calls s)) + (length (pe_calls s ! i) - 1)"
    using sum_list_update [of i "map length (pe_calls s)" "length (pe_calls s ! i) - 1"] i
      member_le_sum_list [of "length (pe_calls s ! i)" "map length (pe_calls s)"] by simp
  then show ?thesis using i by (cases "pe_calls s ! i") (auto simp: signal_sent_def map_update)
qed

lemma finishing_left:
  assumes "purge_step a s = Some s'" and "finishing a"
  shows "purge_left s' < purge_left s" and "pe_in s' + pe_unread s' \<le> pe_in s + pe_unread s"
proof -
  have st: "purge_act_step a s = Some s'" using purge_stepD [OF assms(1)] by simp
  have "purge_left s' < purge_left s \<and> pe_in s' + pe_unread s' \<le> pe_in s + pe_unread s"
  proof (cases a)
    case (ToRoutine i)
    then obtain b where b: "next_signal i s = Some b" "routine_receives b (signal_sent i s) = Some s'"
      using st by (auto split: bind_splits)
    show ?thesis using signal_sent_left [OF b(1)] routine_receives_simps [OF b(2)]
      by (simp add: purge_left_def) (simp add: signal_sent_def)
  next
    case (ToHost i)
    then obtain b where b: "next_signal i s = Some b" "pe_host s = Selecting" "s' = (signal_sent i s)\<lparr>pe_host := Waiting b\<rparr>"
      using st by (auto split: option.splits if_splits)
    show ?thesis using signal_sent_left [OF b(1)] b(2,3) by (simp add: purge_left_def) (simp add: signal_sent_def)
  next
    case Reply
    then show ?thesis using st routine_receives_simps [of False "s\<lparr>pe_host := Selecting\<rparr>" s']
      by (auto simp: purge_left_def split: if_splits)
  qed (use st assms(2) in \<open>auto simp: purge_left_def split: host_phase.splits if_splits\<close>)
  then show "purge_left s' < purge_left s" and "pe_in s' + pe_unread s' \<le> pe_in s + pe_unread s" by blast+
qed

lemma purge_run_left:
  assumes "purge_run as s = Some s'" and "\<forall>a \<in> set as. finishing a"
  shows "length as + purge_left s' \<le> purge_left s"
  using assms
proof (induction as arbitrary: s)
  case (Cons a as)
  then obtain s1 where s1: "purge_step a s = Some s1" "purge_run as s1 = Some s'" by (auto split: bind_splits)
  have "purge_left s1 < purge_left s" using finishing_left [OF s1(1)] Cons.prems(2) by simp
  then show ?case using Cons.IH [OF s1(2)] Cons.prems(2) by simp
qed simp

lemma run_keeps:
  assumes "purge_run as s = Some s'" and "\<forall>a \<in> set as. finishing a" and "P s"
    and "\<And>a s s'. P s \<Longrightarrow> purge_step a s = Some s' \<Longrightarrow> finishing a \<Longrightarrow> P s'"
  shows "P s'"
  using assms(1-3) by (induction as arbitrary: s) (auto split: bind_splits intro: assms(4))

lemma purge_run_unread:
  assumes "purge_run as s = Some s'" and "\<forall>a \<in> set as. finishing a" and "pe_in s + pe_unread s \<le> m"
  shows "pe_in s' + pe_unread s' \<le> m"
  using run_keeps [where P = "\<lambda>s. pe_in s + pe_unread s \<le> m", OF assms] finishing_left(2) order_trans by blast

text \<open>One call of \<open>Purge\<close>: the \<open>routine\<close> has taken an odd number of signals while it is on \<open>completed_purge\<close>.\<close>

definition purging :: "purge_end \<Rightarrow> bool" where
  "purging s \<longleftrightarrow> (\<exists>k \<le> 2. pe_calls s = [replicate k False] \<and> pe_host s \<in> {Selecting, Waiting False, Replying} \<and>
     \<not> pe_closed s \<and> \<not> pe_crashed s \<and> pe_remote s \<and>
     pe_routine s = (if even k = (pe_host s = Selecting) then OnCurrent else OnCompleted))"

text \<open>One call of \<open>Close\<close>: one signal is left for each goroutine that runs.\<close>

definition closing :: "purge_end \<Rightarrow> bool" where
  "closing s \<longleftrightarrow> pe_routine s \<in> {OnCurrent, RoutineDone} \<and> pe_host s \<in> {Selecting, Waiting True, HostDone} \<and>
     pe_closed s = (pe_routine s = RoutineDone) \<and> pe_remote s \<and> (pe_crashed s \<longrightarrow> 0 < pe_unread s) \<and>
     (pe_host s = HostDone \<longrightarrow> pe_in s + pe_out s = 0) \<and>
     pe_calls s = [replicate ((if pe_routine s = OnCurrent then 1 else 0) + (if pe_host s = Selecting then 1 else 0)) True]"

lemma purging_start: "purging ((purge_idle i k u)\<lparr>pe_calls := [purge_signals]\<rparr>)"
  by (simp add: purging_def purge_idle_def purge_signals_def) (rule exI [of _ 2], simp add: numeral_2_eq_2)

lemma closing_start: "closing ((purge_idle i k u)\<lparr>pe_calls := [close_signals]\<rparr>)"
  by (simp add: closing_def purge_idle_def close_signals_def numeral_2_eq_2)

lemma next_signal_single: "pe_calls s = [replicate k b] \<Longrightarrow> next_signal i s = (if i = 0 \<and> 0 < k then Some b else None)"
  by (cases i; cases k) (auto simp: next_signal_def)

lemma signal_sent_single: "pe_calls s = [replicate k b] \<Longrightarrow> signal_sent 0 s = s\<lparr>pe_calls := [replicate (k - 1) b]\<rparr>"
  by (cases k) (simp_all add: signal_sent_def)

lemma routine_receives_False: "pe_routine s \<noteq> RoutineDone \<Longrightarrow>
  routine_receives False s = Some (s\<lparr>pe_routine := if pe_routine s = OnCurrent then OnCompleted else OnCurrent\<rparr>)"
  by (cases s; cases "pe_routine s") (simp_all add: routine_receives_def)

lemma purging_step:
  assumes "purging s" and "purge_step a s = Some s'" and "finishing a"
  shows "purging s'"
proof -
  have st: "purge_act_step a s = Some s'" using purge_stepD [OF assms(2)] by simp
  obtain k where k: "k \<le> 2" "pe_calls s = [replicate k False]" "pe_host s \<in> {Selecting, Waiting False, Replying}"
      "\<not> pe_closed s" "\<not> pe_crashed s" "pe_remote s"
      "pe_routine s = (if even k = (pe_host s = Selecting) then OnCurrent else OnCompleted)"
    using assms(1) unfolding purging_def by blast
  note sg = next_signal_single [OF k(2)] signal_sent_single [OF k(2)]
  have r: "pe_routine s \<noteq> RoutineDone" using k(7) by auto
  show ?thesis
  proof (cases a)
    case (ToRoutine i)
    then have "0 < k" and s': "s' = s\<lparr>pe_calls := [replicate (k - 1) False],
        pe_routine := if pe_routine s = OnCurrent then OnCompleted else OnCurrent\<rparr>"
      using st r by (auto simp: sg routine_receives_False split: if_splits)
    then show ?thesis using k unfolding purging_def by (intro exI [of _ "k - 1"]) auto
  next
    case (ToHost i)
    then have "0 < k" and s': "pe_host s = Selecting" "s' = s\<lparr>pe_calls := [replicate (k - 1) False], pe_host := Waiting False\<rparr>"
      using st by (auto simp: sg split: if_splits option.splits)
    then show ?thesis using k unfolding purging_def by (intro exI [of _ "k - 1"]) auto
  next
    case Reply
    then have "pe_host s = Replying" and s': "s' = s\<lparr>pe_host := Selecting,
        pe_routine := if pe_routine s = OnCurrent then OnCompleted else OnCurrent\<rparr>"
      using st r by (auto simp: routine_receives_False split: if_splits)
    then show ?thesis using k unfolding purging_def by (intro exI [of _ k]) auto
  next
    case Waited
    then show ?thesis using st k
      by (auto simp: purging_def split: if_splits host_phase.splits intro!: exI [of _ k])
  next
    case (DeliverIn full)
    then show ?thesis using st assms(1) unfolding purging_def by (fastforce split: if_splits)
  next
    case DeliverOut
    then show ?thesis using st assms(1) unfolding purging_def by (fastforce split: if_splits)
  next
    case Reads
    then show ?thesis using st assms(1) unfolding purging_def by (fastforce split: if_splits)
  qed (use assms(3) in simp_all)
qed

lemma closing_step:
  assumes s: "closing s" and "purge_step a s = Some s'" and "finishing a"
  shows "closing s'"
proof -
  have st: "purge_act_step a s = Some s'" "\<not> pe_crashed s" using purge_stepD [OF assms(2)] by simp_all
  let ?k = "(if pe_routine s = OnCurrent then 1 else 0) + (if pe_host s = Selecting then 1 else 0)"
  have c: "pe_calls s = [replicate ?k True]" using s by (simp add: closing_def)
  note sg = next_signal_single [OF c] signal_sent_single [OF c]
  show ?thesis
  proof (cases a)
    case (ToRoutine i)
    then show ?thesis using s st by (auto simp: sg routine_receives_def closing_def split: if_splits)
  next
    case (ToHost i)
    then show ?thesis using s st by (auto simp: sg closing_def split: if_splits option.splits)
  next
    case (DeliverIn full)
    then show ?thesis using s st by (auto simp: closing_def split: if_splits)
  next
    case DeliverOut
    then show ?thesis using s st by (auto simp: closing_def split: if_splits)
  next
    case Reads
    then show ?thesis using s st by (auto simp: closing_def split: if_splits)
  qed (use s st assms(3) in \<open>auto simp: closing_def routine_receives_def split: if_splits host_phase.splits\<close>)
qed

lemma purging_stuck:
  assumes s: "purging s" and stuck: "\<And>a. finishing a \<Longrightarrow> a \<noteq> Reads \<Longrightarrow> purge_step a s = None"
  shows "pe_calls s = [[]] \<and> pe_in s = 0 \<and> pe_out s = 0 \<and> pe_routine s = OnCurrent \<and> pe_host s = Selecting \<and>
    \<not> pe_closed s \<and> \<not> pe_crashed s"
proof -
  obtain k where k: "k \<le> 2" "pe_calls s = [replicate k False]" "pe_host s \<in> {Selecting, Waiting False, Replying}"
      "\<not> pe_closed s" "\<not> pe_crashed s" "pe_remote s"
      "pe_routine s = (if even k = (pe_host s = Selecting) then OnCurrent else OnCompleted)"
    using s unfolding purging_def by blast
  have stuck: "purge_act_step a s = None" if "finishing a" "a \<noteq> Reads" for a
    using stuck [OF that] k(5) by (simp add: purge_step_def)
  have "k = 0" using stuck [of "ToRoutine 0"] k(7)
    by (auto simp: next_signal_single [OF k(2)] routine_receives_def signal_sent_def split: if_splits)
  moreover have d: "pe_in s = 0" "pe_out s = 0"
    using stuck [of "DeliverIn True"] stuck [of DeliverOut] k(6,7) by (simp_all split: if_splits)
  moreover have "pe_host s = Selecting" using stuck [of Waited] stuck [of Reply] k(3,7) d
    by (auto simp: routine_receives_def split: if_splits)
  ultimately show ?thesis using k by simp
qed

text \<open>A delivery to this end that is still under way when the \<open>routine\<close> has returned never ends.\<close>

lemma closing_stuck:
  assumes s: "closing s" and ok: "\<not> pe_crashed s" and stuck: "\<And>a. finishing a \<Longrightarrow> a \<noteq> Reads \<Longrightarrow> purge_step a s = None"
  shows "pe_calls s = [[]] \<and> pe_out s = 0 \<and> pe_routine s = RoutineDone \<and> pe_closed s \<and>
    pe_host s = (if pe_in s = 0 then HostDone else Waiting True)"
proof -
  have stuck: "purge_act_step a s = None" if "finishing a" "a \<noteq> Reads" for a
    using stuck [OF that] ok by (simp add: purge_step_def)
  let ?k = "(if pe_routine s = OnCurrent then 1 else 0) + (if pe_host s = Selecting then 1 else 0)"
  have c: "pe_calls s = [replicate ?k True]" using s by (simp add: closing_def)
  have d: "pe_out s = 0" using stuck [of DeliverOut] s by (simp add: closing_def split: if_splits)
  have r: "pe_routine s = RoutineDone" using stuck [of "ToRoutine 0"] s
    by (auto simp: next_signal_single [OF c] routine_receives_def signal_sent_def closing_def)
  have h: "pe_host s \<noteq> Selecting" using stuck [of "ToHost 0"] next_signal_single [OF c, of 0] by (cases "pe_host s") (simp_all add: r)
  have "pe_host s \<noteq> Waiting True" if "pe_in s = 0" using stuck [of Waited] that d by auto
  with h have "pe_host s = (if pe_in s = 0 then HostDone else Waiting True)" using s by (auto simp: closing_def)
  moreover have "pe_calls s = [[]]" using c h r by simp
  moreover have "pe_closed s" using s r by (simp add: closing_def)
  ultimately show ?thesis using d r by blast
qed

text \<open>Such a \<open>Close\<close> leaves its \<open>connRoutine\<close> in \<open>wg.Wait()\<close> for ever.\<close>

lemma close_hangs:
  assumes "purge_run as s = Some s'" and "pe_routine s = RoutineDone" and "pe_host s = Waiting True" and "0 < pe_in s"
  shows "pe_host s' = Waiting True \<and> pe_in s' = pe_in s"
  using assms
proof (induction as arbitrary: s)
  case (Cons a as)
  then obtain s1 where s1: "purge_step a s = Some s1" "purge_run as s1 = Some s'" by (auto split: bind_splits)
  have "pe_routine s1 = RoutineDone \<and> pe_host s1 = Waiting True \<and> pe_in s1 = pe_in s"
    using purge_stepD [OF s1(1)] Cons.prems(2-4)
    by (cases a) (auto simp: routine_receives_def signal_sent_def split: bind_splits option.splits if_splits)
  then show ?case using Cons.IH [OF s1(2)] Cons.prems(4) by simp
qed simp

lemma close_hang_run: "purge_run [Call close_signals, ToRoutine 0, ToHost 0] (purge_idle i k 0) =
  Some ((purge_idle i k 0)\<lparr>pe_calls := [[]], pe_routine := RoutineDone, pe_host := Waiting True, pe_closed := True\<rparr>)"
  by (simp add: purge_idle_def close_signals_def purge_step_def next_signal_def signal_sent_def routine_receives_def)

lemma close_panic_run: "0 < u \<Longrightarrow> purge_run [Call close_signals, ToRoutine 0] (purge_idle i k u) =
  Some ((purge_idle i k u)\<lparr>pe_calls := [[True]], pe_routine := RoutineDone, pe_closed := True, pe_crashed := True\<rparr>)"
  by (simp add: purge_idle_def close_signals_def purge_step_def next_signal_def signal_sent_def routine_receives_def)

section \<open>A connection that is closed\<close>

text \<open>Nobody receives the signals of a later call.\<close>

lemma closed_blocks:
  assumes "purge_run as s = Some s'" and "pe_routine s = RoutineDone" and "pe_host s = HostDone"
  shows "pe_routine s' = RoutineDone \<and> pe_host s' = HostDone \<and> (\<forall>i < length (pe_calls s). pe_calls s' ! i = pe_calls s ! i) \<and>
    length (pe_calls s) \<le> length (pe_calls s')"
  using assms
proof (induction as arbitrary: s)
  case (Cons a as)
  then obtain s1 where s1: "purge_step a s = Some s1" "purge_run as s1 = Some s'" by (auto split: bind_splits)
  have "pe_routine s1 = RoutineDone \<and> pe_host s1 = HostDone \<and> (\<forall>i < length (pe_calls s). pe_calls s1 ! i = pe_calls s ! i) \<and>
      length (pe_calls s) \<le> length (pe_calls s1)"
    using purge_stepD [OF s1(1)] Cons.prems(2,3)
    by (cases a) (auto simp: routine_receives_def signal_sent_def nth_append split: bind_splits option.splits if_splits)
  then show ?case using Cons.IH [OF s1(2)] by fastforce
qed simp

text \<open>A \<open>Close\<close> whose signal the \<open>routine\<close> took for the end of a purge: nobody tells it again.\<close>

definition unclosed :: "purge_end \<Rightarrow> bool" where
  "unclosed s \<longleftrightarrow> (\<forall>c \<in> set (pe_calls s). c = []) \<and> pe_host s \<in> {Waiting True, HostDone} \<and>
     pe_routine s \<noteq> RoutineDone \<and> \<not> pe_closed s"

lemma unclosed_stays:
  assumes "purge_run as s = Some s'" and "unclosed s" and "\<forall>a \<in> set as. \<forall>bs. a \<noteq> Call bs"
  shows "unclosed s'"
  using assms
proof (induction as arbitrary: s)
  case (Cons a as)
  then obtain s1 where s1: "purge_step a s = Some s1" "purge_run as s1 = Some s'" by (auto split: bind_splits)
  have none: "next_signal i s = None" for i using Cons.prems(2) by (auto simp: next_signal_def unclosed_def)
  have "unclosed s1" using purge_stepD [OF s1(1)] Cons.prems(2,3)
    by (cases a) (auto simp: none unclosed_def split: host_phase.splits if_splits)
  then show ?case using Cons.IH [OF s1(2)] Cons.prems(3) by simp
qed simp

end
