(* ===== verification/Tcp_Conn.thy ===== *)
theory Tcp_Conn
  imports Network_Standard
begin

text \<open>
  A connection over TCP, \<open>core/network_standard.go\<close>: what \<open>makeTcpConn\<close> builds on either end (the channels of
  \<open>tcpConn\<close> and the local variables of its five routines), the two ends joined by two byte streams,
  and every order of their steps. A stream keeps the order of its bytes; how it is cut into reads
  is free.
\<close>

section \<open>What an end receives\<close>

text \<open>
  \<open>data\<close> and \<open>bundle\<close> of \<open>tcpConn\<close>: \<open>from_net\<close>, the queue of the routine that buffers, \<open>to_pnf\<close>, and
  what the application has taken. Both channels hold 100 values; a list of more than 100 on \<open>from_net\<close>
  is a full channel with \<open>readRoutine\<close> blocked on the last value.
\<close>

record 'm inbox =
  ib_in :: "'m list"
  ib_queue :: "'m list"
  ib_out :: "'m list"
  ib_got :: "'m list"

definition new_inbox :: "'m inbox" where
  "new_inbox = \<lparr>ib_in = [], ib_queue = [], ib_out = [], ib_got = []\<rparr>"

definition blocked :: "'m inbox \<Rightarrow> bool" where
  "blocked ib \<longleftrightarrow> 100 < length (ib_in ib)"

text \<open>The two cases of \<open>recvDataRoutine\<close> and of \<open>recvBundleRoutine\<close>, and a receive by the application.\<close>

datatype recv_act = RecvTake | RecvGive | RecvCall

fun recv_step :: "recv_act \<Rightarrow> 'm inbox \<Rightarrow> 'm inbox option" where
  "recv_step RecvTake ib = (case ib_in ib of [] \<Rightarrow> None
     | m # ms \<Rightarrow> Some (ib\<lparr>ib_in := ms, ib_queue := ib_queue ib @ [m]\<rparr>))"
| "recv_step RecvGive ib = (case ib_queue ib of [] \<Rightarrow> None
     | m # ms \<Rightarrow> if length (ib_out ib) < 100 then Some (ib\<lparr>ib_queue := ms, ib_out := ib_out ib @ [m]\<rparr>) else None)"
| "recv_step RecvCall ib = (case ib_out ib of [] \<Rightarrow> None
     | m # ms \<Rightarrow> Some (ib\<lparr>ib_out := ms, ib_got := ib_got ib @ [m]\<rparr>))"

text \<open>Everything that has come in, in order.\<close>

definition arrived :: "'m inbox \<Rightarrow> 'm list" where
  "arrived ib = ib_got ib @ ib_out ib @ ib_queue ib @ ib_in ib"

lemma recv_step_arrived: "recv_step a ib = Some ib' \<Longrightarrow> arrived ib' = arrived ib"
  by (cases a) (auto simp: arrived_def split: list.splits if_splits)

section \<open>An end of a connection\<close>

record 'e tcp_conn =
  tc_queue :: "'e tcp_payload list"              \<comment> \<open>\<open>queue\<close> of \<open>sendRoutine\<close>\<close>
  tc_writing :: "'e tcp_payload option"          \<comment> \<open>\<open>payload\<close> of \<open>writeRoutine\<close>\<close>
  tc_written :: "'e tcp_payload list"            \<comment> \<open>what its encoder has encoded and written\<close>
  tc_writer :: bool                              \<comment> \<open>\<open>writeRoutine\<close> has not returned\<close>
  tc_reader :: "'e reader"                       \<comment> \<open>\<open>readRoutine\<close>\<close>
  tc_data :: "nat list inbox"
  tc_bundle :: "'e frame_bundle inbox"

definition make_tcp_conn :: "'e tcp_conn" where
  "make_tcp_conn = \<lparr>tc_queue = [], tc_writing = None, tc_written = [], tc_writer = True, tc_reader = new_reader,
     tc_data = new_inbox, tc_bundle = new_inbox\<rparr>"

text \<open>
  A call of \<open>SendData\<close> or \<open>SendFrameBundle\<close> (\<open>sendRoutine\<close> is always ready for it), \<open>sendRoutine\<close> handing
  a payload to \<open>writeRoutine\<close>, a \<open>Write\<close> that succeeds, one that fails after some bytes, a \<open>Read\<close> of
  some bytes, a \<open>Read\<close> that fails, and the steps of the two inboxes. \<open>terminate\<close> is empty, so \<open>kill\<close> never fires.
\<close>

datatype 'e conn_act = SendCall "'e tcp_payload" | SendNext | WriteAll | WriteFails nat | ReadSome nat | ReadFails
  | OnData recv_act | OnBundle recv_act

definition read_max :: int where
  "read_max = 4096 * 256"

text \<open>\<open>writeRoutine\<close>: what one payload adds to the stream.\<close>

definition conn_write :: "'e encoder \<Rightarrow> nat option \<Rightarrow> 'e tcp_conn \<Rightarrow> ('e tcp_conn \<times> nat list) option" where
  "conn_write enc err c =
     (case tc_writing c of None \<Rightarrow> None
      | Some p \<Rightarrow>
          (case enc (tc_written c) p of
             None \<Rightarrow> Some (c\<lparr>tc_writing := None, tc_writer := False\<rparr>, [])
           | Some bs \<Rightarrow>
               (case err of
                  None \<Rightarrow> Some (c\<lparr>tc_writing := None, tc_written := tc_written c @ [p]\<rparr>, bs)
                | Some k \<Rightarrow> if k < length bs then Some (c\<lparr>tc_writing := None, tc_writer := False\<rparr>, take k bs) else None)))"

text \<open>\<open>readRoutine\<close>: one \<open>Read\<close>, the decoding, and the send on one of the two channels.\<close>

definition conn_read :: "'e decoder \<Rightarrow> nat list \<Rightarrow> 'e tcp_conn \<Rightarrow> 'e tcp_conn" where
  "conn_read dec chunk c = (let r = tc_reader c; r' = read_step dec chunk r in
     c\<lparr>tc_reader := r',
       tc_data := (tc_data c)\<lparr>ib_in := ib_in (tc_data c) @ drop (length (rd_data r)) (rd_data r')\<rparr>,
       tc_bundle := (tc_bundle c)\<lparr>ib_in := ib_in (tc_bundle c) @ drop (length (rd_bundles r)) (rd_bundles r')\<rparr>\<rparr>)"

definition can_read :: "'e tcp_conn \<Rightarrow> bool" where
  "can_read c \<longleftrightarrow> rd_alive (tc_reader c) \<and> \<not> blocked (tc_data c) \<and> \<not> blocked (tc_bundle c)"

text \<open>One step of an end: what it has written and what is on its way to it are the two lists of bytes.\<close>

fun conn_step :: "'e encoder \<Rightarrow> 'e decoder \<Rightarrow> 'e conn_act \<Rightarrow> 'e tcp_conn \<times> nat list \<times> nat list \<Rightarrow>
  (go_panic + 'e tcp_conn \<times> nat list \<times> nat list) option" where
  "conn_step enc dec (SendCall p) (c, w, r) = Some (Inr (c\<lparr>tc_queue := tc_queue c @ [p]\<rparr>, w, r))"
| "conn_step enc dec SendNext (c, w, r) =
     (case tc_queue c of [] \<Rightarrow> None
      | p # ps \<Rightarrow> if tc_writer c \<and> tc_writing c = None then Some (Inr (c\<lparr>tc_queue := ps, tc_writing := Some p\<rparr>, w, r)) else None)"
| "conn_step enc dec WriteAll (c, w, r) = map_option (\<lambda>(c', bs). Inr (c', w @ bs, r)) (conn_write enc None c)"
| "conn_step enc dec (WriteFails k) (c, w, r) = map_option (\<lambda>(c', bs). Inr (c', w @ bs, r)) (conn_write enc (Some k) c)"
| "conn_step enc dec (ReadSome n) (c, w, r) =
     (if can_read c \<and> 0 < n \<and> n \<le> length r \<and> int n \<le> read_max then Some (Inr (conn_read dec (take n r) c, w, drop n r)) else None)"
| "conn_step enc dec ReadFails (c, w, r) = (if can_read c then Some (Inl UserPanic) else None)"
| "conn_step enc dec (OnData a) (c, w, r) = map_option (\<lambda>ib. Inr (c\<lparr>tc_data := ib\<rparr>, w, r)) (recv_step a (tc_data c))"
| "conn_step enc dec (OnBundle a) (c, w, r) = map_option (\<lambda>ib. Inr (c\<lparr>tc_bundle := ib\<rparr>, w, r)) (recv_step a (tc_bundle c))"

section \<open>Two ends\<close>

text \<open>The end that dialled is the one at \<open>True\<close>; each stream is named by the end that writes to it.\<close>

record 'e link =
  lk_conn :: "bool \<Rightarrow> 'e tcp_conn"
  lk_wire :: "bool \<Rightarrow> nat list"

definition new_link :: "'e link" where
  "new_link = \<lparr>lk_conn = (\<lambda>_. make_tcp_conn), lk_wire = (\<lambda>_. [])\<rparr>"

definition link_step :: "'e encoder \<Rightarrow> 'e decoder \<Rightarrow> bool \<Rightarrow> 'e conn_act \<Rightarrow> 'e link \<Rightarrow> (go_panic + 'e link) option" where
  "link_step enc dec x a l =
     map_option (\<lambda>s. seq s (\<lambda>(c, w, r). Inr \<lparr>lk_conn = (lk_conn l)(x := c), lk_wire = (lk_wire l)(x := w, \<not> x := r)\<rparr>))
       (conn_step enc dec a (lk_conn l x, lk_wire l x, lk_wire l (\<not> x)))"

fun link_run :: "'e encoder \<Rightarrow> 'e decoder \<Rightarrow> (bool \<times> 'e conn_act) list \<Rightarrow> 'e link \<Rightarrow> 'e link option" where
  "link_run enc dec [] l = Some l"
| "link_run enc dec ((x, a) # as) l =
     (case link_step enc dec x a l of Some (Inr l') \<Rightarrow> link_run enc dec as l' | _ \<Rightarrow> None)"

text \<open>What one end was told to send.\<close>

fun calls :: "bool \<Rightarrow> (bool \<times> 'e conn_act) list \<Rightarrow> 'e tcp_payload list" where
  "calls x [] = []"
| "calls x ((y, SendCall p) # as) = (if x = y then p # calls x as else calls x as)"
| "calls x (_ # as) = calls x as"

lemma calls_append: "calls x (as @ bs) = calls x as @ calls x bs"
  by (induction x as rule: calls.induct) auto

section \<open>What the streams carry\<close>

text \<open>The bytes of some payloads, after those in \<open>h\<close>.\<close>

fun stream :: "'e encoder \<Rightarrow> 'e tcp_payload list \<Rightarrow> 'e tcp_payload list \<Rightarrow> nat list option" where
  "stream enc h [] = Some []"
| "stream enc h (p # ps) =
     (case enc h p of None \<Rightarrow> None | Some bs \<Rightarrow> map_option ((@) bs) (stream enc (h @ [p]) ps))"

lemma stream_snoc: "stream enc h ps = Some s \<Longrightarrow> enc (h @ ps) p = Some bs \<Longrightarrow> stream enc h (ps @ [p]) = Some (s @ bs)"
proof (induction ps arbitrary: h s)
  case (Cons q ps)
  then show ?case by (auto split: option.splits)
qed simp

text \<open>The beginning of a payload whose \<open>Write\<close> failed.\<close>

definition cut_off :: "'e encoder \<Rightarrow> 'e tcp_conn \<Rightarrow> nat list \<Rightarrow> bool" where
  "cut_off enc c part \<longleftrightarrow> part = [] \<or>
     \<not> tc_writer c \<and> (\<exists>p bs. enc (tc_written c) p = Some bs \<and> length part < length bs \<and> part = take (length part) bs)"

text \<open>One direction: the writer \<open>c\<close>, the bytes on their way, the reader \<open>d\<close>.\<close>

definition sending :: "'e tcp_payload list \<Rightarrow> 'e tcp_conn \<Rightarrow> bool" where
  "sending sent c \<longleftrightarrow> (tc_writing c \<noteq> None \<longrightarrow> tc_writer c) \<and>
     (\<exists>lost. sent = tc_written c @ lost @ tc_queue c \<and>
        (tc_writer c \<longrightarrow> lost = (case tc_writing c of None \<Rightarrow> [] | Some p \<Rightarrow> [p])))"

definition flowing :: "'e encoder \<Rightarrow> 'e tcp_conn \<Rightarrow> nat list \<Rightarrow> 'e tcp_conn \<Rightarrow> bool" where
  "flowing enc c w d \<longleftrightarrow> (let r = tc_reader d in
     \<exists>ps. tc_written c = rd_hist r @ ps \<and>
       (rd_alive r \<longrightarrow> (\<exists>s part. stream enc (rd_hist r) ps = Some s \<and> rd_buf r @ w = s @ part \<and> cut_off enc c part)))"

definition received :: "'e tcp_conn \<Rightarrow> bool" where
  "received d \<longleftrightarrow> arrived (tc_data d) = datas (rd_hist (tc_reader d)) \<and> rd_data (tc_reader d) = arrived (tc_data d) \<and>
     arrived (tc_bundle d) = bundles (rd_hist (tc_reader d)) \<and> rd_bundles (tc_reader d) = arrived (tc_bundle d)"

text \<open>What one read does to the stream.\<close>

lemma prefix_cases:
  assumes "buf @ rest = bs @ tail"
  shows "(\<exists>k < length bs. buf = take k bs) \<or> (\<exists>t. buf = bs @ t \<and> t @ rest = tail)"
proof -
  obtain us where "buf = bs @ us \<and> us @ rest = tail \<or> buf @ us = bs \<and> rest = us @ tail"
    using assms by (auto simp: append_eq_append_conv2)
  then consider t where "buf = bs @ t" "t @ rest = tail" | "buf @ us = bs" "us \<noteq> []" by (cases us) auto
  then show ?thesis
  proof cases
    case 2
    then have "length buf < length bs" "buf = take (length buf) bs" by auto
    then show ?thesis by blast
  qed blast
qed

text \<open>One \<open>Read\<close>: either the next payload is there whole and is decoded, or the reader gives up.\<close>

lemma read_next:
  assumes d: "delimits enc dec" and f: "flowing enc c (chunk @ w) e" and "rd_alive (tc_reader e)" and n: "chunk \<noteq> []"
  defines "r \<equiv> tc_reader e"
  shows "\<not> rd_alive (read_step dec chunk r) \<and> rd_hist (read_step dec chunk r) = rd_hist r \<and>
      rd_data (read_step dec chunk r) = rd_data r \<and> rd_bundles (read_step dec chunk r) = rd_bundles r \<or>
    (\<exists>p rest ps s part. read_step dec chunk r = dispatch p (r\<lparr>rd_buf := rest, rd_hist := rd_hist r @ [p]\<rparr>) \<and>
      tc_written c = rd_hist r @ p # ps \<and> stream enc (rd_hist r @ [p]) ps = Some s \<and> rest @ w = s @ part \<and> cut_off enc c part)"
proof -
  obtain ps s part where ps: "tc_written c = rd_hist r @ ps" "stream enc (rd_hist r) ps = Some s"
      "(rd_buf r @ chunk) @ w = s @ part" "cut_off enc c part"
    using f assms(3) by (auto simp: flowing_def Let_def r_def)
  have dead: ?thesis if "dec (rd_hist r) (rd_buf r @ chunk) = None"
    using that assms(3) by (simp add: read_step_def r_def)
  show ?thesis
  proof (cases ps)
    case Nil
    then have p: "part = (rd_buf r @ chunk) @ w" "s = []" using ps by auto
    with n ps(4) obtain q bs where q: "enc (rd_hist r) q = Some bs" "length part < length bs" "part = take (length part) bs"
      using ps(1) Nil by (auto simp: cut_off_def)
    have "rd_buf r @ chunk = take (length (rd_buf r @ chunk)) part" unfolding p(1) by simp
    also have "\<dots> = take (length (rd_buf r @ chunk)) bs" by (subst q(3)) (simp add: p(1))
    finally have "rd_buf r @ chunk = take (length (rd_buf r @ chunk)) bs" .
    moreover have "length (rd_buf r @ chunk) < length bs" using q(2) unfolding p(1) by simp
    ultimately have "dec (rd_hist r) (rd_buf r @ chunk) = None" using delimitsD(3) [OF d q(1)] by metis
    then show ?thesis by (rule dead)
  next
    case (Cons p qs)
    then obtain bs s' where s: "enc (rd_hist r) p = Some bs" "stream enc (rd_hist r @ [p]) qs = Some s'" "s = bs @ s'"
      using ps(2) by (auto split: option.splits)
    from prefix_cases [of "rd_buf r @ chunk" w bs "s' @ part"] ps(3) s(3)
    consider k where "k < length bs" "rd_buf r @ chunk = take k bs" | t where "rd_buf r @ chunk = bs @ t" "t @ w = s' @ part"
      by auto
    then show ?thesis
    proof cases
      case 1
      then show ?thesis using delimitsD(3) [OF d s(1)] dead by metis
    next
      case 2
      then have "read_step dec chunk r = dispatch p (r\<lparr>rd_buf := t, rd_hist := rd_hist r @ [p]\<rparr>)"
        using delimitsD(1) [OF d s(1), of t] assms(3) by (simp add: read_step_def r_def)
      then show ?thesis using 2 s(2) ps(1,4) Cons by blast
    qed
  qed
qed

section \<open>Every step keeps the order\<close>

text \<open>A step of the writer's end adds to the stream what it writes.\<close>

lemma dispatch_logs:
  "rd_data (dispatch p r) = rd_data r @ datas [p]" "rd_bundles (dispatch p r) = rd_bundles r @ bundles [p]"
  by (auto simp: dispatch_def datas_def bundles_def split: option.splits)

lemma flow_write:
  assumes "conn_write enc err c = Some (c', bs)" and "sending sent c" and "flowing enc c w d"
  shows "sending sent c' \<and> flowing enc c' (w @ bs) d \<and> tc_reader c' = tc_reader c \<and> tc_data c' = tc_data c \<and> tc_bundle c' = tc_bundle c"
proof -
  obtain p where p: "tc_writing c = Some p" using assms(1) by (auto simp: conn_write_def split: option.splits)
  then have up: "tc_writer c" and sent: "sent = tc_written c @ [p] @ tc_queue c" using assms(2) by (auto simp: sending_def)
  obtain ps where ps: "tc_written c = rd_hist (tc_reader d) @ ps"
      "rd_alive (tc_reader d) \<longrightarrow> stream enc (rd_hist (tc_reader d)) ps = Some (rd_buf (tc_reader d) @ w)"
    using assms(3) up by (auto simp: flowing_def Let_def cut_off_def)
  show ?thesis
  proof (cases "enc (tc_written c) p")
    case None
    then have "c' = c\<lparr>tc_writing := None, tc_writer := False\<rparr>" "bs = []" using assms(1) p by (auto simp: conn_write_def)
    then show ?thesis using ps sent by (auto simp: flowing_def sending_def cut_off_def Let_def)
  next
    case (Some es)
    show ?thesis
    proof (cases err)
      case None
      then have "c' = c\<lparr>tc_writing := None, tc_written := tc_written c @ [p]\<rparr>" "bs = es"
        using assms(1) p Some by (auto simp: conn_write_def)
      then show ?thesis using ps sent up Some stream_snoc [of enc "rd_hist (tc_reader d)" ps _ p es]
        by (auto simp: flowing_def sending_def cut_off_def Let_def)
    next
      case k: (Some k)
      then have c': "c' = c\<lparr>tc_writing := None, tc_writer := False\<rparr>" "bs = take k es" "k < length es"
        using assms(1) p Some by (auto simp: conn_write_def split: if_splits)
      then have "cut_off enc c' bs" using Some unfolding cut_off_def by auto
      then show ?thesis using ps sent c' by (auto simp: flowing_def sending_def Let_def)
    qed
  qed
qed

lemma flow_read:
  assumes d: "delimits enc dec" and f: "flowing enc c (chunk @ w) e" and r: "received e" and a: "rd_alive (tc_reader e)" and n: "chunk \<noteq> []"
  shows "flowing enc c w (conn_read dec chunk e) \<and> received (conn_read dec chunk e)"
  using read_next [OF d f a n]
proof (elim disjE exE conjE)
  let ?r = "tc_reader e"
  assume "\<not> rd_alive (read_step dec chunk ?r)" "rd_hist (read_step dec chunk ?r) = rd_hist ?r"
    "rd_data (read_step dec chunk ?r) = rd_data ?r" "rd_bundles (read_step dec chunk ?r) = rd_bundles ?r"
  then show ?thesis using f r by (auto simp: flowing_def received_def conn_read_def Let_def arrived_def)
next
  let ?r = "tc_reader e"
  fix p rest ps s part
  assume st: "read_step dec chunk ?r = dispatch p (?r\<lparr>rd_buf := rest, rd_hist := rd_hist ?r @ [p]\<rparr>)"
    and "tc_written c = rd_hist ?r @ p # ps" "stream enc (rd_hist ?r @ [p]) ps = Some s" "rest @ w = s @ part" "cut_off enc c part"
  then have "flowing enc c w (conn_read dec chunk e)" by (auto simp: flowing_def conn_read_def Let_def)
  moreover have "received (conn_read dec chunk e)"
    using r by (simp add: received_def conn_read_def Let_def st dispatch_logs arrived_def datas_append [of _ "[p]", simplified])
  ultimately show ?thesis by blast
qed

text \<open>Steps at the writer's end and at the reader's end.\<close>

lemma flow_other:
  assumes "tc_written c' = tc_written c" and "tc_writer c' = tc_writer c" and "tc_reader d' = tc_reader d"
  shows "flowing enc c' w d' = flowing enc c w d"
  using assms by (simp add: flowing_def cut_off_def)

lemma sending_other:
  assumes "tc_writing c' = tc_writing c" and "tc_written c' = tc_written c" and "tc_writer c' = tc_writer c" and "tc_queue c' = tc_queue c"
  shows "sending sent c' = sending sent c"
  using assms by (simp add: sending_def)

lemma conn_read_other [simp]:
  "tc_writing (conn_read dec chunk c) = tc_writing c" "tc_written (conn_read dec chunk c) = tc_written c"
  "tc_writer (conn_read dec chunk c) = tc_writer c" "tc_queue (conn_read dec chunk c) = tc_queue c"
  "tc_reader (conn_read dec chunk c) = read_step dec chunk (tc_reader c)"
  by (simp_all add: conn_read_def Let_def)

lemma flow_out:
  assumes "conn_step enc dec a (c, w, r) = Some (Inr (c', w', r'))" and "sending sent c" and "flowing enc c w d"
  shows "sending (sent @ calls x [(x, a)]) c' \<and> flowing enc c' w' d"
proof (cases a)
  case (SendCall p)
  then show ?thesis using assms flow_other [of c' c d d] by (auto simp: sending_def)
next
  case SendNext
  then have "sending sent c' \<and> tc_written c' = tc_written c \<and> tc_writer c' = tc_writer c \<and> w' = w"
    using assms(1,2) by (auto simp: sending_def split: list.splits if_splits)
  then show ?thesis using assms(3) SendNext flow_other [of c' c d d] by simp
next
  case WriteAll
  then show ?thesis using assms flow_write [of enc None c] by auto
next
  case (WriteFails k)
  then show ?thesis using assms flow_write [of enc "Some k" c] by auto
next
  case (ReadSome n)
  then have "c' = conn_read dec (take n r) c" "w' = w" using assms(1) by (auto split: if_splits)
  then show ?thesis using ReadSome assms sending_other [of c' c] flow_other [of c' c d d] by simp
next
  case ReadFails
  then show ?thesis using assms(1) by (simp split: if_splits)
next
  case (OnData x)
  then show ?thesis using assms flow_other [of c' c d d] by (auto simp: sending_def)
next
  case (OnBundle x)
  then show ?thesis using assms flow_other [of c' c d d] by (auto simp: sending_def)
qed

lemma flow_in:
  assumes d: "delimits enc dec" and "conn_step enc dec a (e, w0, w) = Some (Inr (e', w0', w'))" and "flowing enc c w e" and "received e"
  shows "flowing enc c w' e' \<and> received e'"
proof (cases a)
  case (ReadSome n)
  then have e': "e' = conn_read dec (take n w) e" "w' = drop n w" "rd_alive (tc_reader e)" "take n w \<noteq> []"
    using assms(2) by (auto simp: can_read_def split: if_splits)
  then show ?thesis using flow_read [OF d, of c "take n w" "drop n w" e] assms(3,4) by simp
next
  case (SendCall p)
  then show ?thesis using assms(2-4) by (auto simp: flowing_def received_def)
next
  case SendNext
  then show ?thesis using assms(2-4) by (auto simp: flowing_def received_def split: list.splits if_splits)
next
  case WriteAll
  then show ?thesis using assms(2-4) by (auto simp: flowing_def received_def conn_write_def split: option.splits)
next
  case (WriteFails k)
  then show ?thesis using assms(2-4) by (auto simp: flowing_def received_def conn_write_def split: option.splits if_splits)
next
  case ReadFails
  then show ?thesis using assms(2) by (simp split: if_splits)
next
  case (OnData x)
  then show ?thesis using assms(2-4) by (auto simp: flowing_def received_def recv_step_arrived)
next
  case (OnBundle x)
  then show ?thesis using assms(2-4) by (auto simp: flowing_def received_def recv_step_arrived)
qed

section \<open>Runs\<close>

definition link_ok :: "'e encoder \<Rightarrow> (bool \<times> 'e conn_act) list \<Rightarrow> 'e link \<Rightarrow> bool" where
  "link_ok enc as l \<longleftrightarrow> (\<forall>x. sending (calls x as) (lk_conn l x) \<and>
     flowing enc (lk_conn l x) (lk_wire l x) (lk_conn l (\<not> x)) \<and> received (lk_conn l x))"

lemma new_link_ok: "link_ok enc [] new_link"
  by (simp add: link_ok_def new_link_def make_tcp_conn_def sending_def flowing_def received_def arrived_def new_inbox_def
      cut_off_def datas_def bundles_def)

lemma link_step_eq: "link_step enc dec x a l = Some (Inr l') \<longleftrightarrow>
  (\<exists>c w r. conn_step enc dec a (lk_conn l x, lk_wire l x, lk_wire l (\<not> x)) = Some (Inr (c, w, r)) \<and>
     l' = \<lparr>lk_conn = (lk_conn l)(x := c), lk_wire = (lk_wire l)(x := w, \<not> x := r)\<rparr>)"
  by (auto simp: link_step_def seq_Inr_iff)

lemma calls_other: "x \<noteq> y \<Longrightarrow> calls x [(y, a)] = []"
  by (cases a) simp_all

lemma link_step_ok:
  assumes d: "delimits enc dec" and ok: "link_ok enc as l" and st: "link_step enc dec x a l = Some (Inr l')"
  shows "link_ok enc (as @ [(x, a)]) l'"
proof -
  obtain c w r where c: "conn_step enc dec a (lk_conn l x, lk_wire l x, lk_wire l (\<not> x)) = Some (Inr (c, w, r))"
      "l' = \<lparr>lk_conn = (lk_conn l)(x := c), lk_wire = (lk_wire l)(x := w, \<not> x := r)\<rparr>"
    using st by (auto simp: link_step_eq)
  have o: "sending (calls x as) (lk_conn l x)" "flowing enc (lk_conn l x) (lk_wire l x) (lk_conn l (\<not> x))" "received (lk_conn l x)"
    "sending (calls (\<not> x) as) (lk_conn l (\<not> x))" "flowing enc (lk_conn l (\<not> x)) (lk_wire l (\<not> x)) (lk_conn l x)" "received (lk_conn l (\<not> x))"
    using ok unfolding link_ok_def by (auto dest: spec [of _ x] spec [of _ "\<not> x"])
  note f1 = flow_out [OF c(1) o(1,2), of x] and f2 = flow_in [OF d c(1) o(5,3)]
  have "sending (calls y (as @ [(x, a)])) (lk_conn l' y) \<and>
     flowing enc (lk_conn l' y) (lk_wire l' y) (lk_conn l' (\<not> y)) \<and> received (lk_conn l' y)" for y
  proof (cases "y = x")
    case True
    then show ?thesis using f1 f2 by (simp add: c(2) calls_append)
  next
    case False
    then have "y = (\<not> x)" by auto
    then show ?thesis using f2 o(4,6) calls_other [of "\<not> x" x a] by (simp add: c(2) calls_append)
  qed
  then show ?thesis by (simp add: link_ok_def)
qed

lemma link_run_ok:
  assumes d: "delimits enc dec"
  shows "link_ok enc bs l \<Longrightarrow> link_run enc dec as l = Some l' \<Longrightarrow> link_ok enc (bs @ as) l'"
proof (induction as arbitrary: bs l)
  case (Cons a as)
  obtain x b where a: "a = (x, b)" by (cases a)
  obtain l1 where l1: "link_step enc dec x b l = Some (Inr l1)" "link_run enc dec as l1 = Some l'"
    using Cons.prems(2) by (auto simp: a split: option.splits sum.splits)
  show ?case using Cons.IH [OF link_step_ok [OF d Cons.prems(1) l1(1)] l1(2)] by (simp add: a)
qed simp

text \<open>Whatever the schedule and the cuts: an end has received the beginning of what the other was told to send.\<close>

lemma link_in_order:
  assumes "delimits enc dec" and "link_run enc dec as new_link = Some l"
  shows "\<exists>seen left. calls x as = seen @ left \<and> arrived (tc_data (lk_conn l (\<not> x))) = datas seen \<and>
    arrived (tc_bundle (lk_conn l (\<not> x))) = bundles seen"
proof -
  have "link_ok enc as l" using link_run_ok [OF assms(1) new_link_ok assms(2)] by simp
  then have ok: "sending (calls x as) (lk_conn l x)" "flowing enc (lk_conn l x) (lk_wire l x) (lk_conn l (\<not> x))"
      "received (lk_conn l (\<not> x))"
    unfolding link_ok_def by blast+
  let ?seen = "rd_hist (tc_reader (lk_conn l (\<not> x)))"
  obtain left where "calls x as = ?seen @ left" using ok(1,2) by (auto simp: sending_def flowing_def Let_def)
  moreover have "arrived (tc_data (lk_conn l (\<not> x))) = datas ?seen" "arrived (tc_bundle (lk_conn l (\<not> x))) = bundles ?seen"
    using ok(3) unfolding received_def by blast+
  ultimately show ?thesis by blast
qed

section \<open>Coming to rest\<close>

text \<open>The steps that need nobody outside the connection.\<close>

fun internal :: "'e conn_act \<Rightarrow> bool" where
  "internal (SendCall p) = False"
| "internal ReadFails = False"
| "internal (OnData RecvCall) = False"
| "internal (OnBundle RecvCall) = False"
| "internal _ = True"

definition both :: "('e link \<Rightarrow> bool \<Rightarrow> nat) \<Rightarrow> 'e link \<Rightarrow> nat" where
  "both f l = f l True + f l False"

definition link_work :: "('e link \<times> 'e link) set" where
  "link_work = measures [both (\<lambda>l x. length (tc_queue (lk_conn l x))), both (\<lambda>l x. if tc_writing (lk_conn l x) = None then 0 else 1),
     both (\<lambda>l x. length (lk_wire l x)),
     both (\<lambda>l x. length (ib_in (tc_data (lk_conn l x))) + length (ib_in (tc_bundle (lk_conn l x)))),
     both (\<lambda>l x. length (ib_queue (tc_data (lk_conn l x))) + length (ib_queue (tc_bundle (lk_conn l x))))]"

lemma both_at: "both f l = f l x + f l (\<not> x)"
  by (cases x) (simp_all add: both_def)

lemma recv_step_work:
  assumes "recv_step a ib = Some ib'" and "a \<noteq> RecvCall"
  shows "length (ib_in ib') < length (ib_in ib) \<or> length (ib_in ib') = length (ib_in ib) \<and> length (ib_queue ib') < length (ib_queue ib)"
  using assms by (cases a) (auto split: list.splits if_splits)

lemma link_step_work:
  assumes "internal a" and st: "link_step enc dec x a l = Some (Inr l')"
  shows "(l', l) \<in> link_work"
proof -
  obtain c w r where c: "conn_step enc dec a (lk_conn l x, lk_wire l x, lk_wire l (\<not> x)) = Some (Inr (c, w, r))"
      "l' = \<lparr>lk_conn = (lk_conn l)(x := c), lk_wire = (lk_wire l)(x := w, \<not> x := r)\<rparr>"
    using st by (auto simp: link_step_eq)
  note at = both_at [where x = x]
  show ?thesis
  proof (cases a)
    case (OnData b)
    then obtain ib where "recv_step b (tc_data (lk_conn l x)) = Some ib" "c = (lk_conn l x)\<lparr>tc_data := ib\<rparr>" "w = lk_wire l x" "r = lk_wire l (\<not> x)"
      "b \<noteq> RecvCall" using c(1) assms(1) by (cases b) auto
    then show ?thesis using recv_step_work [of b "tc_data (lk_conn l x)" ib] by (auto simp: link_work_def at c(2))
  next
    case (OnBundle b)
    then obtain ib where "recv_step b (tc_bundle (lk_conn l x)) = Some ib" "c = (lk_conn l x)\<lparr>tc_bundle := ib\<rparr>" "w = lk_wire l x" "r = lk_wire l (\<not> x)"
      "b \<noteq> RecvCall" using c(1) assms(1) by (cases b) auto
    then show ?thesis using recv_step_work [of b "tc_bundle (lk_conn l x)" ib] by (auto simp: link_work_def at c(2))
  qed (use c assms(1) in \<open>auto simp: link_work_def at conn_write_def split: list.splits if_splits option.splits\<close>)
qed

lemma link_stops: "wf {(l', l). \<exists>x a. internal a \<and> link_step enc dec x a l = Some (Inr l')}"
  by (rule wf_subset [of link_work]) (auto simp: link_step_work, simp add: link_work_def)

lemma stream_empty: "stream enc h ps = Some [] \<Longrightarrow> \<forall>h p. enc h p \<noteq> Some [] \<Longrightarrow> ps = []"
  by (cases ps) (auto split: option.splits)

definition resting :: "'e encoder \<Rightarrow> 'e decoder \<Rightarrow> 'e link \<Rightarrow> bool" where
  "resting enc dec l \<longleftrightarrow> (\<forall>x a. internal a \<longrightarrow> link_step enc dec x a l = None)"

lemma resting_step: "resting enc dec l \<Longrightarrow> internal a \<Longrightarrow> conn_step enc dec a (lk_conn l x, lk_wire l x, lk_wire l (\<not> x)) = None"
  unfolding resting_def link_step_def by auto

lemma resting_inbox:
  assumes "recv_step RecvTake ib = None" and "recv_step RecvGive ib = None"
  shows "ib_in ib = [] \<and> (ib_queue ib = [] \<or> 100 \<le> length (ib_out ib))"
  using assms by (auto split: list.splits if_splits)

lemma link_rests:
  assumes d: "delimits enc dec" and run: "link_run enc dec as new_link = Some l" and rest: "resting enc dec l"
    and up: "tc_writer (lk_conn l x)" "rd_alive (tc_reader (lk_conn l (\<not> x)))"
  defines "e \<equiv> lk_conn l (\<not> x)"
  shows "\<exists>left. calls x as = rd_hist (tc_reader e) @ left \<and> stream enc (rd_hist (tc_reader e)) left = Some (rd_buf (tc_reader e)) \<and>
    arrived (tc_data e) = datas (rd_hist (tc_reader e)) \<and> arrived (tc_bundle e) = bundles (rd_hist (tc_reader e)) \<and>
    ib_in (tc_data e) = [] \<and> (ib_queue (tc_data e) = [] \<or> 100 \<le> length (ib_out (tc_data e))) \<and>
    ib_in (tc_bundle e) = [] \<and> (ib_queue (tc_bundle e) = [] \<or> 100 \<le> length (ib_out (tc_bundle e)))"
proof -
  let ?c = "lk_conn l x"
  have "link_ok enc as l" using link_run_ok [OF d new_link_ok run] by simp
  then have ok: "sending (calls x as) ?c" "flowing enc ?c (lk_wire l x) e" "received e"
    unfolding link_ok_def e_def by blast+
  have none: "recv_step a (tc_data e) = None" "recv_step a (tc_bundle e) = None" if "a \<noteq> RecvCall" for a
    using resting_step [OF rest, of "OnData a" "\<not> x"] resting_step [OF rest, of "OnBundle a" "\<not> x"] that
    by (cases a; simp add: e_def)+
  then have ib: "ib_in (tc_data e) = [] \<and> (ib_queue (tc_data e) = [] \<or> 100 \<le> length (ib_out (tc_data e)))"
      "ib_in (tc_bundle e) = [] \<and> (ib_queue (tc_bundle e) = [] \<or> 100 \<le> length (ib_out (tc_bundle e)))"
    using resting_inbox by blast+
  have "can_read e" using up ib by (simp add: can_read_def blocked_def e_def)
  then have wire: "lk_wire l x = []"
    using resting_step [OF rest, of "ReadSome 1" "\<not> x"] by (auto simp: e_def read_max_def Suc_le_eq split: if_splits)
  have "tc_writing ?c = None"
    using resting_step [OF rest, of WriteAll x] by (auto simp: conn_write_def split: option.splits)
  moreover from this have "tc_queue ?c = []"
    using resting_step [OF rest, of SendNext x] up by (auto split: list.splits if_splits)
  ultimately have "calls x as = tc_written ?c" using ok(1) up by (simp add: sending_def)
  then show ?thesis using ok(2,3) ib up wire by (auto simp: flowing_def received_def cut_off_def Let_def e_def)
qed

end
