(* ===== verification/Conn.thy ===== *)
theory Conn
  imports Network_Mock Tcp_Conn
begin

text \<open>
  The interface \<open>Conn\<close> of \<open>core/network.go\<close> as a locale, interpreted on the connections of both
  networks. What the communicator and the theory \<open>Cluster\<close> need of a connection is that what comes out
  can be explained by picking sent messages one at a time, each at most once and in any order.
\<close>

section \<open>Picking messages\<close>

text \<open>The messages at distinct places of the list of what was sent.\<close>

definition picked :: "'m list \<Rightarrow> 'm list \<Rightarrow> nat list \<Rightarrow> bool" where
  "picked sent got ks \<longleftrightarrow> distinct ks \<and> (\<forall>k \<in> set ks. k < length sent) \<and> got = map (\<lambda>k. sent ! k) ks"

lemma free_place:
  assumes "picked sent got ks" and "count (mset got) m < count (mset sent) m"
  shows "\<exists>k < length sent. k \<notin> set ks \<and> sent ! k = m"
proof (rule ccontr)
  note p = assms(1) [unfolded picked_def]
  assume no: "\<not> ?thesis"
  have "count (mset sent) m = card {k. k < length sent \<and> m = sent ! k}"
    by (simp only: count_mset count_list_eq_length_filter length_filter_conv_card)
  also have "{k. k < length sent \<and> m = sent ! k} \<subseteq> set (filter (\<lambda>k. m = sent ! k) ks)" using no by auto
  then have "card {k. k < length sent \<and> m = sent ! k} \<le> length (filter (\<lambda>k. m = sent ! k) ks)"
    by (meson List.finite_set card_length card_mono order_trans)
  also have "\<dots> = count (mset got) m" using p by (simp only: count_mset count_list_eq_length_filter)
      (simp add: filter_map comp_def)
  finally show False using assms(2) by simp
qed

lemma picked_ex: "mset got \<subseteq># mset sent \<Longrightarrow> \<exists>ks. picked sent got ks"
proof (induction got rule: rev_induct)
  case Nil
  then show ?case by (simp add: picked_def)
next
  case (snoc m got)
  have "mset got \<subseteq># mset (got @ [m])" by simp
  then obtain ks where ks: "picked sent got ks" using snoc by (meson subset_mset.order_trans)
  have "count (mset got) m < count (mset sent) m" using mset_subset_eq_count [OF snoc.prems, of m] by simp
  from free_place [OF ks this] obtain k where "k < length sent" "k \<notin> set ks" "sent ! k = m" by blast
  then have "picked sent (got @ [m]) (ks @ [k])" using ks by (auto simp: picked_def)
  then show ?case by blast
qed

section \<open>The interface\<close>

text \<open>A run of a connection's goroutines, what was sent at one end during it, and what came out at the other.\<close>

locale conn_iface =
  fixes run :: "'a list \<Rightarrow> 's \<Rightarrow> bool"
    and sent :: "'a list \<Rightarrow> 'm list"
    and got :: "'s \<Rightarrow> 'm list"
  assumes honest: "run as s \<Longrightarrow> mset (got s) \<subseteq># mset (sent as)"
begin

lemma picks: "run as s \<Longrightarrow> \<exists>ks. picked (sent as) (got s) ks"
  by (rule picked_ex [OF honest])

lemma only_sent: "run as s \<Longrightarrow> set (got s) \<subseteq> set (sent as)"
  by (metis honest set_mset_mono set_mset_mset)

lemma never_more: "run as s \<Longrightarrow> length (got s) \<le> length (sent as)"
  by (metis honest size_mset size_mset_mono)

lemma never_twice: "run as s \<Longrightarrow> distinct (sent as) \<Longrightarrow> distinct (got s)"
  using picks [of as s] by (auto simp: picked_def distinct_map intro: inj_on_nth)

end

text \<open>A connection that also keeps the order.\<close>

locale ordered_conn =
  fixes run :: "'a list \<Rightarrow> 's \<Rightarrow> bool"
    and sent :: "'a list \<Rightarrow> 'm list"
    and got :: "'s \<Rightarrow> 'm list"
  assumes in_order: "run as s \<Longrightarrow> \<exists>left. sent as = got s @ left"

sublocale ordered_conn \<subseteq> conn_iface run sent got
  by unfold_locales (use in_order in fastforce)

section \<open>The mock connection\<close>

fun lane_sends :: "'e lane_act list \<Rightarrow> 'e message list" where
  "lane_sends [] = []"
| "lane_sends (LaneSend m # as) = m # lane_sends as"
| "lane_sends (a # as) = lane_sends as"

lemma lane_sends_mset: "mset (lane_sends as) = lane_sent as"
  by (induction as rule: lane_sends.induct) auto

interpretation mock: conn_iface "\<lambda>as l. lane_run empty_lane as l \<and> LaneSend (DataMsg []) \<notin> set as" lane_sends ln_read
proof
  fix as :: "'e lane_act list" and l
  assume r: "lane_run empty_lane as l \<and> LaneSend (DataMsg []) \<notin> set as"
  then have "in_lane l = lane_sent as"
    using lane_run_in_lane [of empty_lane as l] by (simp add: in_lane_def empty_lane_def)
  then show "mset (ln_read l) \<subseteq># mset (lane_sends as)" by (simp add: lane_sends_mset in_lane_def flip: \<open>in_lane l = lane_sent as\<close>)
qed

section \<open>The TCP connection\<close>

text \<open>The data and the bundles from one end (\<open>x\<close>) to the other.\<close>

lemma tcp_prefix:
  assumes "delimits enc dec \<and> link_run enc dec as new_link = Some l"
  shows "\<exists>left. datas (calls x as) = arrived (tc_data (lk_conn l (\<not> x))) @ left"
    and "\<exists>left. bundles (calls x as) = arrived (tc_bundle (lk_conn l (\<not> x))) @ left"
  using link_in_order [of enc dec as l x] assms by (auto simp: datas_append)

interpretation tcp_data: ordered_conn "\<lambda>as l. delimits enc dec \<and> link_run enc dec as new_link = Some l"
    "\<lambda>as. datas (calls x as)" "\<lambda>l. arrived (tc_data (lk_conn l (\<not> x)))" for enc dec x
  by unfold_locales (rule tcp_prefix)

interpretation tcp_bundles: ordered_conn "\<lambda>as l. delimits enc dec \<and> link_run enc dec as new_link = Some l"
    "\<lambda>as. bundles (calls x as)" "\<lambda>l. arrived (tc_bundle (lk_conn l (\<not> x)))" for enc dec x
  by unfold_locales (rule tcp_prefix)

end
