(* ===== verification/Network_Properties.thy ===== *)
theory Network_Properties
  imports Examples Handshake Network_Purge Conn
begin

text \<open>
  The properties of the communicator, of the two networks and of their connections.
\<close>

section \<open>The communicator\<close>

text \<open>C17: a connection misses no bundle: the frame it is told to start on is later than every frame
  seen so far, and every bundle of that frame or a later one, unless the connection itself sent it,
  is sent to it, whatever else the communicator does in between.\<close>

theorem new_connection_misses_nothing:
  assumes "comm_run enc dec (is @ NewConn k rid # js) (comm_start (zero_communicator hc)) = Some (Inr c)"
    and "comm_run enc dec is (comm_start (zero_communicator hc)) = Some (Inr c0)"
    and "cm_horizon c0 < max_i32" and "enc (InitialData (cm_horizon c0 + 1) (EngineId rid)) = Some w"
  shows "SendData k w \<in> set (cm_out c) \<and> k \<in> set (cm_conns c) \<and>
    (\<forall>(b, src) \<in> set (concat (map handled (is @ NewConn k rid # js))).
       cm_horizon c0 + 1 \<le> fb_frame b \<and> src \<noteq> Some k \<longrightarrow> SpawnBundle k b \<in> set (cm_out c))"
proof -
  obtain c1 where c1: "comm_step enc dec (NewConn k rid) c0 = Some (Inr c1)" "comm_run enc dec js c1 = Some (Inr c)"
    using assms(1,2) by (auto simp: comm_run_append comm_run_Cons)
  have h0: "0 \<le> cm_horizon c0"
    using comm_run_mono(3) [OF assms(2)] by (simp add: comm_start_def zero_communicator_def split: option.splits)
  then have i: "i32 (cm_horizon c0 + 1) = cm_horizon c0 + 1" using assms(3) by simp
  have "k \<in> set (cm_conns c1)" and "SendData k w \<in> set (cm_out c1)"
    using c1(1) assms(4) by (auto simp: on_new_conn_def i split: if_splits)
  with \<open>k \<in> set (cm_conns c1)\<close> have kc: "SendData k w \<in> set (cm_out c)" "k \<in> set (cm_conns c)"
    using comm_run_mono(1,2) [OF c1(2)] by blast+
  have "SpawnBundle k b \<in> set (cm_out c)"
    if "(b, src) \<in> set (concat (map handled (is @ NewConn k rid # js)))" and "cm_horizon c0 + 1 \<le> fb_frame b"
      and "src \<noteq> Some k" for b src
  proof -
    have "(b, src) \<notin> set (concat (map handled is))" using comm_run_mono(4) [OF assms(2)] that(2) by fastforce
    then have "(b, src) \<in> set (concat (map handled js))" using that(1) by simp
    then show ?thesis using comm_run_sends [OF c1(2)] \<open>k \<in> set (cm_conns c1)\<close> that(3) by blast
  qed
  then show ?thesis using kc by blast
qed

definition ex_bundle :: "int \<Rightarrow> test_event frame_bundle" where
  "ex_bundle f = \<lparr>fb_frame = f, fb_bundle = local_bundle (EngineId 7) [] []\<rparr>"

theorem new_connection_misses_nothing_witness:
  "\<exists>c. comm_run Some Some ([BroadcastBundle (ex_bundle 3)] @ NewConn 0 55 # [RemoteBundle (ex_bundle 4) 1])
         (comm_start (zero_communicator None) :: (test_event, test_game payload) communicator) = Some (Inr c) \<and>
       SendData 0 (InitialData 4 (EngineId 55)) \<in> set (cm_out c) \<and> SpawnBundle 0 (ex_bundle 4) \<in> set (cm_out c)"
proof -
  let ?s = "comm_start (zero_communicator None) :: (test_event, test_game payload) communicator"
  note ev = comm_run_Cons comm_start_def zero_communicator_def on_broadcast_def on_new_conn_def on_remote_def
    ex_bundle_def Let_def
  have "\<exists>c0. comm_run Some Some [BroadcastBundle (ex_bundle 3)] ?s = Some (Inr c0) \<and> cm_horizon c0 = 3"
    by (simp add: ev)
  then obtain c0 where c0: "comm_run Some Some [BroadcastBundle (ex_bundle 3)] ?s = Some (Inr c0)" "cm_horizon c0 = 3"
    by blast
  have "\<exists>c. comm_run Some Some ([BroadcastBundle (ex_bundle 3)] @ NewConn 0 55 # [RemoteBundle (ex_bundle 4) 1]) ?s = Some (Inr c)"
    by (simp add: ev)
  then obtain c where c: "comm_run Some Some ([BroadcastBundle (ex_bundle 3)] @ NewConn 0 55 # [RemoteBundle (ex_bundle 4) 1]) ?s = Some (Inr c)"
    by blast
  from new_connection_misses_nothing [OF c c0(1), of "InitialData 4 (EngineId 55)"] c0(2)
  have "SendData 0 (InitialData 4 (EngineId 55)) \<in> set (cm_out c) \<and> SpawnBundle 0 (ex_bundle 4) \<in> set (cm_out c)"
    by (auto simp: ex_bundle_def)
  with c show ?thesis by blast
qed

text \<open>A completed frame is sent, in order, to exactly the new connections that start on it; when there
  is at most one such connection, it is then taken off the list and all others stay.\<close>

theorem boot_frame_sent_once:
  assumes "on_boot_frame enc bf c = Inr c'"
  shows "cm_out c' = cm_out c @ map (\<lambda>pb. SendData (pb_conn pb) (the (enc (BootData bf))))
           (filter (\<lambda>pb. bm_frame bf = pb_start pb) (cm_bootstraps c)) \<and>
         (length (filter (\<lambda>pb. bm_frame bf = pb_start pb) (cm_bootstraps c)) \<le> 1 \<longrightarrow>
           mset (cm_bootstraps c') = mset (filter (\<lambda>pb. bm_frame bf \<noteq> pb_start pb) (cm_bootstraps c)))"
proof -
  let ?hit = "\<lambda>pb. bm_frame bf = pb_start pb" and ?pbs = "cm_bootstraps c"
  have "mset (snd (sweep ?hit 0 ?pbs)) = mset (filter (\<lambda>pb. \<not> ?hit pb) ?pbs)" if "length (filter ?hit ?pbs) \<le> 1"
  proof -
    have "fst (sweep ?hit 0 ?pbs) = filter ?hit ?pbs" by (rule conjunct1 [OF sweep_single [OF that]]) simp
    with sweep_mset [of ?hit 0 ?pbs]
    have "mset (filter ?hit ?pbs) + mset (snd (sweep ?hit 0 ?pbs)) = mset ?pbs" by (simp only:)
    also have "\<dots> = mset (filter ?hit ?pbs) + mset (filter (\<lambda>pb. \<not> ?hit pb) ?pbs)"
      by (simp only: mset_filter) (rule multiset_partition)
    finally show ?thesis by (rule add_left_imp_eq)
  qed
  then show ?thesis by (simp add: on_boot_frame_Inr [OF assms] boot_sends_def)
qed

theorem boot_frame_sent_once_witness:
  "\<exists>c'. on_boot_frame Some \<lparr>bm_frame = 4, bm_game = ex_game, bm_info = fd_info ex_data\<rparr>
     ((zero_communicator None :: (test_event, test_game payload) communicator)
       \<lparr>cm_bootstraps := [\<lparr>pb_conn = 0, pb_start = 4\<rparr>, \<lparr>pb_conn = 1, pb_start = 5\<rparr>]\<rparr>) = Inr c' \<and>
   mset (cm_bootstraps c') = {#\<lparr>pb_conn = 1, pb_start = 5\<rparr>#} \<and> length (cm_out c') = 1"
proof -
  let ?bf = "\<lparr>bm_frame = 4, bm_game = ex_game, bm_info = fd_info ex_data\<rparr>"
  let ?c = "(zero_communicator None :: (test_event, test_game payload) communicator)
       \<lparr>cm_bootstraps := [\<lparr>pb_conn = 0, pb_start = 4\<rparr>, \<lparr>pb_conn = 1, pb_start = 5\<rparr>]\<rparr>"
  have "\<exists>c'. on_boot_frame Some ?bf ?c = Inr c'"
    by (simp add: on_boot_frame_def send_boot_def)
  then obtain c' where "on_boot_frame Some ?bf ?c = Inr c'" by blast
  with boot_frame_sent_once [OF this] show ?thesis by (simp add: zero_communicator_def)
qed

text \<open>C27: once a bootstrap has failed (the connection closed, or the confirmation was not one), the
  shutdown of the communicator waits for ever: the failed connection is counted as live.\<close>

theorem failed_bootstrap_blocks_shutdown:
  assumes "comm_run enc dec is (comm_start (zero_communicator hc)) = Some (Inr c)"
    and "\<exists>i \<in> set is. failed_boot dec i"
  shows "comm_step enc dec WaitReturns c = None"
proof -
  have "filter (failed_boot dec) is \<noteq> []" using assms(2) by (simp add: filter_empty_conv)
  then have "0 < int (length (filter (failed_boot dec) is))" by simp
  then have "0 < lost_conns c" using comm_run_lost [OF assms(1)] by (simp only: comm_start_lost)
  then have "0 < cm_active c" by (simp add: lost_conns_def)
  then show ?thesis by simp
qed

theorem failed_bootstrap_blocks_shutdown_witness:
  "\<exists>c. comm_run Some Some [NewConn 0 55, BootReply 0 (EngineId 55) None, StopComm]
         (comm_start (zero_communicator None) :: (test_event, test_game payload) communicator) = Some (Inr c) \<and>
       cm_phase c = CommClosing \<and> comm_step Some Some WaitReturns c = None"
proof -
  let ?s = "comm_start (zero_communicator None) :: (test_event, test_game payload) communicator"
  let ?is = "[NewConn 0 55, BootReply 0 (EngineId 55) None, StopComm]"
  have "\<exists>c. comm_run Some Some ?is ?s = Some (Inr c) \<and> cm_phase c = CommClosing"
    by (simp add: comm_run_Cons comm_start_def zero_communicator_def on_new_conn_def bootstrap_routine_def
        on_comm_shutdown_def Let_def)
  then obtain c where c: "comm_run Some Some ?is ?s = Some (Inr c)" "cm_phase c = CommClosing" by blast
  have "\<exists>i \<in> set ?is. failed_boot Some i" by (simp add: confirmed_def)
  from failed_bootstrap_blocks_shutdown [OF c(1) this] c show ?thesis by blast
qed

text \<open>C18: a join from both ends. A host accepts connection \<open>k\<close> in any state that its communicator can
  reach, and goes on in any way: what it sends on \<open>k\<close> is its initial data, with the frame after its
  horizon and the id it drew, and then a first part (not empty if there is one) of the frames with
  exactly that number that its updater completes. A client that receives this, with any bundles in
  between, joins with the first of these frames and that id, keeps in order the bundles after its
  start frame and sends its confirmation; without such a frame it waits. The confirmation, when
  the host receives it, makes the host announce the engine and serve the connection.\<close>

theorem join_handshake:
  assumes codec: "\<forall>p w. enc p = Some w \<longrightarrow> dec w = Some p" and ready: "enc (ReadyData True) = Some w2"
    and "comm_run enc dec is (comm_start (zero_communicator hc)) = Some (Inr h)" and "k \<notin> set (cm_conns h)"
    and s: "s = i32 (cm_horizon h + 1)" and w0: "enc (InitialData s (EngineId rid)) = Some w0"
    and "comm_run enc dec (NewConn k rid # js) h = Some (Inr h2)" and "\<forall>r. NewConn k r \<notin> set js"
  shows "\<exists>n > 0. let ws = map (\<lambda>bf. the (enc (BootData bf))) (take n (boots_for s js)) in
    sent_data k (cm_out h2) = w0 # ws \<and>
    comm_join enc dec conn (Some w0) (map JoinBundle bs @ map (\<lambda>w. JoinData (Some w)) ws) c =
      (case boots_for s js of
         [] \<Rightarrow> None
       | bf # _ \<Rightarrow> Some (c\<lparr>cm_out := cm_out c @ [SendData conn w2, RawInOrder (filter (\<lambda>b. s < fb_frame b) bs)],
                              cm_host_conn := Some conn\<rparr>, Some (bf, EngineId rid))) \<and>
    ((\<forall>i data. BootReply k i data \<notin> set js) \<longrightarrow>
      (\<exists>h3. comm_step enc dec (BootReply k (EngineId rid) (Some w2)) h2 = Some (Inr h3) \<and>
         cm_out h3 = cm_out h2 @ [EngineEventOut (EngineJoined (EngineId rid))] \<and> k \<in> set (cm_routines h3)))"
proof -
  let ?h = "on_new_conn enc k rid h" and ?w = "\<lambda>bf. the (enc (BootData bf))"
  have run: "comm_run enc dec js ?h = Some (Inr h2)" using assms(7) by (auto simp: comm_run_Cons split: if_splits)
  have "known_conns h" by (rule known_run [OF assms(3) known_start])
  with assms(4) w0 have "served enc k s w0 [] 1 ?h" unfolding s by (intro served_new)
  from served_run [OF this run] assms(8) obtain n where n: "served enc k s w0 (boots_for s js) n h2" by auto
  let ?bfs = "take n (boots_for s js)"
  have sent: "sent_data k (cm_out h2) = w0 # map ?w ?bfs" "0 < n" "\<forall>bf \<in> set ?bfs. enc (BootData bf) \<noteq> None"
    using n by (simp_all add: served_def)
  then have "\<forall>bf \<in> set ?bfs. dec (?w bf) = Some (BootData bf)" using codec by fastforce
  from join_first [OF _ ready this, of w0 s "EngineId rid" conn bs c] codec w0
  have join: "comm_join enc dec conn (Some w0) (map JoinBundle bs @ map (\<lambda>w. JoinData (Some w)) (map ?w ?bfs)) c =
      (case boots_for s js of
         [] \<Rightarrow> None
       | bf # _ \<Rightarrow> Some (c\<lparr>cm_out := cm_out c @ [SendData conn w2, RawInOrder (filter (\<lambda>b. s < fb_frame b) bs)],
                              cm_host_conn := Some conn\<rparr>, Some (bf, EngineId rid)))"
    using sent(2) by (cases "boots_for s js"; cases n) (simp_all add: comp_def)
  have "(k, EngineId rid) \<in> set (cm_waiting h2)" if "\<forall>i data. BootReply k i data \<notin> set js"
    using waiting_run [OF run] that w0 s by (simp add: on_new_conn_def Let_def)
  then show ?thesis using sent join ready codec
    by (intro exI [of _ n]) (auto simp: Let_def bootstrap_routine_def confirmed_def)
qed

definition ex_boot :: "int \<Rightarrow> test_game boot_message" where
  "ex_boot f = \<lparr>bm_frame = f, bm_game = ex_game, bm_info = fd_info ex_data\<rparr>"

text \<open>A host that has seen frame 3 and completes the frames 3 and 4 after connection 0 arrived.\<close>

theorem join_handshake_witness:
  "\<exists>h2 :: (test_event, test_game payload) communicator.
     comm_run Some Some [BroadcastBundle (ex_bundle 3), NewConn 0 55, BootFrame (ex_boot 3), BootFrame (ex_boot 4)]
       (comm_start (zero_communicator None)) = Some (Inr h2) \<and>
     (\<exists>h3. comm_step Some Some (BootReply 0 (EngineId 55) (Some (ReadyData True))) h2 = Some (Inr h3))"
proof -
  let ?c = "comm_start (zero_communicator None) :: (test_event, test_game payload) communicator"
  let ?js = "[BootFrame (ex_boot 3), BootFrame (ex_boot 4)] :: (test_event, test_game, test_game payload) comm_in list"
  let ?h = "on_broadcast (ex_bundle 3) ?c"
  have h: "comm_run Some Some [BroadcastBundle (ex_bundle 3)] ?c = Some (Inr ?h)" "4 = i32 (cm_horizon ?h + 1)" "cm_conns ?h = []"
    by (simp_all add: comm_run_Cons comm_start_def zero_communicator_def on_broadcast_def Let_def ex_bundle_def)
  define r where "r = comm_run Some Some (NewConn 0 55 # ?js) ?h"
  have "case comm_run Some Some (NewConn 0 55 # ?js) ?h of Some (Inr h2) \<Rightarrow> True | _ \<Rightarrow> False"
    by code_simp
  then have "case r of Some (Inr h2) \<Rightarrow> True | _ \<Rightarrow> False" by (simp only: r_def)
  then obtain h2 where "r = Some (Inr h2)" by (auto split: option.splits sum.splits)
  note h2 = this [unfolded r_def]
  have "\<exists>h3. comm_step Some Some (BootReply 0 (EngineId 55) (Some (ReadyData True))) h2 = Some (Inr h3)"
  proof -
    have e: "\<forall>p w. Some p = Some w \<longrightarrow> Some w = Some (p :: test_game payload)" by simp
    have k: "0 \<notin> set (cm_conns ?h)" unfolding h(3) by simp
    have no: "\<forall>r. NewConn 0 r \<notin> set ?js" "\<forall>i data. BootReply 0 i data \<notin> set ?js" by simp_all
    show ?thesis
      using join_handshake [OF e refl h(1) k h(2) refl h2 no(1), of 0 "[]" ?c] no(2) unfolding Let_def by blast
  qed
  moreover have "comm_run Some Some ([BroadcastBundle (ex_bundle 3)] @ NewConn 0 55 # ?js) ?c = Some (Inr h2)"
    unfolding comm_run_append using h(1) h2 by blast
  ultimately show ?thesis by auto
qed

section \<open>The mock network\<close>

text \<open>C33: what \<open>Join\<close> of the mock network does in every reachable network. It succeeds exactly when the
  hosts are different and not connected and the remote one is registered and hosts with a callback
  that accepts: then the two are connected in both directions with one pair id, the other end is
  offered to the remote host and both counts of active connections grow by one. It panics exactly
  when all of that holds but the host has no callback. Otherwise it leaves the network as it was and
  its error tells the reason.\<close>

theorem mock_join_connects:
  assumes "registry n" and "h < length (mn_objs n)"
  shows "let ready = (r \<noteq> h \<and> \<not> connected_to r (mn_objs n ! h) \<and> r \<in> set (mn_hosts n)) in
    case mock_join h (MockRemote d e r) data n of
      Inl err \<Rightarrow> err = NilDereference \<and> ready \<and> mh_join (mn_objs n ! r) = None
    | Inr (n', Inl err) \<Rightarrow> n' = n \<and>
        (case err of
           SelfConnection \<Rightarrow> r = h
         | ConnectedTwice \<Rightarrow> r \<noteq> h \<and> connected_to r (mn_objs n ! h)
         | RemoteNotFound \<Rightarrow> r \<noteq> h \<and> \<not> connected_to r (mn_objs n ! h) \<and> r \<notin> set (mn_hosts n)
         | JoinRefused x \<Rightarrow> ready \<and> (\<exists>f. mh_join (mn_objs n ! r) = Some f \<and> f data = Some x)
         | _ \<Rightarrow> False)
    | Inr (n', Inr k) \<Rightarrow> ready \<and> (\<exists>f. mh_join (mn_objs n ! r) = Some f \<and> f data = None) \<and>
        registry n' \<and> connected_to r (mn_objs n' ! h) \<and> connected_to h (mn_objs n' ! r) \<and>
        Suc k \<in> set (mh_new_conns (mn_objs n' ! r)) \<and> mn_pairs n' ! k = mn_pairs n' ! Suc k \<and>
        active_connections h n' = active_connections h n + 1 \<and> active_connections r n' = active_connections r n + 1"
proof -
  note ok = registry_ok [OF assms(1)]
  note eq = mock_join_eq [OF ok assms(2), of d e r data]
  show ?thesis
  proof (cases "mock_join h (MockRemote d e r) data n")
    case (Inl err)
    then show ?thesis unfolding eq by (auto simp: Let_def split: if_splits option.splits prod.splits)
  next
    case (Inr res)
    obtain n' k where nk: "res = (n', k)" by (cases res)
    note j = Inr [unfolded nk]
    show ?thesis
    proof (cases k)
      case (Inl err)
      then show ?thesis using j unfolding eq by (auto simp: Let_def split: if_splits option.splits prod.splits)
    next
      case (Inr c)
      have "\<exists>f. mh_join (mn_objs n ! r) = Some f \<and> f data = None"
        using j Inr unfolding eq by (auto split: if_splits option.splits)
      moreover have "registry n'" using reg_more [OF assms(1) reg_join [OF assms(2) j]] .
      ultimately show ?thesis using mock_join_ok(2) [OF ok assms(2) j Inr] j Inr by (auto simp: Let_def)
    qed
  qed
qed

definition ex_net :: "(string, string) mock_net" where
  "ex_net = mock_host_fns 0 (Some (\<lambda>d. (d, None))) (Some (\<lambda>_. None))
     (fst (new_host_mock (fst (new_host_mock empty_net))))"

theorem mock_join_connects_witness:
  "\<exists>n'. mock_join 1 (MockRemote ''x'' None 0) ''y'' ex_net = Inr (n', Inr 0) \<and> registry n' \<and>
        connected_to 0 (mn_objs n' ! 1) \<and> connected_to 1 (mn_objs n' ! 0)"
proof -
  have r: "registry ex_net"
    unfolding ex_net_def
    by (rule reg_more [OF reg_more [OF reg_more [OF reg_empty reg_new] reg_new] reg_host])
      (simp add: new_host_mock_def empty_net_def)
  have l: "1 < length (mn_objs ex_net)" by (simp add: ex_net_def mock_host_fns_def new_host_mock_def empty_net_def)
  have "\<exists>n'. mock_join 1 (MockRemote ''x'' None 0) ''y'' ex_net = Inr (n', Inr 0)"
    by (simp add: ex_net_def mock_join_def mock_host_fns_def new_host_mock_def empty_net_def connected_to_def make_pair_def Let_def)
  then obtain n' where j: "mock_join 1 (MockRemote ''x'' None 0) ''y'' ex_net = Inr (n', Inr 0)" by blast
  with mock_join_connects [OF r l, where d = "''x''" and e = None and r = 0 and data = "''y''"] show ?thesis by simp
qed

text \<open>C34: a connection of the mock network loses no message and invents none, in whatever order its
  goroutines hand the messages on, except for empty data: what was sent is in the lane or has been read, what has
  been read can be explained by picking sent messages, each at most once (the assumption of the model of a whole
  cluster), and while something is in the lane some goroutine can move it.\<close>

theorem mock_lane_conserves:
  assumes "lane_run empty_lane as l" and "LaneSend (DataMsg []) \<notin> set as"
  shows "in_lane l = lane_sent as \<and> (\<exists>ks. picked (lane_sends as) (ln_read l) ks) \<and>
    (mset (ln_read l) \<noteq> lane_sent as \<longrightarrow> (\<exists>a l'. lane_step l a l' \<and> (\<forall>m. a \<noteq> LaneSend m)))"
proof -
  have e: "in_lane l = lane_sent as"
    using lane_run_in_lane [OF assms(1) _ assms(2)] by (simp add: in_lane_def empty_lane_def)
  moreover have "\<exists>ks. picked (lane_sends as) (ln_read l) ks" using mock.picks assms by blast
  ultimately show ?thesis using lane_progress [of l] by auto
qed

theorem mock_lane_conserves_witness:
  "\<exists>l. lane_run (empty_lane :: test_event lane) [LaneSend (DataMsg [1]), LaneSend (BundleMsg ex_7), LaneMove (pack (BundleMsg ex_7)),
        LaneDecode (pack (BundleMsg ex_7)), LaneRead (BundleMsg ex_7)] l \<and>
     in_lane l = {#DataMsg [1], BundleMsg ex_7#} \<and> ln_read l = [BundleMsg ex_7]"
proof -
  let ?as = "[LaneSend (DataMsg [1]), LaneSend (BundleMsg ex_7), LaneMove (pack (BundleMsg ex_7)),
        LaneDecode (pack (BundleMsg ex_7)), LaneRead (BundleMsg ex_7)] :: test_event lane_act list"
  have "\<exists>l. lane_run empty_lane ?as l \<and> ln_read l = [BundleMsg ex_7]"
    by (intro exI conjI, (rule lane_cons lane_nil, (simp add: lane_step_simps)?)+)
      (simp add: empty_lane_def gob_trip_def unpack_def, rule lane_nil, simp)
  then obtain l where l: "lane_run empty_lane ?as l" "ln_read l = [BundleMsg ex_7]" by blast
  with mock_lane_conserves [OF l(1)] show ?thesis by (auto simp: add_mset_commute)
qed

section \<open>The network over UDP and TCP\<close>

text \<open>A codec that transmits data and the bundle \<open>ex_7\<close>, for the witnesses.\<close>

definition ex_enc :: "test_event encoder" where
  "ex_enc h p =
     (if pl_bundle p = None then Some (0 # length (pl_data p) # pl_data p)
      else if p = bundle_payload ex_7 then Some [1] else None)"

definition ex_dec :: "test_event decoder" where
  "ex_dec h bs =
     (case bs of
        [] \<Rightarrow> None
      | t # r \<Rightarrow>
          if t = 1 then Some (bundle_payload ex_7, r)
          else (case r of [] \<Rightarrow> None
                | n # r' \<Rightarrow> if n \<le> length r' then Some (data_payload (take n r'), drop n r') else None))"

lemma ex_codec: "delimits ex_enc ex_dec"
proof -
  have one: "(\<forall>rest. ex_dec h (bs @ rest) = Some (p, rest)) \<and> (\<forall>k < length bs. ex_dec h (take k bs) = None)"
    if "ex_enc h p = Some bs" for h p bs
  proof (cases "pl_bundle p")
    case None
    then have bs: "bs = 0 # length (pl_data p) # pl_data p" and p: "p = data_payload (pl_data p)"
      using that by (auto simp: ex_enc_def data_payload_def)
    have "ex_dec h (bs @ rest) = Some (data_payload (pl_data p), rest)" for rest by (simp add: bs ex_dec_def)
    moreover have "ex_dec h (take k bs) = None" if "k < length bs" for k
      using that by (auto simp: bs ex_dec_def take_Cons' min_def)
    ultimately show ?thesis using p by simp
  next
    case (Some b)
    then have "bs = [1]" "p = bundle_payload ex_7" using that by (auto simp: ex_enc_def split: if_splits)
    then show ?thesis by (simp add: ex_dec_def)
  qed
  then show ?thesis unfolding delimits_def by blast
qed

text \<open>C28: a TCP connection never garbles or reorders: whatever the order of the two ends' routines, however
  the stream is cut into reads, and whether or not a write fails on the way, the data and the bundles
  that have come in at one end are those of the first payloads that the other was told to send.\<close>

theorem tcp_link_in_order:
  assumes "delimits enc dec" and "link_run enc dec as new_link = Some l"
  shows "\<exists>seen left. calls x as = seen @ left \<and> arrived (tc_data (lk_conn l (\<not> x))) = datas seen \<and>
    arrived (tc_bundle (lk_conn l (\<not> x))) = bundles seen"
  by (rule link_in_order [OF assms])

definition ex_calls :: "(bool \<times> test_event conn_act) list" where
  "ex_calls = [(True, SendCall (data_payload [5])), (False, SendCall (data_payload [6])), (True, SendNext),
     (True, SendCall (bundle_payload ex_7)), (True, WriteAll), (True, SendNext), (True, WriteAll), (False, ReadSome 4),
     (False, OnData RecvTake), (False, OnData RecvGive), (False, OnData RecvCall), (False, SendNext), (False, WriteAll),
     (True, ReadSome 3), (True, OnData RecvTake), (True, OnData RecvGive)]"

definition ex_link :: "test_event link" where
  "ex_link = the (link_run ex_enc ex_dec ex_calls new_link)"

lemma ex_link_run: "link_run ex_enc ex_dec ex_calls new_link = Some ex_link"
proof -
  have "link_run ex_enc ex_dec ex_calls new_link \<noteq> None" by code_simp
  then show ?thesis by (auto simp: ex_link_def)
qed

theorem tcp_link_in_order_witness:
  "arrived (tc_data (lk_conn ex_link False)) = [[5]] \<and> arrived (tc_bundle (lk_conn ex_link False)) = [] \<and>
   (\<exists>seen left. calls True ex_calls = seen @ left \<and> [[5]] = datas seen \<and> [] = bundles seen)"
proof -
  have "arrived (tc_data (lk_conn ex_link False)) = [[5]]" "arrived (tc_bundle (lk_conn ex_link False)) = []" by code_simp+
  then show ?thesis using tcp_link_in_order [OF ex_codec ex_link_run, of True] by simp
qed

text \<open>C29: a TCP connection cannot be held up by the application that reads from it: the steps of its routines
  end, in every order. At rest, for a codec whose encodings delimit themselves and are not empty, and
  in a direction whose writer has not failed and whose reader has not ended (a payload cut in two
  ends it, see C30): what was sent and not decoded is exactly what the bytes in the reader's
  buffer encode, so with an empty buffer nothing is missing, and what was decoded has reached
  the application's channels or waits in the queues behind 100 values there.\<close>

theorem tcp_link_rests:
  assumes "delimits enc dec" and "\<forall>h p. enc h p \<noteq> Some []" and "link_run enc dec as new_link = Some l" and "resting enc dec l"
    and "tc_writer (lk_conn l x)" and "rd_alive (tc_reader (lk_conn l (\<not> x)))" and "lk_conn l (\<not> x) = e"
  shows "wf {(l', l). \<exists>x a. internal a \<and> link_step enc dec x a l = Some (Inr l')} \<and>
    (\<exists>left. calls x as = rd_hist (tc_reader e) @ left \<and> stream enc (rd_hist (tc_reader e)) left = Some (rd_buf (tc_reader e)) \<and>
       (rd_buf (tc_reader e) = [] \<longrightarrow> left = [])) \<and>
    arrived (tc_data e) = datas (rd_hist (tc_reader e)) \<and> arrived (tc_bundle e) = bundles (rd_hist (tc_reader e)) \<and>
    ib_in (tc_data e) = [] \<and> (ib_queue (tc_data e) = [] \<or> 100 \<le> length (ib_out (tc_data e))) \<and>
    ib_in (tc_bundle e) = [] \<and> (ib_queue (tc_bundle e) = [] \<or> 100 \<le> length (ib_out (tc_bundle e)))"
  using link_stops [of enc dec] link_rests [OF assms(1,3-6)] stream_empty [OF _ assms(2)] unfolding assms(7) by auto

lemma ex_link_idle: "resting ex_enc ex_dec ex_link"
proof -
  have "\<forall>x. length (tc_queue (lk_conn ex_link x)) = 0 \<and> (case tc_writing (lk_conn ex_link x) of None \<Rightarrow> True | Some p \<Rightarrow> False) \<and>
      length (lk_wire ex_link x) = 0" by code_simp
  moreover have "\<forall>x. length (ib_in (tc_data (lk_conn ex_link x))) = 0 \<and> length (ib_queue (tc_data (lk_conn ex_link x))) = 0" by code_simp
  moreover have "\<forall>x. length (ib_in (tc_bundle (lk_conn ex_link x))) = 0 \<and> length (ib_queue (tc_bundle (lk_conn ex_link x))) = 0" by code_simp
  ultimately have idle: "tc_queue (lk_conn ex_link x) = []" "tc_writing (lk_conn ex_link x) = None" "lk_wire ex_link x = []"
      "ib_in (tc_data (lk_conn ex_link x)) = []" "ib_queue (tc_data (lk_conn ex_link x)) = []"
      "ib_in (tc_bundle (lk_conn ex_link x)) = []" "ib_queue (tc_bundle (lk_conn ex_link x)) = []" for x
    by (simp_all split: option.splits)
  have none: "b \<noteq> RecvCall \<Longrightarrow> recv_step b (tc_data (lk_conn ex_link x)) = None"
      "b \<noteq> RecvCall \<Longrightarrow> recv_step b (tc_bundle (lk_conn ex_link x)) = None" for b x
    by (cases b; simp add: idle)+
  have "link_step ex_enc ex_dec x a ex_link = None" if "internal a" for x a
  proof (cases a)
    case (OnData b)
    then show ?thesis using that none(1) [of b x] by (cases b) (simp_all add: link_step_def)
  next
    case (OnBundle b)
    then show ?thesis using that none(2) [of b x] by (cases b) (simp_all add: link_step_def)
  qed (use that in \<open>auto simp: link_step_def idle conn_write_def\<close>)
  then show ?thesis by (simp add: resting_def)
qed

theorem tcp_link_rests_witness:
  "rd_buf (tc_reader (lk_conn ex_link False)) = [1] \<and> (\<exists>left. calls True ex_calls = [data_payload [5]] @ left \<and> stream ex_enc [data_payload [5]] left = Some [1])"
proof -
  have r: "rd_buf (tc_reader (lk_conn ex_link False)) = [1]" by code_simp
  have h: "map pl_data (rd_hist (tc_reader (lk_conn ex_link False))) = [[5]]" by code_simp
  have o: "length (bundles (rd_hist (tc_reader (lk_conn ex_link False)))) = 0" by code_simp
  have "rd_hist (tc_reader (lk_conn ex_link False)) = [data_payload [5]]"
    using h o by (auto simp: bundles_def data_payload_def split: if_splits)
  moreover have "\<forall>h p. ex_enc h p \<noteq> Some []" by (simp add: ex_enc_def)
  moreover have "tc_writer (lk_conn ex_link True)" "rd_alive (tc_reader (lk_conn ex_link (\<not> True)))" by code_simp+
  ultimately show ?thesis using tcp_link_rests [OF ex_codec _ ex_link_run ex_link_idle, of True] r by auto
qed

text \<open>As long as each read gives what one write wrote, a connection delivers the data and the
  bundles that were sent on it completely and in the order of the sends: at any moment what was
  delivered, what waits at the receiver and what waits at the sender make up what was sent.\<close>

theorem tcp_delivers_in_order:
  assumes "delimits enc dec" and "queue_run sends ([], []) = Some (q, out)"
    and "write_run enc [] (map (\<lambda>p. (p, True)) out) = (chunks, True)"
    and "queue_run dacts ([], []) = Some (dq, dout)" and "queue_puts dacts = rd_data (read_all dec chunks)"
    and "queue_run bacts ([], []) = Some (bq, bout)" and "queue_puts bacts = rd_bundles (read_all dec chunks)"
  shows "dout @ dq @ datas q = datas (queue_puts sends) \<and> bout @ bq @ bundles q = bundles (queue_puts sends)"
  using tcp_in_order [OF assms] by blast

theorem tcp_delivers_in_order_witness:
  "rd_data (read_all ex_dec [[0, 1, 5], [1]]) = [[5]] \<and> rd_bundles (read_all ex_dec [[0, 1, 5], [1]]) = [ex_7] \<and>
   [[5]] @ [] @ datas [data_payload [6] :: test_event tcp_payload] = datas [data_payload [5], bundle_payload ex_7, data_payload [6] :: test_event tcp_payload]"
proof -
  let ?r = "read_all ex_dec [[0, 1, 5], [1]]"
  have r: "rd_data ?r = [[5]]" "rd_bundles ?r = [ex_7]"
    by (simp_all add: read_all_def read_step_def ex_dec_def new_reader_def dispatch_def data_payload_def bundle_payload_def)
  let ?sends = "[QueuePut (data_payload [5]), QueuePut (bundle_payload ex_7), QueueGet, QueuePut (data_payload [6]), QueueGet]"
  have "[[5]] @ [] @ datas [data_payload [6] :: test_event tcp_payload] = datas (queue_puts ?sends) \<and>
        [] @ [ex_7] @ bundles [data_payload [6] :: test_event tcp_payload] = bundles (queue_puts ?sends)"
    by (rule tcp_delivers_in_order [OF ex_codec, of ?sends _ "[data_payload [5], bundle_payload ex_7]"
        "[[0, 1, 5], [1]]" "[QueuePut [5], QueueGet]" _ _ "[QueuePut ex_7]"])
      (simp_all add: r [simplified], simp add: ex_enc_def data_payload_def bundle_payload_def)
  with r show ?thesis by simp
qed

text \<open>C30: the reader of a connection depends on how the stream is cut into reads: a payload that arrives
  in two pieces ends it, and of two payloads that arrive together the second is delivered only when
  more data comes.\<close>

theorem tcp_reader_needs_whole_writes:
  assumes "delimits enc dec" and "enc [] p = Some bs" and "enc [p] q = Some cs"
  shows "(\<forall>k < length bs. \<not> rd_alive (read_all dec (take k bs # later)) \<and>
            rd_data (read_all dec (take k bs # later)) = [] \<and> rd_bundles (read_all dec (take k bs # later)) = []) \<and>
         rd_data (read_all dec [bs @ cs]) = datas [p] \<and> rd_bundles (read_all dec [bs @ cs]) = bundles [p] \<and>
         rd_data (read_all dec [bs @ cs, c]) = datas [p, q] \<and> rd_bundles (read_all dec [bs @ cs, c]) = bundles [p, q]"
  using read_split [OF assms(1,2)] read_coalesced [OF assms]
  by (auto simp: dispatch_def datas_def bundles_def split: option.splits)

theorem tcp_reader_needs_whole_writes_witness:
  "rd_data (read_all ex_dec [[0, 1, 5, 0, 1, 6]]) = [[5]] \<and> \<not> rd_alive (read_all ex_dec [[0, 1], [5]])"
proof -
  have "ex_enc h (data_payload [x]) = Some [0, 1, x]" for h x by (simp add: ex_enc_def data_payload_def)
  note t = tcp_reader_needs_whole_writes [OF ex_codec this this, of 5 "[[5]]" 6]
  have "\<not> rd_alive (read_all ex_dec (take 2 [0, 1, 5] # [[5]]))"
    using conjunct1 [OF t, THEN spec, of 2] by simp
  moreover have "rd_data (read_all ex_dec [[0, 1, 5] @ [0, 1, 6]]) = datas [data_payload [5] :: test_event tcp_payload]"
    by (rule conjunct1 [OF conjunct2 [OF t]])
  ultimately show ?thesis by (simp add: datas_def data_payload_def)
qed

text \<open>C31: when host and client agree on the outcome of the TCP handshake. The host's callback sees at most
  1024 bytes of the request, and the client reads some number \<open>k\<close> of bytes of the answer, or one of
  its calls fails (\<open>fault\<close>). After an acceptance they disagree exactly when the host's write fails
  and no call of the client does, or the other way round (the callback takes longer than the
  client's timeout of one second); after a refusal exactly when the client reads less than the four
  bytes \<open>FAIL\<close>: then it takes the connection for made. A client that reads the refusal reports at most
  1024 bytes of it, and one whose call fails reports the failure.\<close>

theorem tcp_handshake_agrees:
  "\<exists>reply made. accept_conn (Some join) (Some request) write_ok = Inr (Some reply, made) \<and>
    (made = (std_join (Some remote) fault (take k reply) = Inr ()) \<longleftrightarrow>
      (case join (take 1024 request) of None \<Rightarrow> write_ok = (fault = None) | Some err \<Rightarrow> fault \<noteq> None \<or> 4 \<le> k)) \<and>
    made = (write_ok \<and> join (take 1024 request) = None) \<and>
    std_join (Some remote) fault (take k reply) =
      (case (fault, join (take 1024 request)) of
         (Some f, _) \<Rightarrow> Inl (JoinNet f)
       | (None, None) \<Rightarrow> Inr ()
       | (None, Some err) \<Rightarrow>
           if k < 4 then Inr () else Inl (JoinRejected (take 1024 (take k (''FAIL: '' @ err)))))"
proof -
  let ?j = "join (take 1024 request)" and ?a = "join_answer join request"
  have acc: "accept_conn (Some join) (Some request) write_ok = Inr (Some (fst ?a), snd ?a \<and> write_ok)"
    by (simp add: accept_conn_def)
  have client: "std_join (Some remote) fault (take k (fst ?a)) =
      (case (fault, ?j) of (Some f, _) \<Rightarrow> Inl (JoinNet f) | (None, None) \<Rightarrow> Inr ()
       | (None, Some err) \<Rightarrow> if k < 4 then Inr () else Inl (JoinRejected (take 1024 (take k (''FAIL: '' @ err)))))"
    by (cases fault; cases ?j) (simp_all add: std_join_def join_answer_def handle_join_success handle_join_fail [simplified] handle_join_fault)
  have "snd ?a = (?j = None)" by (simp add: join_answer_def split: option.splits)
  then show ?thesis using acc client
    by (intro exI [of _ "fst ?a"] exI [of _ "snd ?a \<and> write_ok"] conjI) (cases fault; cases ?j; simp; fail)+
qed

theorem tcp_handshake_agrees_witness:
  "\<exists>reply made. accept_conn (Some (\<lambda>_. Some ''full'')) (Some ''hi'') True = Inr (Some reply, made) \<and> \<not> made \<and>
     std_join (Some \<lparr>sh_data = ''x'', sh_ip = ''10.0.0.1'', sh_port = 7\<rparr>) None (take 100 reply) = Inl (JoinRejected ''FAIL: full'')"
  using tcp_handshake_agrees [of "\<lambda>_. Some ''full''" "''hi''" True "\<lparr>sh_data = ''x'', sh_ip = ''10.0.0.1'', sh_port = 7\<rparr>" None 100]
  by auto

text \<open>C32: hosting cannot be stopped or changed. In every run at most one listener is open. Once a host
  request is served while one is open, the goroutine that closes it can take a signal at once, and
  whatever else happens, as long as the process lives the accept loop can panic, at the latest after
  that goroutine's step; the panic ends the process. Meanwhile a ping routine that only meets
  timeouts holds the request up: the callbacks stay the old ones and no further request is served.\<close>

theorem hosting_change_panics:
  assumes "std_run as make_std_net = Some n" and "sn_open n = 1" and "\<not> sn_stopped n"
    and "std_step (Request seen (HostReq p j)) n = Some n1" and "std_run bs n1 = Some n2"
  shows "sn_open n2 \<le> 1 \<and>
    (if sn_crashed n2 = None
     then \<exists>cs n3. cs \<in> {[], [CloserTakes]} \<and> std_run (cs @ [AcceptWakes]) n2 = Some n3 \<and> sn_crashed n3 = Some UserPanic
     else \<forall>a. std_step a n2 = None) \<and>
    (sn_pinger n = Polling \<and> (\<forall>i. PingRound i \<in> set bs \<longrightarrow> i = PollTimeout) \<longrightarrow>
       sn_task n2 \<noteq> Idle \<and> sn_ping n2 = sn_ping n \<and> sn_join n2 = sn_join n)"
proof -
  have n: "std_ok n" by (rule std_ok_run [OF assms(1) std_ok_start])
  have "sn_task n = Idle" "n1 = fst (std_serve seen (HostReq p j) n)"
    using assms(3,4) by (auto simp: std_step_def offers_kill_iff split: if_splits)
  note n1 = this(2) [unfolded hosting_sends_kill [OF n assms(2) this(1)]] and s1 = std_ok_step [OF assms(4) n]
  have "doomed n1" and "held (sn_ping n) (sn_join n) n1" if "sn_pinger n = Polling"
    using assms(2) that by (simp_all add: n1 doomed_def held_def killing_def)
  moreover have d: "doomed n2" using doomed_run [OF assms(5) s1] assms(2) by (simp add: n1 doomed_def killing_def)
  moreover have "sn_open n2 \<le> 1" using std_ok_run [OF assms(5) s1] by (simp add: std_ok_def)
  ultimately show ?thesis using doomed_panics [OF d] held_run [OF assms(5) s1, of "sn_ping n" "sn_join n"]
    by (auto simp: std_step_def held_def killing_def split: std_task.splits)
qed

definition ex_seen :: net_seen where
  "ex_seen = \<lparr>ns_ping_resolves = True, ns_ping_listens = True, ns_join_resolves = True, ns_join_listens = True,
     ns_fault = None, ns_packets = [], ns_reply = ''SUCCESS''\<rparr>"

text \<open>A host with one connection, which is then told to stop.\<close>

definition ex_hosting :: "string std_net" where
  "ex_hosting = the (std_run [Request ex_seen (HostReq (Some host_ping) (Some host_join)), PingRound (Packet ''x''),
     Accepts, ServesConn (Some ''me'') True] make_std_net)"

definition ex_stopping :: "string std_net" where
  "ex_stopping = the (std_step (Request ex_seen (HostReq None None)) ex_hosting)"

theorem hosting_change_panics_witness:
  "sn_answers ex_hosting = [''I AM A HOST!!!''] \<and> sn_conns ex_hosting = 1 \<and>
   (\<exists>n2. std_run [PingRound PollTimeout, CloserTakes, PingRound PollTimeout] ex_stopping = Some n2 \<and>
      sn_task n2 \<noteq> Idle \<and> sn_crashed n2 = None \<and>
      (\<exists>cs n3. std_run (cs @ [AcceptWakes]) n2 = Some n3 \<and> sn_crashed n3 = Some UserPanic))"
proof -
  let ?as = "[Request ex_seen (HostReq (Some host_ping) (Some host_join)), PingRound (Packet ''x''),
     Accepts, ServesConn (Some ''me'') True]" and ?bs = "[PingRound PollTimeout, CloserTakes, PingRound PollTimeout]"
  have "\<not> Option.is_none (std_run ?as (make_std_net :: string std_net))"
      "\<not> Option.is_none (std_step (Request ex_seen (HostReq None None)) ex_hosting)"
      "\<not> Option.is_none (std_run ?bs ex_stopping)"
    by code_simp+
  then have a: "std_run ?as make_std_net = Some ex_hosting"
      "std_step (Request ex_seen (HostReq None None)) ex_hosting = Some ex_stopping"
      "std_run ?bs ex_stopping = Some (the (std_run ?bs ex_stopping))"
    by (simp_all add: ex_hosting_def ex_stopping_def Option.is_none_def)
  have b: "sn_open ex_hosting = 1" "\<not> sn_stopped ex_hosting" "sn_pinger ex_hosting = Polling"
      "sn_crashed (the (std_run ?bs ex_stopping)) = None" "sn_answers ex_hosting = [''I AM A HOST!!!'']" "sn_conns ex_hosting = 1"
    by code_simp+
  show ?thesis using hosting_change_panics [OF a(1) b(1,2) a(2,3)] a(3) b by auto
qed

section \<open>Purging a mock connection\<close>



text \<open>C36: the purge of the mock network does not purge, as its TODO says. Whatever is being delivered,
  both signals of \<open>Purge\<close> can go to the connection's own \<open>routine\<close>, so that the call returns with
  every delivery still under way; and a \<open>routine\<close> in the middle of a purge takes the signal of a
  \<open>Close\<close> for the end of the purge, after which both calls have returned and the connection
  never closes.\<close>

theorem purge_loses_signals:
  "purge_run [Call purge_signals, ToRoutine 0, ToRoutine 0] (purge_idle i k u) = Some ((purge_idle i k u)\<lparr>pe_calls := [[]]\<rparr>) \<and>
   (\<exists>s. purge_run [Call purge_signals, Call close_signals, ToRoutine 0, ToRoutine 1, ToHost 1, ToRoutine 0] (purge_idle i k u) = Some s \<and>
     pe_calls s = [[], []] \<and>
     (\<forall>as s'. (\<forall>a \<in> set as. \<forall>bs. a \<noteq> Call bs) \<longrightarrow> purge_run as s = Some s' \<longrightarrow> \<not> pe_closed s' \<and> pe_routine s' \<noteq> RoutineDone))"
proof -
  let ?s = "\<lparr>pe_calls = [[], []], pe_routine = OnCompleted, pe_host = Waiting True, pe_in = i, pe_out = k, pe_unread = u,
     pe_remote = True, pe_closed = False, pe_crashed = False\<rparr>"
  have "unclosed ?s" by (simp add: unclosed_def)
  then have "\<not> pe_closed s' \<and> pe_routine s' \<noteq> RoutineDone"
    if "\<forall>a \<in> set as. \<forall>bs. a \<noteq> Call bs" "purge_run as ?s = Some s'" for as s'
    using unclosed_stays [OF that(2) _ that(1)] by (simp add: unclosed_def)
  moreover have "purge_run [Call purge_signals, Call close_signals, ToRoutine 0, ToRoutine 1, ToHost 1, ToRoutine 0] (purge_idle i k u) = Some ?s"
    by (simp add: purge_idle_def purge_signals_def close_signals_def next_signal_def signal_sent_def routine_receives_def purge_step_def)
  moreover have "purge_run [Call purge_signals, ToRoutine 0, ToRoutine 0] (purge_idle i k u) = Some ((purge_idle i k u)\<lparr>pe_calls := [[]]\<rparr>)"
    by (simp add: purge_idle_def purge_signals_def next_signal_def signal_sent_def routine_receives_def purge_step_def)
  ultimately show ?thesis by (intro conjI exI [of _ ?s]) auto
qed

theorem purge_loses_signals_witness:
  "purge_run [Call purge_signals, ToRoutine 0, ToRoutine 0] (purge_idle 3 1 2) = Some ((purge_idle 3 1 2)\<lparr>pe_calls := [[]]\<rparr>)"
  using purge_loses_signals [of 3 1 2] by blast

end
