(* ===== verification/Node.thy ===== *)
theory Node
  imports Pnf
begin

text \<open>
  One engine of a game that many engines play: what a round of its updater sends, and an
  invariant of the engine under the deliveries it can get from the others.
\<close>

section \<open>Bundles that an updater sends\<close>

fun broadcasts :: "'e upd_out list \<Rightarrow> 'e frame_bundle list" where
  "broadcasts [] = []"
| "broadcasts (Broadcast b # ms) = b # broadcasts ms"
| "broadcasts (m # ms) = broadcasts ms"

lemma broadcasts_append [simp]: "broadcasts (xs @ ys) = broadcasts xs @ broadcasts ys"
  by (induction xs rule: broadcasts.induct) auto

lemma broadcasts_none: "(\<And>b. Broadcast b \<notin> set ms) \<Longrightarrow> broadcasts ms = []"
  by (induction ms rule: broadcasts.induct) auto

lemma broadcasts_skip_outs [simp]:
  "broadcasts (skip_outs me lo hi) = map (\<lambda>k. \<lparr>fb_frame = k, fb_bundle = dummy_bundle me\<rparr>) [lo..hi - 1]"
proof -
  have "broadcasts (map (\<lambda>k. Broadcast (g k)) ks) = map g ks" for ks and g :: "int \<Rightarrow> 'a frame_bundle"
    by (induction ks) auto
  then show ?thesis by (simp add: skip_outs_def)
qed

definition new_bundles :: "'e frame_bundle \<Rightarrow> ('e, 'g) updater \<Rightarrow> 'e frame_bundle list" where
  "new_bundles lb u = (if ignored lb u then [] else broadcasts (skipped_outs (fb_frame lb) u) @ [lb])"

lemma advanced_news:
  assumes "advanced G s u v"
  shows "broadcasts (up_out v) = broadcasts (up_out u)"
proof -
  obtain out where "up_out v = up_out u @ out"
    "\<forall>m \<in> set out. (\<exists>b. m = BootstrapOut b) \<or> (\<exists>c p f. m = Respond c p f)"
    using assms unfolding advanced_def by blast
  then show ?thesis using broadcasts_none [of out] by auto
qed

lemma fast_answered_news [simp]: "broadcasts (up_out (fast_answered u)) = broadcasts (up_out u)"
  by (simp add: fast_answered_def Let_def) (rule broadcasts_none, auto)

text \<open>A bootstrap frame is sent in the round that makes its frame final.\<close>

definition timely :: "('e, 'g) updater \<Rightarrow> ('e, 'g) updater \<Rightarrow> 'e upd_out \<Rightarrow> bool" where
  "timely u v m \<longleftrightarrow> (\<forall>b. m = BootstrapOut b \<longrightarrow> win_start u < bf_frame b \<and> bf_frame b \<le> win_start v)"

lemma advanced_sends:
  assumes "advanced G s u v"
  shows "\<exists>out. up_out v = up_out u @ out \<and> (\<forall>m \<in> set out. deliverable (up_heap v) m \<and> timely u v m)"
proof -
  obtain out where out: "up_out v = up_out u @ out"
    "boot_outs out = (if up_hosting u then map (boot_of v) [win_start u + 1..win_start v] else [])"
    using assms unfolding advanced_def by blast
  have "timely u v m" if "m \<in> set out" for m
    using that BootstrapOut_mem [of _ out] out(2) by (force simp: timely_def boot_of_def split: if_splits)
  with advanced_deliverable [OF assms] out(1) show ?thesis by auto
qed

context game_iface
begin

lemma local_news:
  assumes u: "run_inv G s u" and ok: "local_ok G lb s u" and v: "handle_local G lb u = Inr v"
  shows "broadcasts (up_out v) = broadcasts (up_out u) @ new_bundles lb u"
    and "up_params v = up_params u" and "win_len v = win_len u"
    and "up_skip v = (if ignored lb u then up_skip u else 0)"
    and "up_global v = (if ignored lb u then up_global u else max (up_global u) (fb_frame lb))"
    and "\<exists>out. up_out v = up_out u @ out \<and> (\<forall>m \<in> set out. deliverable (up_heap v) m \<and> timely u v m)"
proof -
  have "broadcasts (up_out v) = broadcasts (up_out u) @ new_bundles lb u \<and> up_params v = up_params u \<and>
    win_len v = win_len u \<and> up_skip v = (if ignored lb u then up_skip u else 0) \<and>
    up_global v = (if ignored lb u then up_global u else max (up_global u) (fb_frame lb)) \<and>
    (\<exists>out. up_out v = up_out u @ out \<and> (\<forall>m \<in> set out. deliverable (up_heap v) m \<and> timely u v m))"
  proof (cases "ignored lb u")
    case True
    then have "handle_local G lb u = Inr u" by (intro handle_local_ignored) (simp add: ignored_def)
    then show ?thesis using v True by (auto simp: new_bundles_def)
  next
    case False
    let ?f = "fb_frame lb" and ?s = "joined_history (fb_frame lb) u s"
    have fit: "fits ?s (win_start u) (win_len u) ?f (fb_bundle lb)"
      and fast: "fast_ok G ?f (add_bundle ?f (map_of_nilable (fb_bundle lb)) ?s) u"
      using ok False by (auto simp: local_ok_def Let_def)
    obtain u1 where u1: "handle_local G lb u = handle_local G lb u1" "upd_inv G ?s u1"
        "\<And>k. hi_base s < k \<Longrightarrow> k \<le> win_start u1 \<Longrightarrow> complete G ?s k" "up_skip u1 = 0"
        "win_start u1 = win_start u" "win_len u1 = win_len u" "up_fast u1 = up_fast u"
        "up_global u1 = up_global u" "up_out u1 = up_out u @ skipped_outs ?f u" "up_params u1 = up_params u"
      using local_enter [OF u ok False] by metis
    have "hi_base ?s = hi_base s" by (simp add: joined_history_def)
    with u1 fit fast run_invD(4) [OF u] have "\<exists>w v. handle_local G lb u1 = Inr (fast_answered v) \<and>
           (inwin v (up_local v) \<or> (\<forall>r \<in> set (up_fast v). rq_frame r \<noteq> up_local v)) \<and>
           dw_first w = win_start u1 \<and> dw_len w = win_len u1 \<and>
           advanced G (add_bundle ?f (map_of_nilable (fb_bundle lb)) ?s) (local_absorbed lb u1 w) v"
      by (intro local_tail_ok) (auto simp: fast_ok_def)
    then obtain w v1 where v1: "handle_local G lb u1 = Inr (fast_answered v1)" "dw_len w = win_len u1" "dw_first w = win_start u1"
        and adv: "advanced G (add_bundle ?f (map_of_nilable (fb_bundle lb)) ?s) (local_absorbed lb u1 w) v1"
      by blast
    have v1': "v = fast_answered v1" using v v1(1) u1(1) by simp
    obtain out where out: "up_out v1 = up_out u @ skipped_outs ?f u @ Broadcast lb # out"
        "\<forall>m \<in> set out. deliverable (up_heap v1) m \<and> timely (local_absorbed lb u1 w) v1 m"
      using advanced_sends [OF adv] u1(9) by auto
    have tm: "timely u v m" if "timely (local_absorbed lb u1 w) v1 m" for m
      using that v1(3) u1(5) by (simp add: timely_def v1')
    have "deliverable (up_heap v) m \<and> timely u v m" if "m \<in> set (skipped_outs ?f u @ Broadcast lb # out)" for m
    proof -
      have "m \<in> set out \<or> m = Broadcast lb \<or> (\<exists>b. m = Broadcast b)"
        using that by (auto simp: skipped_outs_def skip_outs_def split: if_splits)
      then show ?thesis
      proof (elim disjE)
        assume "m \<in> set out"
        then have "deliverable (up_heap v1) m" "timely u v m" using out(2) tm by blast+
        then show ?thesis by (simp add: v1' fast_answered_def Let_def)
      qed (auto simp: timely_def)
    qed
    moreover have "\<exists>rs. up_out v = up_out v1 @ rs \<and> (\<forall>m \<in> set rs. deliverable (up_heap v) m \<and> timely u v m)"
      by (auto simp: v1' fast_answered_def Let_def timely_def)
    ultimately have "\<exists>out. up_out v = up_out u @ out \<and> (\<forall>m \<in> set out. deliverable (up_heap v) m \<and> timely u v m)"
      using out(1) by (metis Un_iff append.assoc set_append)
    then show ?thesis using advancedD [OF adv] advanced_news [OF adv] u1 v1(2) v1' False
      by (simp add: new_bundles_def) (simp add: local_absorbed_def)
  qed
  then show "broadcasts (up_out v) = broadcasts (up_out u) @ new_bundles lb u"
    and "up_params v = up_params u" and "win_len v = win_len u"
    and "up_skip v = (if ignored lb u then up_skip u else 0)"
    and "up_global v = (if ignored lb u then up_global u else max (up_global u) (fb_frame lb))"
    and "\<exists>out. up_out v = up_out u @ out \<and> (\<forall>m \<in> set out. deliverable (up_heap v) m \<and> timely u v m)"
    by blast+
qed

end

section \<open>The frame an engine joins on\<close>

definition bundle_of :: "engine_id \<Rightarrow> 'e all_events \<Rightarrow> 'e frame_bundle \<Rightarrow> bool" where
  "bundle_of i a b \<longleftrightarrow> fb_bundle b = Some (fmupd i a fmempty)"

definition announces :: "engine_id \<Rightarrow> 'e frame_bundle \<Rightarrow> bool" where
  "announces me b \<longleftrightarrow> (\<exists>i a. fmlookup (map_of_nilable (fb_bundle b)) i = Some a \<and> EngineJoined me \<in> set (ae_engine a))"

definition noted :: "engine_id \<Rightarrow> int \<Rightarrow> 'e frame_bundle \<Rightarrow> int \<Rightarrow> int" where
  "noted me lo rb sk = (if lo < fb_frame rb \<and> sk = -1 \<and> announces me rb then fb_frame rb else sk)"

lemma each_note:
  assumes "nonneg_ids eid (fmdom' (map_of_nilable (fb_bundle rb)))"
  shows "each_engine (fb_bundle rb) (\<lambda>_. note_joined me f) sk = Inr (if announces me rb then f else sk)"
proof -
  have "fold_res (\<lambda>k. note_joined me f (ae_engine (bundle_get b k))) ks sk =
        Inr (if \<exists>k \<in> set ks. EngineJoined me \<in> set (ae_engine (bundle_get b k)) then f else sk)" for b :: "'a event_bundle" and ks
    by (induction ks arbitrary: sk) (auto simp: note_joined_eq)
  moreover have "announces me rb \<longleftrightarrow>
      (\<exists>k \<in> fmdom' (map_of_nilable (fb_bundle rb)). EngineJoined me \<in> set (ae_engine (bundle_get (fb_bundle rb) k)))"
    by (force simp: announces_def bundle_get_def fmlookup_dom'_iff)
  ultimately show ?thesis using assms by (simp add: each_engine_def each_eq_fold)
qed

context game_iface
begin

lemma remote_one_skip:
  assumes u: "upd_inv G s u" and f: "fits s (win_start u) (win_len u) (fb_frame rb) (fb_bundle rb)"
    and v: "remote_one rb u = Inr v"
  shows "up_skip v = noted (ep_id (up_params u)) (win_start u) rb (up_skip u)"
proof -
  note ff = f [unfolded fits_def]
  obtain w where w: "for_le (i32 (up_global u + 1)) (fb_frame rb) init_frame_data u = Inr (u\<lparr>up_window := w\<rparr>)"
    using open_frames [OF u, of "fb_frame rb"] ff by auto
  have ab: "up_skip x' = up_skip x" if "absorb_at f b x = Inr x'" for f b and x x' :: "('e, 'g) updater"
    using that by (auto simp: absorb_at_def seq_Inr_iff)
  show ?thesis
    using v ff w each_note [of rb "ep_id (up_params u)" "fb_frame rb" "-1"]
    by (auto simp: remote_one_def Let_def noted_def dest!: ab split: if_splits)
qed

lemma group_skip:
  assumes "upd_inv G s u" and "fits_all s (win_start u) (win_len u) rbs" and "fold_res remote_one rbs u = Inr v"
  shows "up_skip v = fold (noted (ep_id (up_params u)) (win_start u)) rbs (up_skip u)"
  using assms
proof (induction rbs arbitrary: s u)
  case (Cons rb rbs)
  show ?case
  proof (cases "fb_frame rb \<le> win_start u")
    case True
    then have "accept (win_start u) rb s = s" "remote_one rb u = Inr u" "noted (ep_id (up_params u)) (win_start u) rb (up_skip u) = up_skip u"
      by (simp_all add: accept_def remote_one_drop noted_def)
    then show ?thesis using Cons by simp
  next
    case False
    then have fit: "fits s (win_start u) (win_len u) (fb_frame rb) (fb_bundle rb)"
      using Cons.prems(2) by simp
    obtain w sk where one: "remote_one rb u = Inr ((extend_to (fb_frame rb) u)\<lparr>up_window := w, up_skip := sk\<rparr>)"
        "dw_first w = win_start u" "dw_len w = win_len u"
        "upd_inv G (accept (win_start u) rb s) ((extend_to (fb_frame rb) u)\<lparr>up_window := w, up_skip := sk\<rparr>)"
      using remote_one_ok [OF Cons.prems(1) fit] False by (auto simp: Let_def accept_def)
    define u1 where "u1 = (extend_to (fb_frame rb) u)\<lparr>up_window := w, up_skip := sk\<rparr>"
    have u1: "up_params u1 = up_params u" "win_start u1 = win_start u" "win_len u1 = win_len u"
      using one(2,3) by (simp_all add: u1_def)
    have "up_skip u1 = noted (ep_id (up_params u)) (win_start u) rb (up_skip u)"
      by (rule remote_one_skip [OF Cons.prems(1) fit]) (simp add: one(1) u1_def)
    moreover have "up_skip v = fold (noted (ep_id (up_params u1)) (win_start u1)) rbs (up_skip u1)"
      by (rule Cons.IH [of "accept (win_start u) rb s"])
        (use one(1,4) Cons.prems(2,3) u1 in \<open>auto simp: u1_def [symmetric]\<close>)
    ultimately show ?thesis by (simp add: u1)
  qed
qed simp

lemma remote_news:
  assumes u: "run_inv G s u" and ok: "fits_all s (win_start u) (win_len u) rbs" and v: "handle_remote G rbs u = Inr v"
  shows "broadcasts (up_out v) = broadcasts (up_out u)"
    and "up_params v = up_params u" and "win_len v = win_len u"
    and "up_skip v = fold (noted (ep_id (up_params u)) (win_start u)) rbs (up_skip u)"
    and "up_global u \<le> up_global v"
    and "\<exists>out. up_out v = up_out u @ out \<and> (\<forall>m \<in> set out. deliverable (up_heap v) m \<and> timely u v m)"
proof -
  obtain x' where x': "absorbed u x'" "advanced G (fold (accept (win_start u)) rbs s) x' v" "fold_res remote_one rbs u = Inr x'"
    using handle_remote_ok [OF run_invD(1) [OF u] ok] v by auto
  have "timely x' v m \<Longrightarrow> timely u v m" for m using absorbedD(1) [OF x'(1)] by (simp add: timely_def)
  then show "\<exists>out. up_out v = up_out u @ out \<and> (\<forall>m \<in> set out. deliverable (up_heap v) m \<and> timely u v m)"
    using advanced_sends [OF x'(2)] absorbedD(4) [OF x'(1)] by auto
  show "broadcasts (up_out v) = broadcasts (up_out u)"
    and "up_params v = up_params u" and "win_len v = win_len u"
    and "up_skip v = fold (noted (ep_id (up_params u)) (win_start u)) rbs (up_skip u)"
    and "up_global u \<le> up_global v"
    using advancedD [OF x'(2)] advanced_news [OF x'(2)] absorbedD [OF x'(1)]
      group_skip [OF settledD(1) [OF run_invD(1) [OF u]] ok x'(3)] by auto
qed

end

section \<open>Known engines\<close>

text \<open>Bundles of the game carry the events of one engine, and announce engines but drop none.\<close>

definition only_joins :: "'e all_events \<Rightarrow> bool" where
  "only_joins a \<longleftrightarrow> (\<forall>e \<in> set (ae_engine a). \<exists>i. e = EngineJoined i)"

definition joining_map :: "'e bundle_map \<Rightarrow> bool" where
  "joining_map b \<longleftrightarrow> (\<forall>i a. fmlookup b i = Some a \<longrightarrow> only_joins a)"

lemma fold_joins:
  assumes "\<forall>e \<in> set es. \<exists>i. e = EngineJoined i"
  shows "fmdom' (fold event_on_map es m) = fmdom' m \<union> {i. EngineJoined i \<in> set es}"
  using assms by (induction es arbitrary: m) auto

lemma frame_engines_joins:
  assumes "joining_map b"
  shows "fmdom' (frame_engines b m) =
    fmdom' m \<union> {i. \<exists>k a. fmlookup b k = Some a \<and> EngineJoined i \<in> set (ae_engine a)}"
proof -
  have oj: "\<forall>e \<in> set (ae_engine (bundle_get (Some b) k)). \<exists>i. e = EngineJoined i" for k
    using assms by (auto simp: joining_map_def only_joins_def bundle_get_def no_events_def split: option.splits)
  have "fmdom' (fold (\<lambda>k. fold event_on_map (ae_engine (bundle_get (Some b) k))) ks m) =
        fmdom' m \<union> {i. \<exists>k \<in> set ks. EngineJoined i \<in> set (ae_engine (bundle_get (Some b) k))}" for ks
    by (induction ks arbitrary: m) (auto simp: fold_joins [OF oj])
  moreover have "(\<exists>k \<in> fmdom' b. EngineJoined i \<in> set (ae_engine (bundle_get (Some b) k))) \<longleftrightarrow>
      (\<exists>k a. fmlookup b k = Some a \<and> EngineJoined i \<in> set (ae_engine a))" for i
    by (force simp: bundle_get_def fmlookup_dom'_iff)
  ultimately show ?thesis by (simp add: frame_engines_def)
qed

text \<open>Engine \<open>i\<close> belongs to the game from frame \<open>j\<close> on.\<close>

definition joined :: "engine_id \<Rightarrow> int \<Rightarrow> ('e, 'g) history \<Rightarrow> bool" where
  "joined i j s \<longleftrightarrow> j = hi_base s \<and> i \<in> fmdom' (hi_engines s) \<or>
     hi_base s < j \<and> (\<exists>k a. fmlookup (hi_bundles s j) k = Some a \<and> EngineJoined i \<in> set (ae_engine a))"

definition history_joins :: "('e, 'g) history \<Rightarrow> bool" where
  "history_joins s \<longleftrightarrow> (\<forall>f. joining_map (hi_bundles s f)) \<and>
     (hi_pending s \<longrightarrow> hi_bundles s (hi_base s + 1) = fmempty)"

lemma engines_step:
  assumes "history_joins s" and "hi_base s < f"
  shows "fmdom' (fst (state_at G s f)) = fmdom' (fst (state_at G s (f - 1))) \<union>
    {i. \<exists>k a. fmlookup (hi_bundles s f) k = Some a \<and> EngineJoined i \<in> set (ae_engine a)}"
proof (cases "hi_pending s \<and> f = hi_base s + 1")
  case True
  then show ?thesis using assms by (simp add: state_at_pending state_at_base history_joins_def)
next
  case False
  then have "state_at G s f = frame_step G (hi_bundles s f) (state_at G s (f - 1))"
    using assms(2) by (intro state_at_step) auto
  then show ?thesis using assms(1) by (simp add: frame_step_def Let_def frame_engines_joins history_joins_def)
qed

lemma joined_known:
  assumes "history_joins s" and "joined i j s" and "j \<le> f"
  shows "i \<in> fmdom' (fst (state_at G s f))"
  using assms(3)
proof (induction f rule: int_ge_induct)
  case base
  then show ?case using assms(2) engines_step [OF assms(1)] by (auto simp: joined_def state_at_base)
next
  case (step f)
  have "hi_base s < f + 1" using assms(2) step.hyps by (auto simp: joined_def)
  from engines_step [OF assms(1) this, of G] step.IH show ?case by auto
qed

section \<open>The updater among others\<close>

text \<open>
  \<open>own\<close> is what the updater has sent to the others, \<open>heard\<close> what it was given of theirs. Whatever
  its history holds comes from one of the two; \<open>n\<close> is a lower bound for the frames of the local
  bundles still to come.
\<close>

abbreviation own :: "('e, 'g) updater \<Rightarrow> 'e frame_bundle list" where
  "own u \<equiv> broadcasts (up_out u)"

definition comes_from :: "('e, 'g) history \<Rightarrow> 'e frame_bundle set \<Rightarrow> bool" where
  "comes_from s B \<longleftrightarrow> (\<forall>f i a. fmlookup (hi_bundles s f) i = Some a \<longrightarrow> (\<exists>b \<in> B. fb_frame b = f \<and> bundle_of i a b))"

text \<open>Only the host announces engines; its id is a constant of \<open>NewNetEngine\<close>.\<close>

definition host_id :: engine_id where
  "host_id = EngineId 1234"

definition sound_events :: "engine_id \<Rightarrow> 'e all_events \<Rightarrow> bool" where
  "sound_events i a \<longleftrightarrow> only_joins a \<and> (i = host_id \<or> ae_engine a = [])"

definition sound_bundle :: "'e frame_bundle \<Rightarrow> bool" where
  "sound_bundle b \<longleftrightarrow> (\<exists>i a. bundle_of i a b \<and> 0 \<le> eid i \<and> sound_events i a)"

definition origin :: "'e frame_bundle \<Rightarrow> engine_id" where
  "origin b = hd (keys (map_of_nilable (fb_bundle b)))"

lemma bundle_ofD:
  assumes "bundle_of i a b"
  shows "origin b = i" and "map_of_nilable (fb_bundle b) = fmupd i a fmempty" and "bundle_of j c b \<longleftrightarrow> j = i \<and> c = a"
proof -
  have "fmupd i a fmempty = fmupd j c fmempty \<longleftrightarrow> j = i \<and> c = a"
    by (metis fmupd_lookup fmempty_lookup option.distinct(1) option.inject)
  with assms show "origin b = i" "map_of_nilable (fb_bundle b) = fmupd i a fmempty" "bundle_of j c b \<longleftrightarrow> j = i \<and> c = a"
    by (auto simp: bundle_of_def origin_def)
qed

definition membership :: "engine_id \<Rightarrow> int \<Rightarrow> ('e, 'g) history \<Rightarrow> ('e, 'g) updater \<Rightarrow> bool" where
  "membership me n s u \<longleftrightarrow> (up_skip u = -1 \<or> 0 \<le> up_skip u) \<and> (up_skip u \<noteq> 0 \<longrightarrow> own u = []) \<and>
     (0 < up_skip u \<longrightarrow> hi_base s < up_skip u \<and> joined me (up_skip u) s) \<and>
     (up_skip u = 0 \<longrightarrow> hi_base s < n \<and> (\<exists>j \<le> n. joined me j s))"

text \<open>Bundles for frames that are not final are in the history.\<close>

definition kept :: "('e, 'g) history \<Rightarrow> int \<Rightarrow> 'e frame_bundle list \<Rightarrow> bool" where
  "kept s lo bs \<longleftrightarrow> (\<forall>b \<in> set bs. lo < fb_frame b \<longrightarrow> origin b \<in> fmdom' (hi_bundles s (fb_frame b)))"

lemma kept_simps [simp]: "kept s lo (bs @ cs) \<longleftrightarrow> kept s lo bs \<and> kept s lo cs" "kept s lo []"
  by (auto simp: kept_def)

definition upd_ok :: "('e, 'g) game_ops \<Rightarrow> engine_id \<Rightarrow> int \<Rightarrow> 'e frame_bundle list \<Rightarrow>
  ('e, 'g) history \<Rightarrow> ('e, 'g) updater \<Rightarrow> bool" where
  "upd_ok G me n heard s u \<longleftrightarrow> run_inv G s u \<and> up_fast u = [] \<and> ep_id (up_params u) = me \<and> 0 \<le> eid me \<and>
     (\<forall>b \<in> set (own u @ heard). sound_bundle b) \<and> (\<forall>b \<in> set (own u). origin b = me \<and> fb_frame b < n) \<and>
     sorted_wrt (<) (map fb_frame (own u)) \<and> (\<forall>b \<in> set heard. origin b \<noteq> me) \<and>
     comes_from s (set (own u @ heard)) \<and> membership me n s u \<and> kept s (win_start u) (own u @ heard) \<and>
     (own u @ heard \<noteq> [] \<longrightarrow> maximal G s u)"

lemma upd_okD:
  assumes "upd_ok G me n heard s u"
  shows "run_inv G s u" and "up_fast u = []" and "ep_id (up_params u) = me" and "0 \<le> eid me"
    and "b \<in> set (own u) \<or> b \<in> set heard \<Longrightarrow> sound_bundle b"
    and "b \<in> set (own u) \<Longrightarrow> origin b = me" and "b \<in> set (own u) \<Longrightarrow> fb_frame b < n"
    and "sorted_wrt (<) (map fb_frame (own u))" and "b \<in> set heard \<Longrightarrow> origin b \<noteq> me"
    and "comes_from s (set (own u @ heard))" and "membership me n s u" and "kept s (win_start u) (own u @ heard)"
    and "own u @ heard \<noteq> [] \<Longrightarrow> maximal G s u"
  using assms by (auto simp: upd_ok_def)

lemma comes_from_joins:
  assumes "comes_from s B" and "\<forall>b \<in> B. sound_bundle b" and "hi_pending s \<Longrightarrow> hi_bundles s (hi_base s + 1) = fmempty"
  shows "history_joins s"
proof -
  have "only_joins a" if l: "fmlookup (hi_bundles s f) i = Some a" for f i a
  proof -
    obtain b where "b \<in> B" "bundle_of i a b" using assms(1) l unfolding comes_from_def by blast
    with assms(2) show ?thesis by (auto simp: sound_bundle_def sound_events_def bundle_ofD(3))
  qed
  with assms(3) show ?thesis by (simp add: history_joins_def joining_map_def)
qed

lemma upd_ok_joins: "upd_ok G me n heard s u \<Longrightarrow> history_joins s"
  using upd_invD(5) [OF settledD(1) [OF run_invD(1)], of G s u]
  by (intro comes_from_joins [where B = "set (own u @ heard)"]) (auto simp: upd_ok_def history_ok_def)

text \<open>An engine's own frame stays open until it has sent its bundle.\<close>

lemma own_frame_open:
  assumes u: "upd_ok G me n heard s u" and j: "joined me j s" "j \<le> f" "hi_base s < f"
    and f: "n \<le> f \<or> own u = []"
  shows "win_start u < f" and "me \<notin> fmdom' (hi_bundles s f)"
proof -
  show no: "me \<notin> fmdom' (hi_bundles s f)"
  proof
    assume "me \<in> fmdom' (hi_bundles s f)"
    then obtain a b where b: "b \<in> set (own u @ heard)" "fb_frame b = f" "bundle_of me a b"
      using upd_okD(10) [OF u] unfolding comes_from_def fmlookup_dom'_iff by blast
    then show False using upd_okD(7,9) [OF u] f bundle_ofD(1) [OF b(3)] by fastforce
  qed
  have "me \<in> fmdom' (fst (state_at G s f))" using joined_known [OF upd_ok_joins [OF u] j(1,2)] .
  then have "\<not> complete G s f" using no by (auto simp: complete_def)
  then show "win_start u < f" using settledD(3) [OF run_invD(1) [OF upd_okD(1) [OF u]] j(3)] by force
qed

section \<open>Growing histories\<close>

definition grows :: "('e, 'g) history \<Rightarrow> ('e, 'g) history \<Rightarrow> bool" where
  "grows s t \<longleftrightarrow> hi_base t = hi_base s \<and> hi_engines t = hi_engines s \<and> hi_game t = hi_game s \<and>
     (\<forall>f i a. fmlookup (hi_bundles s f) i = Some a \<longrightarrow> fmlookup (hi_bundles t f) i = Some a)"

lemma kept_grows:
  assumes "kept s lo bs" and "grows s t" and "lo \<le> hi"
  shows "kept t hi bs"
  using assms unfolding kept_def grows_def fmlookup_dom'_iff by (meson order.strict_trans1)

lemma grows_refl [simp]: "grows s s"
  by (simp add: grows_def)

lemma grows_trans: "grows s t \<Longrightarrow> grows t r \<Longrightarrow> grows s r"
  by (simp add: grows_def)

lemma joined_grows: "joined i j s \<Longrightarrow> grows s t \<Longrightarrow> joined i j t"
  unfolding joined_def grows_def by metis

lemma add_bundle_one:
  "fmlookup (hi_bundles (add_bundle f (fmupd i a fmempty) s) k) j =
   (if k = f \<and> j = i then Some a else fmlookup (hi_bundles s k) j)"
  by simp

lemma add_bundle_grows:
  "i \<notin> fmdom' (hi_bundles s f) \<Longrightarrow> grows s (add_bundle f (fmupd i a fmempty) s)"
  by (auto simp: grows_def fmlookup_dom'_iff)

lemma joined_history_lookup:
  "fmlookup (hi_bundles (joined_history f u s) k) i =
   (if 0 < up_skip u \<and> up_skip u \<le> k \<and> k < f \<and> i = ep_id (up_params u) then Some no_events
    else fmlookup (hi_bundles s k) i)"
proof -
  have "fmlookup (hi_bundles (fold (\<lambda>k. add_bundle k (dummy_map me)) ks s) k) i =
    (if k \<in> set ks \<and> i = me then Some no_events else fmlookup (hi_bundles s k) i)" for ks me k i
    by (induction ks arbitrary: s) (auto simp: dummy_map_def)
  then show ?thesis by (simp add: joined_history_def join_history_def)
qed

lemma accept_local_lookup:
  assumes "bundle_of (ep_id (up_params u)) a y" and "\<not> ignored y u"
  shows "fmlookup (hi_bundles (accept_local y u s) k) i =
   (if i = ep_id (up_params u) \<and> k = fb_frame y then Some a
    else if i = ep_id (up_params u) \<and> 0 < up_skip u \<and> up_skip u \<le> k \<and> k < fb_frame y then Some no_events
    else fmlookup (hi_bundles s k) i)"
  using assms(2) bundle_ofD(2) [OF assms(1)] by (auto simp: accept_local_def joined_history_lookup)

section \<open>A local bundle\<close>

text \<open>The bounds the code leaves to its callers: the frame lies in the window, and an engine that has
  just learned the frame it joins on is not ahead of what it has heard.\<close>

definition local_fits :: "'e frame_bundle \<Rightarrow> ('e, 'g) updater \<Rightarrow> bool" where
  "local_fits y u \<longleftrightarrow> ignored y u \<or>
     fb_frame y < win_start u + win_len u \<and> fb_frame y + win_len u \<le> max_i32 \<and>
     (0 < up_skip u \<longrightarrow> fb_frame y \<le> up_global u + 1)"

lemma upd_ok_not_ignored:
  assumes "upd_ok G me n heard s u" and "n \<le> fb_frame y" and "up_skip u = 0"
  shows "\<not> ignored y u"
  using assms run_invD(2) [OF upd_okD(1) [OF assms(1)]] upd_okD(11) [OF assms(1)]
  by (auto simp: ignored_def membership_def)

lemma upd_ok_turn:
  assumes u: "upd_ok G me n heard s u" and f: "n \<le> f" and i: "up_skip u = 0 \<or> 0 < up_skip u \<and> up_skip u \<le> f"
  shows "win_start u < f" and "me \<notin> fmdom' (hi_bundles s f)"
    and "0 < up_skip u \<Longrightarrow> up_skip u \<le> k \<Longrightarrow> win_start u < up_skip u \<and> me \<notin> fmdom' (hi_bundles s k)"
    and "hi_base s < f" and "\<exists>j \<le> f. joined me j s"
proof -
  note m = upd_okD(11) [OF u, unfolded membership_def]
  obtain j where j: "joined me j s" "j \<le> f" "hi_base s < f" "0 < up_skip u \<longrightarrow> j = up_skip u"
    using m i f by (metis order.strict_trans2 order.trans less_irrefl)
  show "win_start u < f" "me \<notin> fmdom' (hi_bundles s f)"
    using own_frame_open [OF u j(1-3)] f by auto
  show "hi_base s < f" "\<exists>j \<le> f. joined me j s" using j by auto
  show "win_start u < up_skip u \<and> me \<notin> fmdom' (hi_bundles s k)" if k: "0 < up_skip u" "up_skip u \<le> k"
    using own_frame_open [OF u, of "up_skip u" "up_skip u"] own_frame_open [OF u, of "up_skip u" k] k m by auto
qed

lemma upd_ok_local:
  assumes u: "upd_ok G me n heard s u" and y: "bundle_of me a y" "n \<le> fb_frame y" and fit: "local_fits y u"
  shows "local_ok G y s u"
proof (cases "ignored y u")
  case False
  let ?f = "fb_frame y" and ?s = "joined_history (fb_frame y) u s"
  note m = upd_okD(11) [OF u, unfolded membership_def] and me = upd_okD(3) [OF u]
  have sk: "up_skip u = 0 \<or> 0 < up_skip u \<and> up_skip u \<le> ?f" using m False by (auto simp: ignored_def)
  note t = upd_ok_turn [OF u y(2) sk]
  have lk: "fmlookup (hi_bundles ?s ?f) i = fmlookup (hi_bundles s ?f) i" for i by (simp add: joined_history_lookup)
  have "fits ?s (win_start u) (win_len u) ?f (fb_bundle y)"
    using t(1,2) fit False bundle_ofD(2) [OF y(1)] upd_okD(4) [OF u]
    by (auto simp: fits_def local_fits_def disjoint_bundles_def nonneg_ids_def fmlookup_dom'_iff lk)
  moreover have "join_ok ?f s u" if "0 < up_skip u"
  proof -
    have "hi_base s + 1 \<noteq> up_skip u" if p: "hi_pending s"
      using upd_ok_joins [OF u] p m \<open>0 < up_skip u\<close> by (auto simp: history_joins_def joined_def)
    then show ?thesis
      using that t(3) m fit False upd_okD(4) [OF u] me by (force simp: join_ok_def local_fits_def)
  qed
  ultimately show ?thesis using False sk upd_okD(2) [OF u] by (auto simp: local_ok_def Let_def fast_ok_def)
qed (simp add: local_ok_def)

lemma dummy_props [simp]:
  "bundle_of i no_events \<lparr>fb_frame = k, fb_bundle = dummy_bundle i\<rparr>" "sound_events i no_events"
  by (simp_all add: bundle_of_def dummy_bundle_def sound_events_def only_joins_def no_events_def)

lemma new_bundles_set:
  "set (new_bundles y u) = (if ignored y u then {} else insert y
     {\<lparr>fb_frame = k, fb_bundle = dummy_bundle (ep_id (up_params u))\<rparr> | k. 0 < up_skip u \<and> up_skip u \<le> k \<and> k < fb_frame y})"
  by (auto simp: new_bundles_def skipped_outs_def)

lemma new_bundles_props:
  assumes "bundle_of me a y" and "ep_id (up_params u) = me" and "b \<in> set (new_bundles y u)"
  shows "origin b = me" and "sound_events me a \<Longrightarrow> 0 \<le> eid me \<Longrightarrow> sound_bundle b" and "fb_frame b \<le> fb_frame y"
    and "0 < up_skip u \<Longrightarrow> up_skip u \<le> fb_frame b" and "\<exists>c. bundle_of (origin b) c b"
proof -
  consider "b = y" "\<not> ignored y u" | k where "0 < up_skip u" "up_skip u \<le> k" "k < fb_frame y"
      "b = \<lparr>fb_frame = k, fb_bundle = dummy_bundle me\<rparr>"
    using assms(2,3) by (auto simp: new_bundles_set split: if_splits)
  then have "origin b = me \<and> (sound_events me a \<longrightarrow> 0 \<le> eid me \<longrightarrow> sound_bundle b) \<and> fb_frame b \<le> fb_frame y \<and>
      (0 < up_skip u \<longrightarrow> up_skip u \<le> fb_frame b) \<and> (\<exists>c. bundle_of (origin b) c b)"
  proof cases
    case 1
    then show ?thesis using assms(1) bundle_ofD(1) [OF assms(1)] by (auto simp: sound_bundle_def ignored_def)
  next
    case 2
    then have "bundle_of me no_events b" by simp
    with 2 bundle_ofD(1) [OF this] show ?thesis
      by (auto simp: sound_bundle_def bundle_ofD(3) [OF dummy_props(1)] intro!: exI [of _ me])
  qed
  then show "origin b = me" "sound_events me a \<Longrightarrow> 0 \<le> eid me \<Longrightarrow> sound_bundle b" "fb_frame b \<le> fb_frame y"
    "0 < up_skip u \<Longrightarrow> up_skip u \<le> fb_frame b" "\<exists>c. bundle_of (origin b) c b"
    by auto
qed

lemma new_bundles_sorted:
  "sorted_wrt (<) (map fb_frame (new_bundles y u))"
proof -
  have "sorted_wrt (<) [lo..hi - 1 :: int]" for lo hi by simp
  then show ?thesis
    by (auto simp: new_bundles_def skipped_outs_def comp_def sorted_wrt_append)
qed

context game_iface
begin

lemma upd_ok_local_step:
  assumes u: "upd_ok G me n heard s u" and y: "bundle_of me a y" "n \<le> fb_frame y" "sound_events me a"
    and fit: "local_fits y u" and v: "handle_local G y u = Inr v"
  shows "upd_ok G me (fb_frame y + 1) heard (accept_local y u s) v"
    and "own v = own u @ new_bundles y u" and "grows s (accept_local y u s)"
proof -
  let ?t = "accept_local y u s"
  have ok: "local_ok G y s u" by (rule upd_ok_local [OF u y(1,2) fit])
  note n = local_news [OF upd_okD(1) [OF u] ok v] and me = upd_okD(3) [OF u]
  have r: "run_inv G ?t v" "answers_waiting u v" using local_round [OF upd_okD(1) [OF u] ok] v by auto
  show "own v = own u @ new_bundles y u" by (rule n(1))
  have lk: "fmlookup (hi_bundles ?t k) i = Some c \<longleftrightarrow> fmlookup (hi_bundles s k) i = Some c \<or>
      (\<exists>b \<in> set (new_bundles y u). fb_frame b = k \<and> bundle_of i c b)" for k i c
  proof (cases "ignored y u")
    case True
    then show ?thesis by (simp add: accept_local_def new_bundles_set)
  next
    case False
    then have sk: "up_skip u = 0 \<or> 0 < up_skip u \<and> up_skip u \<le> fb_frame y"
      using upd_okD(11) [OF u] by (auto simp: ignored_def membership_def)
    note t = upd_ok_turn(2,3) [OF u y(2) sk]
    have y': "bundle_of (ep_id (up_params u)) a y" using y(1) me by simp
    have "(\<exists>b \<in> set (new_bundles y u). fb_frame b = k \<and> bundle_of i c b) \<longleftrightarrow>
        i = me \<and> (k = fb_frame y \<and> c = a \<or> 0 < up_skip u \<and> up_skip u \<le> k \<and> k < fb_frame y \<and> c = no_events)"
      using False by (auto simp: new_bundles_set me bundle_ofD(3) [OF y(1)] bundle_ofD(3) [OF dummy_props(1)])
    then show ?thesis using t fmdom'_notI
      by (auto simp: accept_local_lookup [OF y' False] me fmlookup_dom'_iff)
  qed
  have base: "hi_base ?t = hi_base s" "hi_engines ?t = hi_engines s" "hi_game ?t = hi_game s"
    by (simp_all add: accept_local_def add_bundle_def)
  show g: "grows s ?t" using lk base by (simp add: grows_def)
  have "comes_from ?t (set (own v @ heard))"
    using upd_okD(10) [OF u] lk unfolding comes_from_def n(1) by auto blast+
  moreover have "membership me (fb_frame y + 1) ?t v"
  proof (cases "ignored y u")
    case True
    then show ?thesis using upd_okD(11) [OF u] y(2) upd_ok_not_ignored [OF u y(2)] n
      by (auto simp: membership_def accept_local_def new_bundles_def)
  next
    case False
    then have sk: "up_skip u = 0 \<or> 0 < up_skip u \<and> up_skip u \<le> fb_frame y"
      using upd_okD(11) [OF u] by (auto simp: ignored_def membership_def)
    obtain j where "j \<le> fb_frame y" "joined me j s" "hi_base s < fb_frame y"
      using upd_ok_turn(4,5) [OF u y(2) sk] by blast
    moreover from this have "joined me j ?t" using g joined_grows by blast
    ultimately show ?thesis using False n(4) base by (auto simp: membership_def intro!: exI [of _ j])
  qed
  moreover have "sorted_wrt (<) (map fb_frame (own v))"
  proof (cases "up_skip u = 0")
    case True
    then have "new_bundles y u = [y]" using upd_ok_not_ignored [OF u y(2)] by (simp add: new_bundles_def skipped_outs_def)
    then show ?thesis using upd_okD(7,8) [OF u] y(2) by (fastforce simp: n(1) sorted_wrt_append)
  next
    case False
    then have "own u = []" using upd_okD(11) [OF u] by (simp add: membership_def)
    then show ?thesis using new_bundles_sorted [of y u] by (simp add: n(1))
  qed
  moreover have "up_fast v = []" using r(2) upd_okD(2) [OF u] by (simp add: answers_waiting_def)
  moreover have "\<forall>b \<in> set (own v @ heard). sound_bundle b" "\<forall>b \<in> set (own v). origin b = me \<and> fb_frame b < fb_frame y + 1"
    using upd_okD(5-7) [OF u] new_bundles_props(1-3) [OF y(1) me] y(2,3) upd_okD(4) [OF u] by (force simp: n(1))+
  moreover have sent: "kept ?t lo (new_bundles y u)" for lo
    using lk new_bundles_props(5) [OF y(1) me] unfolding kept_def fmlookup_dom'_iff by blast
  moreover have "win_start u \<le> win_start v" using local_round [OF upd_okD(1) [OF u] ok] v by auto
  moreover from this have "kept ?t (win_start v) (own v @ heard)"
    using kept_grows [OF upd_okD(12) [OF u] g] sent by (simp add: n(1))
  moreover have "maximal G ?t v" if "own v @ heard \<noteq> []"
  proof (cases "ignored y u")
    case True
    then have "v = u" "?t = s" using handle_local_ignored [of u y] v by (simp_all add: ignored_def accept_local_def)
    then show ?thesis using upd_okD(13) [OF u] that by simp
  next
    case False
    then show ?thesis using local_round [OF upd_okD(1) [OF u] ok] v by auto
  qed
  ultimately show "upd_ok G me (fb_frame y + 1) heard ?t v"
    using r(1) upd_okD(3,4,9) [OF u] n(2) by (simp add: upd_ok_def)
qed

end

section \<open>A group of remote bundles\<close>

definition slot_key :: "'e frame_bundle \<Rightarrow> int \<times> engine_id" where
  "slot_key b = (fb_frame b, origin b)"

definition remote_fits :: "'e frame_bundle list \<Rightarrow> ('e, 'g) updater \<Rightarrow> bool" where
  "remote_fits rbs u \<longleftrightarrow> (\<forall>b \<in> set rbs. win_start u < fb_frame b \<longrightarrow>
     fb_frame b < win_start u + win_len u \<and> fb_frame b + win_len u \<le> max_i32)"

lemma fits_all_fresh:
  assumes "comes_from s B" and "\<forall>b \<in> set rbs. sound_bundle b" and "distinct (map slot_key rbs)"
    and "slot_key ` set rbs \<inter> slot_key ` B = {}"
    and "\<forall>b \<in> set rbs. lo < fb_frame b \<longrightarrow> fb_frame b < lo + len \<and> fb_frame b + len \<le> max_i32"
  shows "fits_all s lo len rbs \<and> comes_from (fold (accept lo) rbs s) (B \<union> set rbs) \<and> grows s (fold (accept lo) rbs s) \<and>
    (\<forall>b \<in> set rbs. \<forall>i a. lo < fb_frame b \<longrightarrow> bundle_of i a b \<longrightarrow>
       fmlookup (hi_bundles (fold (accept lo) rbs s) (fb_frame b)) i = Some a)"
  using assms
proof (induction rbs arbitrary: s B)
  case (Cons b rbs)
  obtain i a where b: "bundle_of i a b" "0 \<le> eid i" using Cons.prems(2) by (auto simp: sound_bundle_def)
  let ?s = "accept lo b s"
  have no: "i \<notin> fmdom' (hi_bundles s (fb_frame b))"
  proof
    assume "i \<in> fmdom' (hi_bundles s (fb_frame b))"
    then obtain c x where x: "x \<in> B" "fb_frame x = fb_frame b" "bundle_of i c x"
      using Cons.prems(1) unfolding comes_from_def fmlookup_dom'_iff by blast
    then have "slot_key x = slot_key b" using bundle_ofD(1) [OF b(1)] bundle_ofD(1) [OF x(3)] by (simp add: slot_key_def)
    then have "slot_key b \<in> slot_key ` B" using x(1) by (metis imageI)
    then show False using Cons.prems(4) by auto
  qed
  have acc: "?s = (if fb_frame b \<le> lo then s else add_bundle (fb_frame b) (fmupd i a fmempty) s)"
    using bundle_ofD(2) [OF b(1)] by (simp add: accept_def)
  have fit: "fb_frame b \<le> lo \<or> fits s lo len (fb_frame b) (fb_bundle b)"
    using no Cons.prems(5) b bundle_ofD(2) [OF b(1)] by (auto simp: fits_def disjoint_bundles_def nonneg_ids_def)
  have g: "grows s ?s" using add_bundle_grows [OF no] by (simp add: acc)
  have cf: "comes_from ?s (insert b B)" using Cons.prems(1) b(1) unfolding comes_from_def acc by auto
  have "fits_all ?s lo len rbs \<and> comes_from (fold (accept lo) rbs ?s) (insert b B \<union> set rbs) \<and>
    grows ?s (fold (accept lo) rbs ?s) \<and>
    (\<forall>x \<in> set rbs. \<forall>i a. lo < fb_frame x \<longrightarrow> bundle_of i a x \<longrightarrow>
       fmlookup (hi_bundles (fold (accept lo) rbs ?s) (fb_frame x)) i = Some a)"
    by (rule Cons.IH [OF cf]) (use Cons.prems in auto)
  moreover have "lo < fb_frame b \<Longrightarrow> fmlookup (hi_bundles ?s (fb_frame b)) i = Some a" by (simp add: acc)
  ultimately show ?case using fit g grows_trans [OF g] bundle_ofD(3) [OF b(1)] by (auto simp: grows_def)
qed auto

lemma noted_cases:
  "fold (noted me lo) rbs sk = sk \<or>
   sk = -1 \<and> (\<exists>b \<in> set rbs. lo < fb_frame b \<and> announces me b \<and> fold (noted me lo) rbs sk = fb_frame b)"
proof (induction rbs arbitrary: sk)
  case (Cons b rbs)
  show ?case using Cons.IH [of "noted me lo b sk"] by (auto simp: noted_def split: if_splits)
qed simp

context game_iface
begin

lemma upd_ok_remote:
  assumes u: "upd_ok G me n heard s u" and b: "\<forall>b \<in> set rbs. sound_bundle b \<and> origin b \<noteq> me"
    and d: "distinct (map slot_key (heard @ rbs))" and f: "remote_fits rbs u"
  shows "fits_all s (win_start u) (win_len u) rbs"
    and "handle_remote G rbs u = Inr v \<Longrightarrow> upd_ok G me n (heard @ rbs) (fold (accept (win_start u)) rbs s) v"
    and "handle_remote G rbs u = Inr v \<Longrightarrow> own v = own u"
    and "grows s (fold (accept (win_start u)) rbs s)"
proof -
  let ?t = "fold (accept (win_start u)) rbs s"
  have "slot_key x \<noteq> slot_key y" if "x \<in> set rbs" "y \<in> set (own u)" for x y
    using b upd_okD(6) [OF u that(2)] that(1) by (auto simp: slot_key_def)
  moreover have "slot_key ` set heard \<inter> slot_key ` set rbs = {}" using d by simp
  ultimately have "slot_key ` set rbs \<inter> slot_key ` set (own u @ heard) = {}" by fastforce
  then have all: "fits_all s (win_start u) (win_len u) rbs \<and> comes_from ?t (set (own u @ heard) \<union> set rbs) \<and>
      grows s ?t \<and> (\<forall>b \<in> set rbs. \<forall>i a. win_start u < fb_frame b \<longrightarrow> bundle_of i a b \<longrightarrow>
         fmlookup (hi_bundles ?t (fb_frame b)) i = Some a)"
    using b d f upd_okD(10) [OF u] by (intro fits_all_fresh) (auto simp: remote_fits_def)
  show fa: "fits_all s (win_start u) (win_len u) rbs" and g: "grows s ?t" using all by blast+
  assume v: "handle_remote G rbs u = Inr v"
  note n = remote_news [OF upd_okD(1) [OF u] fa v] and ws = run_invD(4) [OF upd_okD(1) [OF u]]
  have r: "run_inv G ?t v" "answers_waiting u v" and ws': "win_start u \<le> win_start v" and mx: "maximal G ?t v"
    using remote_round [OF upd_okD(1) [OF u] fa] v by auto
  show "own v = own u" by (rule n(1))
  have "membership me n ?t v"
  proof -
    have m: "membership me n ?t u"
    proof -
      have "joined me j s \<Longrightarrow> joined me j ?t" for j using g joined_grows by blast
      moreover have "hi_base ?t = hi_base s" using g by (simp add: grows_def)
      ultimately show ?thesis using upd_okD(11) [OF u] unfolding membership_def by metis
    qed
    have me: "ep_id (up_params u) = me" by (rule upd_okD(3) [OF u])
    from noted_cases [of me "win_start u" rbs "up_skip u"] show ?thesis
    proof
      assume "fold (noted me (win_start u)) rbs (up_skip u) = up_skip u"
      then show ?thesis using m n me by (simp add: membership_def)
    next
      assume "up_skip u = -1 \<and> (\<exists>b \<in> set rbs. win_start u < fb_frame b \<and> announces me b \<and>
        fold (noted me (win_start u)) rbs (up_skip u) = fb_frame b)"
      then obtain x where x: "up_skip u = -1" "x \<in> set rbs" "win_start u < fb_frame x" "announces me x"
          "up_skip v = fb_frame x"
        using n(4) me by auto
      obtain i a where a: "bundle_of i a x" using b x(2) by (auto simp: sound_bundle_def)
      have "EngineJoined me \<in> set (ae_engine a)" using x(4) bundle_ofD(2) [OF a] by (auto simp: announces_def split: if_splits)
      moreover have "fmlookup (hi_bundles ?t (fb_frame x)) i = Some a" using all x(2,3) a by blast
      moreover have "hi_base s \<le> win_start u" using settled_order(1) [OF run_invD(1) [OF upd_okD(1) [OF u]]] .
      ultimately show ?thesis using x m n ws g by (auto simp: membership_def joined_def grows_def)
    qed
  qed
  moreover have "up_fast v = []" using r(2) upd_okD(2) [OF u] by (simp add: answers_waiting_def)
  moreover have "comes_from ?t (set (own v @ heard @ rbs))" using all by (simp add: n(1) Un_assoc)
  moreover have "kept ?t (win_start v) (own v @ heard)" using kept_grows [OF upd_okD(12) [OF u] g ws'] by (simp add: n(1))
  moreover have "kept ?t (win_start v) rbs"
    using all b ws' unfolding kept_def sound_bundle_def fmlookup_dom'_iff by (metis bundle_ofD(1) order.strict_trans1)
  ultimately show "upd_ok G me n (heard @ rbs) ?t v"
    using r(1) b mx upd_okD(3-9) [OF u] n(1,2) unfolding upd_ok_def by auto
qed

end

section \<open>What a communicator sends\<close>

fun spawned :: "nat \<Rightarrow> ('e, 'w) comm_out list \<Rightarrow> 'e frame_bundle list" where
  "spawned k [] = []"
| "spawned k (SpawnBundle j b # ms) = (if j = k then b # spawned k ms else spawned k ms)"
| "spawned k (m # ms) = spawned k ms"

fun raws :: "('e, 'w) comm_out list \<Rightarrow> 'e frame_bundle list" where
  "raws [] = []"
| "raws (SpawnRaw b # ms) = b # raws ms"
| "raws (RawInOrder bs # ms) = bs @ raws ms"
| "raws (m # ms) = raws ms"

fun engine_outs :: "('e, 'w) comm_out list \<Rightarrow> engine_event list" where
  "engine_outs [] = []"
| "engine_outs (EngineEventOut e # ms) = e # engine_outs ms"
| "engine_outs (m # ms) = engine_outs ms"

lemma spawned_append [simp]: "spawned k (xs @ ys) = spawned k xs @ spawned k ys"
  by (induction xs rule: spawned.induct) auto

lemma raws_append [simp]: "raws (xs @ ys) = raws xs @ raws ys"
  by (induction xs rule: raws.induct) auto

lemma engine_outs_append [simp]: "engine_outs (xs @ ys) = engine_outs xs @ engine_outs ys"
  by (induction xs rule: engine_outs.induct) auto

lemma spawn_all_logs [simp]:
  "spawned k (map (\<lambda>j. SpawnBundle j b) js) = replicate (count (mset js) k) b"
  "raws (map (\<lambda>j. SpawnBundle j b) js) = []" "sent_data k (map (\<lambda>j. SpawnBundle j b) js) = []"
  "engine_outs (map (\<lambda>j. SpawnBundle j b) js) = []"
  by (induction js) auto

lemma count_distinct: "distinct js \<Longrightarrow> count (mset js) k = (if k \<in> set js then 1 else 0)"
  by (simp add: distinct_count_atmost_1)

lemma boot_sends_logs [simp]:
  "spawned k (boot_sends enc bf pbs) = []" "raws (boot_sends enc bf pbs) = []" "engine_outs (boot_sends enc bf pbs) = []"
  by (simp add: boot_sends_def, induction pbs, auto)+

lemma boot_sends_Nil [simp]: "boot_sends enc bf [] = []"
  by (simp add: boot_sends_def)

lemma boot_sends_datas:
  "w \<in> set (sent_data k (boot_sends enc bf pbs)) \<Longrightarrow> w = the (enc (BootData bf)) \<and> (\<exists>pb \<in> set pbs. bm_frame bf = pb_start pb)"
  by (simp add: boot_sends_def, induction pbs) (auto split: if_splits)

lemma see_frame_same [simp]: "cm_host_conn (see_frame f c) = cm_host_conn c"
  by (simp add: see_frame_def)

text \<open>Two communicators that differ in what they have sent and how far they have looked only.\<close>

definition same_conns :: "('e, 'w) communicator \<Rightarrow> ('e, 'w) communicator \<Rightarrow> bool" where
  "same_conns c d \<longleftrightarrow> cm_conns d = cm_conns c \<and> cm_routines d = cm_routines c \<and> cm_waiting d = cm_waiting c \<and>
     cm_phase d = cm_phase c"

lemma same_conns_trans: "same_conns c d \<Longrightarrow> same_conns d e \<Longrightarrow> same_conns c e"
  by (simp add: same_conns_def)

lemma on_broadcast_logs:
  assumes "distinct (cm_conns c)"
  shows "same_conns c (on_broadcast b c)"
    and "spawned k (cm_out (on_broadcast b c)) = spawned k (cm_out c) @ (if k \<in> set (cm_conns c) then [b] else [])"
    and "raws (cm_out (on_broadcast b c)) = raws (cm_out c)" and "sent_data k (cm_out (on_broadcast b c)) = sent_data k (cm_out c)"
    and "engine_outs (cm_out (on_broadcast b c)) = engine_outs (cm_out c)"
    and "cm_bootstraps (on_broadcast b c) = cm_bootstraps c"
  using assms by (simp_all add: on_broadcast_def same_conns_def count_distinct Let_def)

lemma on_remote_logs:
  assumes "distinct (cm_conns c)"
  shows "same_conns c (on_remote b j c)"
    and "spawned k (cm_out (on_remote b j c)) = spawned k (cm_out c) @ (if k \<in> set (cm_conns c) \<and> k \<noteq> j then [b] else [])"
    and "raws (cm_out (on_remote b j c)) = raws (cm_out c) @ [b]" and "sent_data k (cm_out (on_remote b j c)) = sent_data k (cm_out c)"
    and "engine_outs (cm_out (on_remote b j c)) = engine_outs (cm_out c)"
    and "cm_bootstraps (on_remote b j c) = cm_bootstraps c"
  using assms by (simp_all add: on_remote_def same_conns_def count_distinct Let_def flip: mset_filter)

text \<open>Only connections that still wait for their bootstrap frame are sent data.\<close>

definition boots_only :: "nat \<Rightarrow> ('e, 'w) communicator \<Rightarrow> ('e, 'w) communicator \<Rightarrow> bool" where
  "boots_only k c d \<longleftrightarrow> set (cm_bootstraps d) \<subseteq> set (cm_bootstraps c) \<and>
     (k \<notin> pb_conn ` set (cm_bootstraps c) \<longrightarrow> sent_data k (cm_out d) = sent_data k (cm_out c))"

lemma boots_only_refl [simp]: "boots_only k c c"
  by (simp add: boots_only_def)

lemma boots_only_trans: "boots_only k c d \<Longrightarrow> boots_only k d e \<Longrightarrow> boots_only k c e"
  unfolding boots_only_def by (metis image_mono subsetD subset_trans)

lemma boot_sends_to: "k \<notin> pb_conn ` set pbs \<Longrightarrow> sent_data k (boot_sends enc bf pbs) = []"
  by (simp add: boot_sends_def, induction pbs) auto

lemma sweep_rest: "set (snd (sweep hit i xs)) \<subseteq> set xs"
  using sweep_mset [of hit i xs] by (metis set_mset_mono mset_subset_eq_add_right set_mset_mset)

definition boot_content :: "'g list \<Rightarrow> boot_frame \<Rightarrow> 'g boot_message" where
  "boot_content h bf = \<lparr>bm_frame = bf_frame bf, bm_game = h ! the (bf_game bf), bm_info = bf_info bf\<rparr>"

lemma deliver_logs:
  assumes "deliver enc h m c = Inr c'" and "distinct (cm_conns c)"
  shows "same_conns c c'"
    and "spawned k (cm_out c') = spawned k (cm_out c) @ (if k \<in> set (cm_conns c) then broadcasts [m] else [])"
    and "raws (cm_out c') = raws (cm_out c)" and "engine_outs (cm_out c') = engine_outs (cm_out c)"
    and "\<exists>ws. sent_data k (cm_out c') = sent_data k (cm_out c) @ ws \<and>
      (\<forall>w \<in> set ws. \<exists>bf. m = BootstrapOut bf \<and> enc (BootData (boot_content h bf)) = Some w)"
    and "boots_only k c c'"
proof -
  have "same_conns c c' \<and> spawned k (cm_out c') = spawned k (cm_out c) @ (if k \<in> set (cm_conns c) then broadcasts [m] else []) \<and>
    raws (cm_out c') = raws (cm_out c) \<and> engine_outs (cm_out c') = engine_outs (cm_out c) \<and>
    (\<exists>ws. sent_data k (cm_out c') = sent_data k (cm_out c) @ ws \<and>
      (\<forall>w \<in> set ws. \<exists>bf. m = BootstrapOut bf \<and> enc (BootData (boot_content h bf)) = Some w)) \<and>
    boots_only k c c'"
  proof (cases m)
    case (Broadcast b)
    then show ?thesis using assms on_broadcast_logs [OF assms(2)] by (auto simp: deliver_def boots_only_def)
  next
    case (BootstrapOut bf)
    then obtain g where g: "load h (bf_game bf) = Inr g"
        "on_boot_frame enc \<lparr>bm_frame = bf_frame bf, bm_game = g, bm_info = bf_info bf\<rparr> c = Inr c'"
      using assms(1) by (auto simp: deliver_def seq_Inr_iff)
    then have bc: "\<lparr>bm_frame = bf_frame bf, bm_game = g, bm_info = bf_info bf\<rparr> = boot_content h bf"
      by (auto simp: load_def boot_content_def split: option.splits if_splits)
    have w: "enc (BootData (boot_content h bf)) = Some w"
      if "w \<in> set (sent_data k (boot_sends enc (boot_content h bf) (cm_bootstraps c)))" for w
    proof -
      obtain c1 where "fold_res (send_boot enc (boot_content h bf)) (cm_bootstraps c) c = Inr c1"
        using g(2) unfolding bc by (auto simp: on_boot_frame_def seq_Inr_iff)
      then show ?thesis using send_boots_enc boot_sends_datas [OF that] by fastforce
    qed
    have "c' = c\<lparr>cm_out := cm_out c @ boot_sends enc (boot_content h bf) (cm_bootstraps c),
        cm_bootstraps := snd (sweep (\<lambda>pb. bm_frame (boot_content h bf) = pb_start pb) 0 (cm_bootstraps c))\<rparr>"
      using on_boot_frame_Inr [OF g(2)] unfolding bc .
    moreover have "set (snd (sweep (\<lambda>pb. bm_frame (boot_content h bf) = pb_start pb) 0 (cm_bootstraps c))) \<subseteq> set (cm_bootstraps c)"
      by (rule sweep_rest)
    ultimately show ?thesis using w by (auto simp: same_conns_def BootstrapOut boots_only_def boot_sends_to)
  qed (use assms(1) in \<open>auto simp: deliver_def same_conns_def\<close>)
  then show "same_conns c c'"
    and "spawned k (cm_out c') = spawned k (cm_out c) @ (if k \<in> set (cm_conns c) then broadcasts [m] else [])"
    and "raws (cm_out c') = raws (cm_out c)" and "engine_outs (cm_out c') = engine_outs (cm_out c)"
    and "\<exists>ws. sent_data k (cm_out c') = sent_data k (cm_out c) @ ws \<and>
      (\<forall>w \<in> set ws. \<exists>bf. m = BootstrapOut bf \<and> enc (BootData (boot_content h bf)) = Some w)"
    and "boots_only k c c'"
    by blast+
qed

lemma deliver_total:
  assumes "deliverable h m" and "\<And>p. enc p \<noteq> None"
  shows "\<exists>c'. deliver enc h m c = Inr c'"
proof (cases m)
  case (BootstrapOut bf)
  then obtain a where "bf_game bf = Some a" "a < length h" using assms(1) by auto
  then show ?thesis
    by (simp add: BootstrapOut deliver_def load_def on_boot_frame_def send_boots_eq [where enc = enc, OF assms(2)])
qed (simp_all add: deliver_def)

lemma hand_over_logs:
  assumes "hand_over enc u v c = Inr c'" and "up_out v = up_out u @ out" and "distinct (cm_conns c)"
  shows "same_conns c c'"
    and "spawned k (cm_out c') = spawned k (cm_out c) @ (if k \<in> set (cm_conns c) then broadcasts out else [])"
    and "raws (cm_out c') = raws (cm_out c)" and "engine_outs (cm_out c') = engine_outs (cm_out c)"
    and "\<exists>ws. sent_data k (cm_out c') = sent_data k (cm_out c) @ ws \<and>
      (\<forall>w \<in> set ws. \<exists>bf. BootstrapOut bf \<in> set out \<and> enc (BootData (boot_content (up_heap v) bf)) = Some w)"
    and "boots_only k c c'"
proof -
  have "same_conns c c' \<and>
    spawned k (cm_out c') = spawned k (cm_out c) @ (if k \<in> set (cm_conns c) then broadcasts out else []) \<and>
    raws (cm_out c') = raws (cm_out c) \<and> engine_outs (cm_out c') = engine_outs (cm_out c) \<and>
    (\<exists>ws. sent_data k (cm_out c') = sent_data k (cm_out c) @ ws \<and>
      (\<forall>w \<in> set ws. \<exists>bf. BootstrapOut bf \<in> set out \<and> enc (BootData (boot_content (up_heap v) bf)) = Some w)) \<and>
    boots_only k c c'"
    if "fold_res (deliver enc (up_heap v)) out c = Inr c'" "distinct (cm_conns c)" for out c
    using that
  proof (induction out arbitrary: c)
    case (Cons m out)
    then obtain c1 where c1: "deliver enc (up_heap v) m c = Inr c1" "fold_res (deliver enc (up_heap v)) out c1 = Inr c'"
      by (auto simp: seq_Inr_iff)
    note d = deliver_logs [OF c1(1) Cons.prems(2)]
    have "distinct (cm_conns c1)" using d(1) Cons.prems(2) by (simp add: same_conns_def)
    note ih = Cons.IH [OF c1(2) this]
    have bs: "broadcasts (m # out) = broadcasts [m] @ broadcasts out" by (cases m) auto
    obtain ws1 where ws1: "sent_data k (cm_out c1) = sent_data k (cm_out c) @ ws1"
        "\<forall>w \<in> set ws1. \<exists>bf. m = BootstrapOut bf \<and> enc (BootData (boot_content (up_heap v) bf)) = Some w"
      using d(5) by blast
    obtain ws2 where ws2: "sent_data k (cm_out c') = sent_data k (cm_out c1) @ ws2"
        "\<forall>w \<in> set ws2. \<exists>bf. BootstrapOut bf \<in> set out \<and> enc (BootData (boot_content (up_heap v) bf)) = Some w"
      using ih by blast
    have "\<exists>ws. sent_data k (cm_out c') = sent_data k (cm_out c) @ ws \<and>
        (\<forall>w \<in> set ws. \<exists>bf. BootstrapOut bf \<in> set (m # out) \<and> enc (BootData (boot_content (up_heap v) bf)) = Some w)"
      by (rule exI [of _ "ws1 @ ws2"]) (use ws1 ws2 in auto)
    moreover have "same_conns c c'" using ih d(1) same_conns_trans by blast
    moreover have "spawned k (cm_out c') = spawned k (cm_out c) @ (if k \<in> set (cm_conns c) then broadcasts (m # out) else [])"
      unfolding bs using ih d(2) [of k] d(1) by (simp add: same_conns_def)
    moreover have "boots_only k c c'" using ih d(6) [of k] boots_only_trans by blast
    ultimately show ?case using ih d(3,4) by simp
  qed (auto simp: same_conns_def)
  from this [of out c] show "same_conns c c'"
    and "spawned k (cm_out c') = spawned k (cm_out c) @ (if k \<in> set (cm_conns c) then broadcasts out else [])"
    and "raws (cm_out c') = raws (cm_out c)" and "engine_outs (cm_out c') = engine_outs (cm_out c)"
    and "\<exists>ws. sent_data k (cm_out c') = sent_data k (cm_out c) @ ws \<and>
      (\<forall>w \<in> set ws. \<exists>bf. BootstrapOut bf \<in> set out \<and> enc (BootData (boot_content (up_heap v) bf)) = Some w)"
    and "boots_only k c c'"
    using assms by (auto simp: hand_over_def)
qed

lemma hand_over_total:
  assumes "up_out v = up_out u @ out" and "\<forall>m \<in> set out. deliverable (up_heap v) m" and "\<And>p. enc p \<noteq> None"
  shows "\<exists>c'. hand_over enc u v c = Inr c'"
proof -
  have "\<exists>c'. fold_res (deliver enc h) ms c = Inr c'" if "\<forall>m \<in> set ms. deliverable h m" for h :: "'b list" and ms :: "'a upd_out list" and c
    using that
  proof (induction ms arbitrary: c)
    case (Cons m ms)
    obtain c1 where "deliver enc h m c = Inr c1"
      using deliver_total [where enc = enc, OF _ assms(3)] Cons.prems by (metis list.set_intros(1))
    then show ?case using Cons.IH [of c1] Cons.prems by simp
  qed simp
  then show ?thesis using assms(1,2) by (simp add: hand_over_def)
qed

section \<open>Frames that are final do not change\<close>

lemma state_at_fold_add:
  assumes "\<forall>k \<in> set ks. f < k \<and> hi_base s < k"
  shows "state_at G (fold (\<lambda>k. add_bundle k (m k)) ks s) f = state_at G s f"
  using assms
proof (induction ks arbitrary: s)
  case (Cons k ks)
  then show ?case by (simp add: state_at_add_bundle)
qed simp

lemma accept_local_stable:
  assumes u: "upd_ok G me n heard s u" and y: "n \<le> fb_frame y" and f: "f \<le> win_start u"
  shows "state_at G (accept_local y u s) f = state_at G s f"
proof (cases "ignored y u")
  case False
  then have sk: "up_skip u = 0 \<or> 0 < up_skip u \<and> up_skip u \<le> fb_frame y"
    using upd_okD(11) [OF u] by (auto simp: ignored_def membership_def)
  note t = upd_ok_turn [OF u y sk]
  have b: "hi_base s \<le> win_start u" using settled_order(1) [OF run_invD(1) [OF upd_okD(1) [OF u]]] .
  have ws: "0 < up_skip u \<Longrightarrow> win_start u < up_skip u" using t(3) [of "up_skip u"] by simp
  have "state_at G (joined_history (fb_frame y) u s) f = state_at G s f"
    using ws f b by (auto simp: joined_history_def join_history_def intro!: state_at_fold_add)
  moreover have "hi_base (joined_history (fb_frame y) u s) < fb_frame y" "f < fb_frame y" using t(1,4) f by auto
  ultimately show ?thesis using False by (simp add: accept_local_def state_at_add_bundle)
qed (simp add: accept_local_def)

lemma accept_group_stable:
  assumes "hi_base s \<le> lo" and "f \<le> lo"
  shows "state_at G (fold (accept lo) rbs s) f = state_at G s f"
  using assms(1)
proof (induction rbs arbitrary: s)
  case (Cons b rbs)
  have "state_at G (accept lo b s) f = state_at G s f"
    using Cons.prems assms(2) by (auto simp: accept_def state_at_add_bundle)
  then show ?case using Cons by simp
qed simp

section \<open>An engine with its mail\<close>

text \<open>
  Three of the components of an engine, with what has travelled between them and from outside:
  how many of the bundler's bundles the updater has received, the bundles the \<open>connRoutine\<close>s have
  received (connection, and index among those sent on it), and those that have passed the auditor
  and \<open>nagle\<close> (index among those the communicator has sent there).
\<close>

record ('e, 'g, 't, 'w) node =
  nd_bundler :: "('e, 't) bundler"
  nd_updater :: "('e, 'g) updater"
  nd_comm :: "('e, 'w) communicator"
  nd_taken :: nat
  nd_got :: "(nat \<times> nat) list"
  nd_heard :: "nat list"

definition engine_node :: "('e, 'g, 't, 'w) engine \<Rightarrow> (nat \<times> nat) list \<Rightarrow> ('e, 'g, 't, 'w) node" where
  "engine_node e got = \<lparr>nd_bundler = en_bundler e, nd_updater = en_updater e, nd_comm = en_comm e,
     nd_taken = 0, nd_got = got, nd_heard = []\<rparr>"

definition node_input :: "'e bundler_in \<Rightarrow> ('e, 'g, 't, 'w) node \<Rightarrow> (go_panic + ('e, 'g, 't, 'w) node) option" where
  "node_input i nd = map_option (\<lambda>r. seq r (\<lambda>b. Inr (nd\<lparr>nd_bundler := b\<rparr>))) (bundler_step i (nd_bundler nd))"

definition node_local :: "('e, 'g) game_ops \<Rightarrow> ('g payload \<Rightarrow> 'w option) \<Rightarrow>
  ('e, 'g, 't, 'w) node \<Rightarrow> (go_panic + ('e, 'g, 't, 'w) node) option" where
  "node_local G enc nd =
     (if nd_taken nd < length (bu_out (nd_bundler nd))
      then Some (seq (pass_on G enc (bu_out (nd_bundler nd) ! nd_taken nd) (nd_updater nd, nd_comm nd)) (\<lambda>s.
                 Inr (nd\<lparr>nd_updater := fst s, nd_comm := snd s, nd_taken := Suc (nd_taken nd)\<rparr>)))
      else None)"

definition mail :: "nat list \<Rightarrow> ('e, 'g, 't, 'w) node \<Rightarrow> 'e frame_bundle list" where
  "mail ks nd = map ((!) (raws (cm_out (nd_comm nd)))) ks"

definition node_hear :: "('e, 'g) game_ops \<Rightarrow> ('g payload \<Rightarrow> 'w option) \<Rightarrow> nat list \<Rightarrow>
  ('e, 'g, 't, 'w) node \<Rightarrow> (go_panic + ('e, 'g, 't, 'w) node) option" where
  "node_hear G enc ks nd =
     (if distinct (nd_heard nd @ ks) \<and> (\<forall>k \<in> set ks. k < length (raws (cm_out (nd_comm nd))))
      then Some (seq (pass_group G enc (mail ks nd) (nd_updater nd, nd_comm nd)) (\<lambda>s.
                 Inr (nd\<lparr>nd_updater := fst s, nd_comm := snd s, nd_heard := nd_heard nd @ ks\<rparr>)))
      else None)"

definition node_receive :: "('g payload \<Rightarrow> 'w option) \<Rightarrow> ('w \<Rightarrow> 'g payload option) \<Rightarrow> nat \<Rightarrow> nat \<Rightarrow> 'e frame_bundle \<Rightarrow>
  ('e, 'g, 't, 'w) node \<Rightarrow> (go_panic + ('e, 'g, 't, 'w) node) option" where
  "node_receive enc dec k i b nd =
     (if k \<in> set (cm_routines (nd_comm nd))
      then map_option (\<lambda>r. seq r (\<lambda>c. Inr (nd\<lparr>nd_comm := c, nd_got := nd_got nd @ [(k, i)]\<rparr>)))
             (comm_step enc dec (RemoteBundle b k) (nd_comm nd))
      else None)"

text \<open>The bundles that wait for the updater, and the earliest frame it can get next.\<close>

definition waiting :: "('e, 'g, 't, 'w) node \<Rightarrow> 'e frame_bundle list" where
  "waiting nd = drop (nd_taken nd) (bu_out (nd_bundler nd))"

definition next_frame :: "('e, 'g, 't, 'w) node \<Rightarrow> int" where
  "next_frame nd = (case waiting nd of [] \<Rightarrow> bu_frame (nd_bundler nd) | b # bs \<Rightarrow> fb_frame b)"

definition bundler_sound :: "engine_id \<Rightarrow> ('e, 't) bundler \<Rightarrow> nat \<Rightarrow> bool" where
  "bundler_sound me b k \<longleftrightarrow> k \<le> length (bu_out b) \<and> bundler_ok b \<and> bu_running b \<and> ep_id (bu_params b) = me \<and>
     sorted_wrt (<) (map fb_frame (drop k (bu_out b))) \<and>
     (\<forall>y \<in> set (drop k (bu_out b)). fb_frame y < bu_frame b \<and> (\<exists>a. bundle_of me a y \<and> sound_events me a)) \<and>
     (\<forall>e \<in> set (bu_engine b). \<exists>i. e = EngineJoined i) \<and> (me \<noteq> host_id \<longrightarrow> bu_engine b = [])"

definition node_ok :: "('e, 'g) game_ops \<Rightarrow> engine_id \<Rightarrow> ('e, 'g) history \<Rightarrow> ('e, 'g, 't, 'w) node \<Rightarrow> bool" where
  "node_ok G me s nd \<longleftrightarrow> upd_ok G me (next_frame nd) (mail (nd_heard nd) nd) s (nd_updater nd) \<and>
     bundler_sound me (nd_bundler nd) (nd_taken nd) \<and>
     distinct (nd_heard nd) \<and> (\<forall>k \<in> set (nd_heard nd). k < length (raws (cm_out (nd_comm nd)))) \<and>
     distinct (cm_conns (nd_comm nd)) \<and> cm_phase (nd_comm nd) = CommRunning"

lemma node_okD:
  assumes "node_ok G me s nd"
  shows "upd_ok G me (next_frame nd) (mail (nd_heard nd) nd) s (nd_updater nd)"
    and "bundler_sound me (nd_bundler nd) (nd_taken nd)" and "distinct (nd_heard nd)"
    and "k \<in> set (nd_heard nd) \<Longrightarrow> k < length (raws (cm_out (nd_comm nd)))"
    and "distinct (cm_conns (nd_comm nd))" and "cm_phase (nd_comm nd) = CommRunning"
  using assms by (auto simp: node_ok_def)

lemma upd_ok_later:
  assumes "upd_ok G me n heard s u" and "n \<le> m"
  shows "upd_ok G me m heard s u"
  using assms unfolding upd_ok_def membership_def by (meson order.strict_trans2 order.trans)

section \<open>Events and ticks\<close>

lemma mail_append [simp]: "mail (ks @ js) nd = mail ks nd @ mail js nd"
  by (simp add: mail_def)

lemma tick_bundles_sound:
  assumes "bundler_sound me b k" and "y \<in> set (tick_bundles b n)"
  shows "bu_frame b \<le> fb_frame y \<and> fb_frame y < n \<and> (\<exists>a. bundle_of me a y \<and> sound_events me a)"
  using assms by (auto simp: tick_bundles_def bundler_sound_def bundle_of_def local_bundle_def sound_events_def only_joins_def)

lemma tick_bundles_frames: "map fb_frame (tick_bundles b n) = [bu_frame b..n - 1]"
  by (simp add: tick_bundles_def comp_def if_distrib cong: if_cong)

lemma ticked_sound:
  assumes b: "bundler_sound me b k" and n: "in_i32 n"
  shows "bundler_sound me (ticked b n) k"
proof (cases "n \<le> bu_frame b")
  case False
  have k: "k \<le> length (bu_out b)" using b by (simp add: bundler_sound_def)
  have d: "drop k (bu_out (ticked b n)) = drop k (bu_out b) @ tick_bundles b n" using False k by (simp add: ticked_def)
  have old: "sorted_wrt (<) (map fb_frame (drop k (bu_out b)))"
    "\<forall>y \<in> set (drop k (bu_out b)). fb_frame y < bu_frame b \<and> (\<exists>a. bundle_of me a y \<and> sound_events me a)"
    using b by (auto simp: bundler_sound_def)
  have "sorted_wrt (<) (map fb_frame (drop k (bu_out b)) @ map fb_frame (tick_bundles b n))"
    unfolding sorted_wrt_append tick_bundles_frames using old by (auto; fastforce)
  moreover have "\<forall>y \<in> set (drop k (bu_out b) @ tick_bundles b n). fb_frame y < n \<and> (\<exists>a. bundle_of me a y \<and> sound_events me a)"
    using old(2) tick_bundles_sound [OF b] False by fastforce
  ultimately show ?thesis using b n False unfolding bundler_sound_def d
    by (auto simp: bundler_ok_def ticked_def)
qed (simp add: b ticked_def)

lemma bundler_sound_step:
  assumes b: "bundler_sound me b k" and i: "i = Tick \<or> (\<exists>e. i = GameEvent e) \<or> (\<exists>j. i = LocalEngineEvent (EngineJoined j) \<and> me = host_id)"
  shows "\<exists>b' new. bundler_step i b = Some (Inr b') \<and> bundler_sound me b' k \<and> bu_out b' = bu_out b @ new \<and>
    (\<forall>y \<in> set new. bu_frame b \<le> fb_frame y) \<and> bu_frame b \<le> bu_frame b'"
proof -
  note bs = b [unfolded bundler_sound_def]
  consider "i = Tick" | "i \<noteq> Tick" by blast
  then show ?thesis
  proof cases
    case 1
    obtain n where n: "frame_of (bu_params b) (i64 (bu_current_ms b + 1)) = Inr n"
      using bs by (auto simp: frame_of_def bundler_ok_def)
    then have "in_i32 n" using in_i32_i32 by (auto simp: frame_of_def split: if_splits)
    let ?b = "b\<lparr>bu_current_ms := i64 (bu_current_ms b + 1)\<rparr>"
    have "bundler_step i b = Some (Inr (ticked ?b n))"
      using on_tick_eq [OF n] bs 1 by (simp add: bundler_ok_def)
    moreover have "bundler_sound me (ticked ?b n) k"
      by (rule ticked_sound) (use b \<open>in_i32 n\<close> in \<open>auto simp: bundler_sound_def bundler_ok_def\<close>)
    moreover have "\<exists>new. bu_out (ticked ?b n) = bu_out b @ new \<and> (\<forall>y \<in> set new. bu_frame b \<le> fb_frame y)"
      by (auto simp: ticked_def tick_bundles_def)
    ultimately show ?thesis by auto
  next
    case 2
    then show ?thesis using i bs by (auto simp: bundler_sound_def bundler_ok_def)
  qed
qed

lemma next_frame_later:
  assumes "bu_out b' = bu_out (nd_bundler nd) @ new" and "\<forall>y \<in> set new. bu_frame (nd_bundler nd) \<le> fb_frame y"
    and "bu_frame (nd_bundler nd) \<le> bu_frame b'" and "nd_taken nd \<le> length (bu_out (nd_bundler nd))"
  shows "next_frame nd \<le> next_frame (nd\<lparr>nd_bundler := b'\<rparr>)"
  using assms by (cases "drop (nd_taken nd) (bu_out (nd_bundler nd))"; cases new) (auto simp: next_frame_def waiting_def)

lemma node_input_ok:
  assumes nd: "node_ok G me s nd"
    and i: "i = Tick \<or> (\<exists>e. i = GameEvent e) \<or> (\<exists>j. i = LocalEngineEvent (EngineJoined j) \<and> me = host_id)"
  shows "\<exists>b'. node_input i nd = Some (Inr (nd\<lparr>nd_bundler := b'\<rparr>)) \<and> node_ok G me s (nd\<lparr>nd_bundler := b'\<rparr>)"
proof -
  note d = node_okD [OF nd]
  obtain b' new where b': "bundler_step i (nd_bundler nd) = Some (Inr b')" "bundler_sound me b' (nd_taken nd)"
      "bu_out b' = bu_out (nd_bundler nd) @ new" "\<forall>y \<in> set new. bu_frame (nd_bundler nd) \<le> fb_frame y"
      "bu_frame (nd_bundler nd) \<le> bu_frame b'"
    using bundler_sound_step [OF d(2) i] by blast
  have "next_frame nd \<le> next_frame (nd\<lparr>nd_bundler := b'\<rparr>)"
    by (rule next_frame_later [OF b'(3-5)]) (use d(2) in \<open>simp add: bundler_sound_def\<close>)
  from upd_ok_later [OF d(1) this] show ?thesis using b'(1,2) d
    by (intro exI [of _ b']) (simp add: node_input_def node_ok_def mail_def del: bundler_step.simps)
qed

section \<open>Local and remote bundles\<close>

text \<open>What one round of the updater does to the engine, and to the history \<open>s\<close> it stands for.\<close>

definition node_round :: "('e, 'g) game_ops \<Rightarrow> ('g payload \<Rightarrow> 'w option) \<Rightarrow> engine_id \<Rightarrow>
  ('e, 'g) history \<Rightarrow> ('e, 'g, 't, 'w) node \<Rightarrow> ('e, 'g) history \<Rightarrow> ('e, 'g, 't, 'w) node \<Rightarrow> bool" where
  "node_round G enc me s nd t nd' \<longleftrightarrow> node_ok G me t nd' \<and> grows s t \<and>
     (\<forall>f \<le> win_start (nd_updater nd). state_at G t f = state_at G s f) \<and>
     win_start (nd_updater nd) \<le> win_start (nd_updater nd') \<and> nd_got nd' = nd_got nd \<and>
     (\<exists>out. up_out (nd_updater nd') = up_out (nd_updater nd) @ out \<and>
        (\<forall>m \<in> set out. true_message G t (up_heap (nd_updater nd')) m \<and> timely (nd_updater nd) (nd_updater nd') m)) \<and>
     hand_over enc (nd_updater nd) (nd_updater nd') (nd_comm nd) = Inr (nd_comm nd')"

context game_iface
begin

lemma node_local_ok:
  assumes nd: "node_ok G me s nd" and t: "nd_taken nd < length (bu_out (nd_bundler nd))"
    and fit: "local_fits (bu_out (nd_bundler nd) ! nd_taken nd) (nd_updater nd)" and enc: "\<And>p. enc p \<noteq> None"
  defines "y \<equiv> bu_out (nd_bundler nd) ! nd_taken nd"
  shows "\<exists>v c. node_local G enc nd = Some (Inr (nd\<lparr>nd_updater := v, nd_comm := c, nd_taken := Suc (nd_taken nd)\<rparr>)) \<and>
    node_round G enc me s nd (accept_local y (nd_updater nd) s) (nd\<lparr>nd_updater := v, nd_comm := c, nd_taken := Suc (nd_taken nd)\<rparr>)"
proof -
  note d = node_okD [OF nd]
  let ?u = "nd_updater nd" and ?b = "nd_bundler nd" and ?t = "accept_local y (nd_updater nd) s"
  have w: "waiting nd = y # drop (Suc (nd_taken nd)) (bu_out ?b)" using t by (simp add: waiting_def y_def Cons_nth_drop_Suc)
  have bs: "sorted_wrt (<) (map fb_frame (waiting nd))"
    "\<forall>x \<in> set (waiting nd). fb_frame x < bu_frame ?b \<and> (\<exists>a. bundle_of me a x \<and> sound_events me a)"
    using d(2) by (simp_all add: bundler_sound_def waiting_def)
  then obtain a where a: "bundle_of me a y" "sound_events me a" by (auto simp: w)
  have nf: "next_frame nd \<le> fb_frame y" by (simp add: next_frame_def w)
  have fit': "local_fits y ?u" using fit by (simp add: y_def)
  note ok = upd_ok_local [OF d(1) a(1) nf fit']
  obtain v where v: "handle_local G y ?u = Inr v" "win_start ?u \<le> win_start v" "sends_truth G ?t ?u v"
    using local_round [OF upd_okD(1) [OF d(1)] ok] by blast
  note st = upd_ok_local_step [OF d(1) a(1) nf a(2) fit' v(1)]
  obtain out where out: "up_out v = up_out ?u @ out" "\<forall>m \<in> set out. deliverable (up_heap v) m" "\<forall>m \<in> set out. timely ?u v m"
    using local_news(6) [OF upd_okD(1) [OF d(1)] ok v(1)] by blast
  obtain c where c: "hand_over enc ?u v (nd_comm nd) = Inr c"
    using hand_over_total [where enc = enc, OF out(1,2) enc] by blast
  note hl = hand_over_logs [OF c out(1) d(5)]
  let ?nd = "nd\<lparr>nd_updater := v, nd_comm := c, nd_taken := Suc (nd_taken nd)\<rparr>"
  have "fb_frame y + 1 \<le> next_frame ?nd"
    using bs unfolding w by (cases "drop (Suc (nd_taken nd)) (bu_out ?b)") (auto simp: next_frame_def waiting_def)
  then have "upd_ok G me (next_frame ?nd) (mail (nd_heard nd) nd) ?t v" using st(1) upd_ok_later by blast
  moreover have "mail (nd_heard ?nd) ?nd = mail (nd_heard nd) nd" by (simp add: mail_def hl(3))
  moreover have "bundler_sound me ?b (Suc (nd_taken nd))"
    using d(2) t w by (auto simp: bundler_sound_def waiting_def)
  ultimately have "node_ok G me ?t ?nd" using d hl(1,3) by (simp add: node_ok_def same_conns_def)
  moreover have "node_local G enc nd = Some (Inr ?nd)"
    using t v(1) c by (simp add: node_local_def pass_on_def flip: y_def)
  moreover have "\<forall>m \<in> set out. true_message G ?t (up_heap v) m"
    using v(3) out(1) by (auto simp: sends_truth_def)
  moreover have "\<forall>f \<le> win_start ?u. state_at G ?t f = state_at G s f"
    using accept_local_stable [OF d(1) nf] by blast
  ultimately show ?thesis using st(3) v(2) out(1,3) c unfolding node_round_def
    by (intro exI [of _ v] exI [of _ c]) auto
qed

lemma node_hear_ok:
  assumes nd: "node_ok G me s nd" and ks: "distinct (nd_heard nd @ ks)" "\<forall>k \<in> set ks. k < length (raws (cm_out (nd_comm nd)))"
    and new: "\<forall>b \<in> set (raws (cm_out (nd_comm nd))). sound_bundle b \<and> origin b \<noteq> me"
      "distinct (map slot_key (raws (cm_out (nd_comm nd))))"
    and fit: "remote_fits (mail ks nd) (nd_updater nd)" and enc: "\<And>p. enc p \<noteq> None"
  defines "t \<equiv> fold (accept (win_start (nd_updater nd))) (mail ks nd) s"
  shows "\<exists>v c. node_hear G enc ks nd = Some (Inr (nd\<lparr>nd_updater := v, nd_comm := c, nd_heard := nd_heard nd @ ks\<rparr>)) \<and>
    node_round G enc me s nd t (nd\<lparr>nd_updater := v, nd_comm := c, nd_heard := nd_heard nd @ ks\<rparr>)"
proof -
  note d = node_okD [OF nd]
  let ?u = "nd_updater nd" and ?rs = "raws (cm_out (nd_comm nd))"
  have idx: "\<forall>k \<in> set (nd_heard nd @ ks). k < length ?rs" using ks(2) d(4) by auto
  have "distinct (map slot_key (mail (nd_heard nd @ ks) nd))"
    unfolding mail_def map_map using ks(1) idx nth_eq_iff_index_eq [OF new(2)]
    by (subst distinct_map) (auto simp: inj_on_def)
  then have k: "distinct (map slot_key (mail (nd_heard nd) nd @ mail ks nd))" by simp
  have b: "\<forall>b \<in> set (mail ks nd). sound_bundle b \<and> origin b \<noteq> me" using new(1) ks(2) by (auto simp: mail_def)
  note r = upd_ok_remote [OF d(1) b k fit]
  obtain v where v: "handle_remote G (mail ks nd) ?u = Inr v" "win_start ?u \<le> win_start v" "sends_truth G t ?u v"
    using remote_round [OF upd_okD(1) [OF d(1)] r(1)] unfolding t_def by blast
  obtain out where out: "up_out v = up_out ?u @ out" "\<forall>m \<in> set out. deliverable (up_heap v) m" "\<forall>m \<in> set out. timely ?u v m"
    using remote_news(6) [OF upd_okD(1) [OF d(1)] r(1) v(1)] by blast
  obtain c where c: "hand_over enc ?u v (nd_comm nd) = Inr c"
    using hand_over_total [where enc = enc, OF out(1,2) enc] by blast
  note hl = hand_over_logs [OF c out(1) d(5)]
  let ?nd = "nd\<lparr>nd_updater := v, nd_comm := c, nd_heard := nd_heard nd @ ks\<rparr>"
  have "mail (nd_heard ?nd) ?nd = mail (nd_heard nd) nd @ mail ks nd" by (simp add: mail_def hl(3))
  moreover have "next_frame ?nd = next_frame nd" by (simp add: next_frame_def waiting_def split: list.split)
  ultimately have "node_ok G me t ?nd"
    using d r(2) [OF v(1)] ks idx hl(1,3) by (auto simp: node_ok_def same_conns_def t_def)
  moreover have "node_hear G enc ks nd = Some (Inr ?nd)"
    using ks v(1) c by (simp add: node_hear_def pass_group_def)
  moreover have "\<forall>m \<in> set out. true_message G t (up_heap v) m"
    using v(3) out(1) by (auto simp: sends_truth_def)
  moreover have "\<forall>f \<le> win_start ?u. state_at G t f = state_at G s f"
    using accept_group_stable settled_order(1) [OF run_invD(1) [OF upd_okD(1) [OF d(1)]]] unfolding t_def by blast
  ultimately show ?thesis using r(4) v(2) out(1,3) c unfolding node_round_def t_def
    by (intro exI [of _ v] exI [of _ c]) auto
qed

end

text \<open>A bootstrap message that carries a final state.\<close>

definition true_boot :: "('e, 'g) game_ops \<Rightarrow> ('e, 'g) history \<Rightarrow> int \<Rightarrow> 'g boot_message \<Rightarrow> bool" where
  "true_boot G s f bm \<longleftrightarrow> hi_base s \<le> bm_frame bm \<and> bm_frame bm \<le> f \<and>
     state_at G s (bm_frame bm) = (known_engines (bm_info bm), bm_game bm)"

lemma node_round_logs:
  assumes r: "node_round G enc me s nd t nd'" and nd: "node_ok G me s nd"
  shows "\<exists>news. own (nd_updater nd') = own (nd_updater nd) @ news \<and>
      (\<forall>k. spawned k (cm_out (nd_comm nd')) =
             spawned k (cm_out (nd_comm nd)) @ (if k \<in> set (cm_conns (nd_comm nd)) then news else []))"
    and "same_conns (nd_comm nd) (nd_comm nd')" and "raws (cm_out (nd_comm nd')) = raws (cm_out (nd_comm nd))"
    and "engine_outs (cm_out (nd_comm nd')) = engine_outs (cm_out (nd_comm nd))"
    and "\<exists>ws. sent_data k (cm_out (nd_comm nd')) = sent_data k (cm_out (nd_comm nd)) @ ws \<and>
      (\<forall>w \<in> set ws. \<exists>bm. enc (BootData bm) = Some w \<and> true_boot G t (win_start (nd_updater nd')) bm)"
    and "boots_only k (nd_comm nd) (nd_comm nd')"
proof -
  let ?u = "nd_updater nd" and ?v = "nd_updater nd'"
  obtain out where out: "up_out ?v = up_out ?u @ out" "\<forall>m \<in> set out. true_message G t (up_heap ?v) m \<and> timely ?u ?v m"
      and ho: "hand_over enc ?u ?v (nd_comm nd) = Inr (nd_comm nd')"
    using r unfolding node_round_def by blast
  note l = hand_over_logs [OF ho out(1) node_okD(5) [OF nd]]
  have b: "hi_base t = hi_base s" "hi_base s \<le> win_start ?u"
    using r settled_order(1) [OF run_invD(1) [OF upd_okD(1) [OF node_okD(1) [OF nd]]]]
    by (auto simp: node_round_def grows_def)
  show "\<exists>news. own ?v = own ?u @ news \<and> (\<forall>k. spawned k (cm_out (nd_comm nd')) =
             spawned k (cm_out (nd_comm nd)) @ (if k \<in> set (cm_conns (nd_comm nd)) then news else []))"
    by (rule exI [of _ "broadcasts out"]) (simp add: out(1) l(2))
  show "same_conns (nd_comm nd) (nd_comm nd')" "raws (cm_out (nd_comm nd')) = raws (cm_out (nd_comm nd))"
    "engine_outs (cm_out (nd_comm nd')) = engine_outs (cm_out (nd_comm nd))"
    "boots_only k (nd_comm nd) (nd_comm nd')"
    using l by auto
  have "true_boot G t (win_start ?v) (boot_content (up_heap ?v) bf)" if "BootstrapOut bf \<in> set out" for bf
    using out(2) that b by (fastforce simp: true_boot_def boot_content_def timely_def)
  then show "\<exists>ws. sent_data k (cm_out (nd_comm nd')) = sent_data k (cm_out (nd_comm nd)) @ ws \<and>
      (\<forall>w \<in> set ws. \<exists>bm. enc (BootData bm) = Some w \<and> true_boot G t (win_start ?v) bm)"
    using l(5) [of k] by blast
qed

lemma node_receive_ok:
  assumes nd: "node_ok G me s nd" and k: "k \<in> set (cm_routines (nd_comm nd))"
  shows "node_receive enc dec k i b nd = Some (Inr (nd\<lparr>nd_comm := on_remote b k (nd_comm nd), nd_got := nd_got nd @ [(k, i)]\<rparr>))"
    and "node_ok G me s (nd\<lparr>nd_comm := on_remote b k (nd_comm nd), nd_got := nd_got nd @ [(k, i)]\<rparr>)"
proof -
  note d = node_okD [OF nd] and l = on_remote_logs [OF node_okD(5) [OF nd], where b = b and j = k]
  let ?nd = "nd\<lparr>nd_comm := on_remote b k (nd_comm nd), nd_got := nd_got nd @ [(k, i)]\<rparr>"
  show "node_receive enc dec k i b nd = Some (Inr ?nd)" using k d(6) by (simp add: node_receive_def)
  have "mail (nd_heard ?nd) ?nd = mail (nd_heard nd) nd" using d(4) by (auto simp: mail_def l(3) nth_append)
  moreover have "next_frame ?nd = next_frame nd" by (simp add: next_frame_def waiting_def split: list.split)
  ultimately show "node_ok G me s ?nd" using d l(1,3) by (auto simp: node_ok_def same_conns_def intro: less_SucI)
qed

section \<open>Engines that start\<close>

lemma bundler_sound_start:
  assumes "bundler_ok b" and "bu_running b" and "ep_id (bu_params b) = me" and "bu_out b = []" and "bu_engine b = []"
  shows "bundler_sound me b 0"
  using assms by (simp add: bundler_sound_def)

context game_iface
begin

lemma host_starts:
  fixes tstart :: "'t \<Rightarrow> go_panic + 't"
  assumes t: "tstart t = Inr t'" and fm: "2 \<le> frame_ms" "frame_ms < 2 ^ 31"
    and mf: "1 \<le> max_frames" "max_frames < max_i32"
  shows "\<exists>e s. new_net_engine G tstart t g frame_ms max_frames ping_up join_up = Inr e \<and>
    node_ok G host_id s (engine_node e []) \<and> hi_base s = 0 \<and> host_id \<in> fmdom' (hi_engines s) \<and>
    en_comm e = comm_start (zero_communicator None) \<and> up_out (en_updater e) = []"
proof -
  let ?p = "net_params frame_ms max_frames"
  have pm: "ep_max_frames ?p = max_frames" "ep_id ?p = host_id" by (simp_all add: net_params_def host_id_def)
  have "(frame_ms + 1) div frame_ms = 1" using fm by (simp add: div_add_self1)
  then have dv: "(frame_ms + 1) sdiv frame_ms = 1" using fm by (simp add: sdiv_nonneg)
  obtain b :: "('e, 't) bundler" where b: "bundler_start tstart (zero_bundler ?p t (i64 (frame_ms + 1))) = Inr b" "bundler_ok b"
      "bu_running b" "bu_params b = ?p" "bu_frame b = 1" "bu_out b = []" "bu_engine b = []"
    using bundler_start_ok [of tstart "zero_bundler ?p t (i64 (frame_ms + 1))" t'] t fm dv
    by (auto simp: zero_bundler_def net_params_def)
  have d: "fd_game (initial_data ?p :: 'e frame_data) = Some 0"
    "known_engines (fd_info (initial_data ?p :: 'e frame_data)) = fmupd host_id True fmempty"
    by (simp_all add: initial_data_def known_engines_def pm)
  let ?s = "history0 0 (fmupd host_id True fmempty) g False"
  obtain w h where u: "start G 0 (initial_data ?p) (zero_updater ?p True [g]) =
        Inr ((zero_updater ?p True [g])\<lparr>up_window := w, up_heap := h, up_local := 0, up_global := 0, up_dirty := 1\<rparr>)"
      "settled G ?s ((zero_updater ?p True [g])\<lparr>up_window := w, up_heap := h, up_local := 0, up_global := 0, up_dirty := 1\<rparr>)"
    using start_ok [OF d(1), of "zero_updater ?p True [g]" 0] mf d(2) by (auto simp: Let_def pm)
  let ?u = "(zero_updater ?p True [g])\<lparr>up_window := w, up_heap := h, up_local := 0, up_global := 0, up_dirty := 1\<rparr>"
  let ?net = "host_request (Some host_ping) (Some host_join) ping_up join_up make_std_net"
  let ?e = "\<lparr>en_bundler = b, en_updater = ?u, en_comm = comm_start (zero_communicator None), en_net = ?net\<rparr>"
  have "joined host_id 0 ?s" by (simp add: joined_def)
  then have "upd_ok G host_id 1 [] ?s ?u"
    using u(2) by (auto simp: upd_ok_def run_inv_def pm comes_from_def membership_def host_id_def intro!: exI [of _ 0])
  moreover have "bundler_sound host_id b 0" by (rule bundler_sound_start) (simp_all add: b pm)
  ultimately have "node_ok G host_id ?s (engine_node ?e [])"
    by (simp add: node_ok_def engine_node_def next_frame_def waiting_def mail_def b comm_start_def zero_communicator_def)
  moreover have "new_net_engine G tstart t g frame_ms max_frames ping_up join_up = Inr ?e"
    using b(1) u(1) by (simp add: new_net_engine_def Let_def)
  ultimately show ?thesis by (intro exI [of _ ?e] exI [of _ ?s]) simp
qed

lemma client_starts:
  fixes tstart :: "'t \<Rightarrow> go_panic + 't"
  assumes t: "tstart t = Inr t'" and fm: "ep_frame_ms p \<noteq> 0" and mf: "1 \<le> ep_max_frames p"
    and bf: "0 \<le> bm_frame bf" "bm_frame bf + ep_max_frames p + 2 \<le> max_i32"
    and i: "i \<noteq> host_id" "0 \<le> eid i" and c: "cm_conns c = []" "cm_host_conn c = Some k"
  defines "s \<equiv> history0 (bm_frame bf) (known_engines (bm_info bf)) (bm_game bf) True"
  shows "\<exists>e. start_client G tstart t p bf i c = Inr e \<and> node_ok G i s (engine_node e got) \<and>
    en_comm e = comm_start c \<and> up_out (en_updater e) = [] \<and> win_start (en_updater e) = bm_frame bf"
proof -
  let ?p = "p\<lparr>ep_id := i\<rparr>"
  let ?bf = "\<lparr>bf_frame = bm_frame bf, bf_game = Some 0, bf_info = bm_info bf\<rparr>"
  obtain b :: "('e, 't) bundler" where b: "bundler_start tstart (zero_bundler ?p t (i64 (ep_frame_ms p * bm_frame bf))) = Inr b"
      "bundler_ok b" "bu_running b" "bu_params b = ?p" "bu_out b = []" "bu_engine b = []"
    using bundler_start_ok [of tstart "zero_bundler ?p t (i64 (ep_frame_ms p * bm_frame bf))" t'] t fm
    by (auto simp: zero_bundler_def)
  obtain w h where u: "bootstrap G ?bf (zero_updater ?p True [bm_game bf]) =
        Inr ((zero_updater ?p True [bm_game bf])\<lparr>up_window := w, up_heap := h, up_skip := -1, up_local := bm_frame bf + 1,
          up_global := bm_frame bf + 1, up_dirty := bm_frame bf + 2\<rparr>)" "dw_first w = bm_frame bf"
      "settled G s ((zero_updater ?p True [bm_game bf])\<lparr>up_window := w, up_heap := h, up_skip := -1, up_local := bm_frame bf + 1,
          up_global := bm_frame bf + 1, up_dirty := bm_frame bf + 2\<rparr>)"
    using bootstrap_ok [of ?bf 0 "zero_updater ?p True [bm_game bf]"] mf bf by (auto simp: Let_def s_def)
  let ?u = "(zero_updater ?p True [bm_game bf])\<lparr>up_window := w, up_heap := h, up_skip := -1, up_local := bm_frame bf + 1,
          up_global := bm_frame bf + 1, up_dirty := bm_frame bf + 2\<rparr>"
  let ?e = "\<lparr>en_bundler = b, en_updater = ?u, en_comm = comm_start c, en_net = make_std_net\<rparr>"
  have "upd_ok G i n [] s ?u" for n
    using u(3) bf i by (auto simp: upd_ok_def run_inv_def comes_from_def membership_def s_def)
  moreover have "bundler_sound i b 0" by (rule bundler_sound_start) (simp_all add: b)
  ultimately have "node_ok G i s (engine_node ?e got)"
    using c by (simp add: node_ok_def engine_node_def next_frame_def waiting_def mail_def b comm_start_def)
  moreover have "start_client G tstart t p bf i c = Inr ?e"
    using b(1) u(1) by (simp add: start_client_def Let_def)
  ultimately show ?thesis using u(2) by (intro exI [of _ ?e]) simp
qed

end

end
