(* ===== verification/Cluster.thy ===== *)
theory Cluster
  imports Node
begin

text \<open>
  A host made by \<open>NewNetEngine\<close> and any number of clients made by \<open>NewNetClientEngine\<close> that join it,
  with the messages between them: clients are connected to the host only, which forwards. A
  schedule is a list of steps, each of one component of one engine; messages may be delayed for
  ever and overtake each other.
\<close>

section \<open>Engines and messages\<close>

record ('e, 'g, 't, 'w) config =
  cf_ops :: "('e, 'g) game_ops"
  cf_enc :: "'g payload \<Rightarrow> 'w option"
  cf_dec :: "'w \<Rightarrow> 'g payload option"
  cf_tstart :: "'t \<Rightarrow> go_panic + 't"
  cf_ticker :: 't
  cf_frame_ms :: int
  cf_max_frames :: int

text \<open>
  A client, by the id the host gives it: the bundles \<open>Communicator.Join\<close> has received so far (index
  among those the host has sent it), and its engine once \<open>Join\<close> has returned.
\<close>

record ('e, 'g, 't, 'w) client =
  ct_id :: int
  ct_join :: "nat list"
  ct_node :: "('e, 'g, 't, 'w) node option"

text \<open>The events for the host's bundler are received in any order: each is sent by a goroutine of its own.\<close>

record ('e, 'g, 't, 'w) cluster =
  cl_host :: "('e, 'g, 't, 'w) node"
  cl_clients :: "('e, 'g, 't, 'w) client list"
  cl_events :: "nat list"

definition cluster_start :: "('e, 'g, 't, 'w) engine \<Rightarrow> ('e, 'g, 't, 'w) cluster" where
  "cluster_start e = \<lparr>cl_host = engine_node e [], cl_clients = [], cl_events = []\<rparr>"

definition client_node :: "('e, 'g, 't, 'w) cluster \<Rightarrow> nat \<Rightarrow> ('e, 'g, 't, 'w) node option" where
  "client_node c k = (if k < length (cl_clients c) then ct_node (cl_clients c ! k) else None)"

text \<open>Engine \<open>0\<close> is the host, engine \<open>k + 1\<close> the client on its connection \<open>k\<close>; a client's only connection is \<open>0\<close>.\<close>

definition get_node :: "('e, 'g, 't, 'w) cluster \<Rightarrow> nat \<Rightarrow> ('e, 'g, 't, 'w) node option" where
  "get_node c n = (case n of 0 \<Rightarrow> Some (cl_host c) | Suc k \<Rightarrow> client_node c k)"

definition put_node :: "nat \<Rightarrow> ('e, 'g, 't, 'w) node \<Rightarrow> ('e, 'g, 't, 'w) cluster \<Rightarrow> ('e, 'g, 't, 'w) cluster" where
  "put_node n nd c = (case n of 0 \<Rightarrow> c\<lparr>cl_host := nd\<rparr>
     | Suc k \<Rightarrow> c\<lparr>cl_clients := (cl_clients c)[k := (cl_clients c ! k)\<lparr>ct_node := Some nd\<rparr>]\<rparr>)"

definition host_out :: "('e, 'g, 't, 'w) cluster \<Rightarrow> ('e, 'w) comm_out list" where
  "host_out c = cm_out (nd_comm (cl_host c))"

text \<open>The bundles sent to engine \<open>n\<close> on its connection \<open>k\<close>, and which of them it has received.\<close>

definition sent_on :: "('e, 'g, 't, 'w) cluster \<Rightarrow> nat \<Rightarrow> nat \<Rightarrow> 'e frame_bundle list" where
  "sent_on c n k = (case n of
     0 \<Rightarrow> (case client_node c k of None \<Rightarrow> [] | Some nd \<Rightarrow> spawned 0 (cm_out (nd_comm nd)))
   | Suc j \<Rightarrow> spawned j (host_out c))"

definition got_on :: "nat \<Rightarrow> ('e, 'g, 't, 'w) node \<Rightarrow> nat list" where
  "got_on k nd = map snd (filter (\<lambda>p. fst p = k) (nd_got nd))"

section \<open>Steps\<close>

datatype 'e cluster_in =
    Input nat "'e bundler_in"      \<comment> \<open>an event of the user, or a tick\<close>
  | TakeLocal nat                  \<comment> \<open>the updater receives the next local bundle\<close>
  | Hear nat "nat list"            \<comment> \<open>the updater receives a group of remote bundles\<close>
  | Receive nat nat nat            \<comment> \<open>a \<open>connRoutine\<close> receives a bundle: engine, connection, index\<close>
  | Connect int                    \<comment> \<open>the host gets a new connection and gives it this \<open>RandomId\<close>\<close>
  | JoinReceive nat nat            \<comment> \<open>\<open>Join\<close> of a client receives a bundle\<close>
  | JoinBoot nat                   \<comment> \<open>\<open>Join\<close> of a client receives the bootstrap frame; its engine starts\<close>
  | Confirm nat                    \<comment> \<open>the host's \<open>bootstrapRoutine\<close> receives the client's confirmation\<close>
  | TakeEvent nat                  \<comment> \<open>the host's bundler receives an engine event\<close>

definition on_node :: "nat \<Rightarrow> (('e, 'g, 't, 'w) node \<Rightarrow> (go_panic + ('e, 'g, 't, 'w) node) option) \<Rightarrow>
  ('e, 'g, 't, 'w) cluster \<Rightarrow> (go_panic + ('e, 'g, 't, 'w) cluster) option" where
  "on_node n f c = (case get_node c n of None \<Rightarrow> None
     | Some nd \<Rightarrow> map_option (\<lambda>r. seq r (\<lambda>nd'. Inr (put_node n nd' c))) (f nd))"

definition connect :: "('e, 'g, 't, 'w) config \<Rightarrow> int \<Rightarrow> ('e, 'g, 't, 'w) cluster \<Rightarrow>
  (go_panic + ('e, 'g, 't, 'w) cluster) option" where
  "connect cf rid c =
     map_option (\<lambda>r. seq r (\<lambda>cm. Inr (c\<lparr>cl_host := (cl_host c)\<lparr>nd_comm := cm\<rparr>,
         cl_clients := cl_clients c @ [\<lparr>ct_id = rid, ct_join = [], ct_node = None\<rparr>]\<rparr>)))
       (comm_step (cf_enc cf) (cf_dec cf) (NewConn (length (cl_clients c)) rid) (nd_comm (cl_host c)))"

definition join_receive :: "nat \<Rightarrow> nat \<Rightarrow> ('e, 'g, 't, 'w) cluster \<Rightarrow> (go_panic + ('e, 'g, 't, 'w) cluster) option" where
  "join_receive k i c =
     (if k < length (cl_clients c) \<and> ct_node (cl_clients c ! k) = None \<and> sent_data k (host_out c) \<noteq> [] \<and>
         i < length (sent_on c (Suc k) 0) \<and> i \<notin> set (ct_join (cl_clients c ! k))
      then Some (Inr (c\<lparr>cl_clients := (cl_clients c)[k := (cl_clients c ! k)\<lparr>ct_join := ct_join (cl_clients c ! k) @ [i]\<rparr>]\<rparr>))
      else None)"

definition join_boot :: "('e, 'g, 't, 'w) config \<Rightarrow> nat \<Rightarrow> ('e, 'g, 't, 'w) cluster \<Rightarrow>
  (go_panic + ('e, 'g, 't, 'w) cluster) option" where
  "join_boot cf k c =
     (if k < length (cl_clients c) \<and> ct_node (cl_clients c ! k) = None
      then (case sent_data k (host_out c) of
              w0 # w1 # ws \<Rightarrow>
                (case comm_join (cf_enc cf) (cf_dec cf) 0 (Some w0)
                        (map (\<lambda>i. JoinBundle (sent_on c (Suc k) 0 ! i)) (ct_join (cl_clients c ! k)) @ [JoinData (Some w1)])
                        (zero_communicator None) of
                   Some (cm, Some (bf, i)) \<Rightarrow>
                     Some (seq (start_client (cf_ops cf) (cf_tstart cf) (cf_ticker cf)
                                  (net_params (cf_frame_ms cf) (cf_max_frames cf)) bf i cm) (\<lambda>e.
                           Inr (put_node (Suc k) (engine_node e (map (Pair 0) (ct_join (cl_clients c ! k)))) c)))
                 | _ \<Rightarrow> None)
            | _ \<Rightarrow> None)
      else None)"

definition confirm :: "('e, 'g, 't, 'w) config \<Rightarrow> nat \<Rightarrow> ('e, 'g, 't, 'w) cluster \<Rightarrow>
  (go_panic + ('e, 'g, 't, 'w) cluster) option" where
  "confirm cf k c =
     (case client_node c k of
        None \<Rightarrow> None
      | Some nd \<Rightarrow>
          (case sent_data 0 (cm_out (nd_comm nd)) of
             [] \<Rightarrow> None
           | w # ws \<Rightarrow>
               map_option (\<lambda>r. seq r (\<lambda>cm. Inr (c\<lparr>cl_host := (cl_host c)\<lparr>nd_comm := cm\<rparr>\<rparr>)))
                 (comm_step (cf_enc cf) (cf_dec cf) (BootReply k (EngineId (ct_id (cl_clients c ! k))) (Some w))
                    (nd_comm (cl_host c)))))"

definition take_event :: "nat \<Rightarrow> ('e, 'g, 't, 'w) cluster \<Rightarrow> (go_panic + ('e, 'g, 't, 'w) cluster) option" where
  "take_event i c =
     (if i < length (engine_outs (host_out c)) \<and> i \<notin> set (cl_events c)
      then map_option (\<lambda>r. seq r (\<lambda>c'. Inr (c'\<lparr>cl_events := cl_events c @ [i]\<rparr>)))
             (on_node 0 (node_input (LocalEngineEvent (engine_outs (host_out c) ! i))) c)
      else None)"

fun cluster_step :: "('e, 'g, 't, 'w) config \<Rightarrow> 'e cluster_in \<Rightarrow> ('e, 'g, 't, 'w) cluster \<Rightarrow>
  (go_panic + ('e, 'g, 't, 'w) cluster) option" where
  "cluster_step cf (Input n i) c = (if solo_input i then on_node n (node_input i) c else None)"
| "cluster_step cf (TakeLocal n) c = on_node n (node_local (cf_ops cf) (cf_enc cf)) c"
| "cluster_step cf (Hear n ks) c = on_node n (node_hear (cf_ops cf) (cf_enc cf) ks) c"
| "cluster_step cf (Receive n k i) c =
     on_node n (\<lambda>nd. if i < length (sent_on c n k) \<and> i \<notin> set (got_on k nd)
                     then node_receive (cf_enc cf) (cf_dec cf) k i (sent_on c n k ! i) nd else None) c"
| "cluster_step cf (Connect rid) c = connect cf rid c"
| "cluster_step cf (JoinReceive k i) c = join_receive k i c"
| "cluster_step cf (JoinBoot k) c = join_boot cf k c"
| "cluster_step cf (Confirm k) c = confirm cf k c"
| "cluster_step cf (TakeEvent i) c = take_event i c"

text \<open>
  What the code takes for granted: the two TODOs about bundles outside the window, a joining
  client whose clock is not ahead of what it has heard, and fresh ids from \<open>RandomId\<close>.
\<close>

fun in_bounds :: "('e, 'g, 't, 'w) config \<Rightarrow> 'e cluster_in \<Rightarrow> ('e, 'g, 't, 'w) cluster \<Rightarrow> bool" where
  "in_bounds cf (TakeLocal n) c = (case get_node c n of None \<Rightarrow> True
     | Some nd \<Rightarrow> nd_taken nd < length (bu_out (nd_bundler nd)) \<longrightarrow>
         local_fits (bu_out (nd_bundler nd) ! nd_taken nd) (nd_updater nd))"
| "in_bounds cf (Hear n ks) c = (case get_node c n of None \<Rightarrow> True
     | Some nd \<Rightarrow> remote_fits (mail ks nd) (nd_updater nd))"
| "in_bounds cf (Connect rid) c =
     (0 \<le> rid \<and> EngineId rid \<noteq> host_id \<and> rid \<notin> set (map ct_id (cl_clients c)))"
| "in_bounds cf (JoinBoot k) c = (win_start (nd_updater (cl_host c)) + cf_max_frames cf + 2 \<le> max_i32)"
| "in_bounds cf _ c = True"

text \<open>A run in which every step is enabled, within the bounds, and does not panic.\<close>

fun cluster_run :: "('e, 'g, 't, 'w) config \<Rightarrow> 'e cluster_in list \<Rightarrow> ('e, 'g, 't, 'w) cluster \<Rightarrow>
  ('e, 'g, 't, 'w) cluster option" where
  "cluster_run cf [] c = Some c"
| "cluster_run cf (i # is) c =
     (if in_bounds cf i c
      then case cluster_step cf i c of Some (Inr c') \<Rightarrow> cluster_run cf is c' | _ \<Rightarrow> None
      else None)"

end
