(* ===== verification/Cluster_Invariant.thy ===== *)
theory Cluster_Invariant
  imports Cluster
begin

text \<open>
  The invariant of a cluster: every engine stands for a history of its own, made only of bundles
  that other engines have sent, each at most once; and every client started from a state that the
  host had made final.
\<close>

section \<open>The invariant\<close>

definition ident :: "('e, 'g, 't, 'w) cluster \<Rightarrow> nat \<Rightarrow> engine_id" where
  "ident c n = (case n of 0 \<Rightarrow> host_id | Suc k \<Rightarrow> EngineId (ct_id (cl_clients c ! k)))"

definition own_of :: "('e, 'g, 't, 'w) cluster \<Rightarrow> nat \<Rightarrow> 'e frame_bundle list" where
  "own_of c n = (case get_node c n of None \<Rightarrow> [] | Some nd \<Rightarrow> own (nd_updater nd))"

definition ids_ok :: "('e, 'g, 't, 'w) cluster \<Rightarrow> bool" where
  "ids_ok c \<longleftrightarrow> distinct (map ct_id (cl_clients c)) \<and>
     (\<forall>ct \<in> set (cl_clients c). 0 \<le> ct_id ct \<and> EngineId (ct_id ct) \<noteq> host_id)"

text \<open>The host's communicator: where the bundles it has passed on come from.\<close>

definition host_mail :: "('e, 'g, 't, 'w) cluster \<Rightarrow> bool" where
  "host_mail c \<longleftrightarrow> cm_conns (nd_comm (cl_host c)) = [0..<length (cl_clients c)] \<and>
     (\<forall>k \<in> set (cm_routines (nd_comm (cl_host c))). client_node c k \<noteq> None) \<and>
     distinct (nd_got (cl_host c)) \<and>
     (\<forall>(k, i) \<in> set (nd_got (cl_host c)). client_node c k \<noteq> None \<and> i < length (sent_on c 0 k)) \<and>
     raws (host_out c) = map (\<lambda>(k, i). sent_on c 0 k ! i) (nd_got (cl_host c)) \<and>
     (\<forall>k. distinct (map slot_key (spawned k (host_out c))) \<and>
        set (spawned k (host_out c)) \<subseteq> set (own_of c 0) \<union> {b \<in> set (raws (host_out c)). origin b \<noteq> ident c (Suc k)}) \<and>
     (\<forall>k. length (cl_clients c) \<le> k \<longrightarrow> spawned k (host_out c) = [] \<and> sent_data k (host_out c) = []) \<and>
     (\<forall>pb \<in> set (cm_bootstraps (nd_comm (cl_host c))). pb_conn pb < length (cl_clients c)) \<and>
     (\<forall>e \<in> set (engine_outs (host_out c)). \<exists>i. e = EngineJoined i)"

definition client_mail :: "('e, 'g, 't, 'w) cluster \<Rightarrow> nat \<Rightarrow> ('e, 'g, 't, 'w) node \<Rightarrow> bool" where
  "client_mail c k nd \<longleftrightarrow> cm_conns (nd_comm nd) = [0] \<and> cm_routines (nd_comm nd) = [0] \<and> cm_bootstraps (nd_comm nd) = [] \<and>
     spawned 0 (cm_out (nd_comm nd)) = own (nd_updater nd) \<and>
     (\<forall>p \<in> set (nd_got nd). fst p = 0 \<and> snd p < length (sent_on c (Suc k) 0)) \<and>
     (\<exists>js. raws (cm_out (nd_comm nd)) = map ((!) (sent_on c (Suc k) 0)) js \<and> distinct js \<and> set js \<subseteq> set (got_on 0 nd))"

text \<open>The data the host has sent on connection \<open>k\<close>: the initial data, then at most states it had made final.\<close>

definition host_data :: "('e, 'g, 't, 'w) config \<Rightarrow> ('e, 'g) history \<Rightarrow> ('e, 'g, 't, 'w) cluster \<Rightarrow> nat \<Rightarrow> bool" where
  "host_data cf s c k \<longleftrightarrow> (\<exists>hz w0 ws. sent_data k (host_out c) = w0 # ws \<and>
     cf_dec cf w0 = Some (InitialData hz (EngineId (ct_id (cl_clients c ! k)))) \<and>
     (\<forall>w \<in> set ws. \<exists>bm. cf_dec cf w = Some (BootData bm) \<and> true_boot (cf_ops cf) s (win_start (nd_updater (cl_host c))) bm))"

text \<open>A history that starts from a final state of another.\<close>

definition based :: "('e, 'g) game_ops \<Rightarrow> ('e, 'g) history \<Rightarrow> int \<Rightarrow> ('e, 'g) history \<Rightarrow> bool" where
  "based G s f t \<longleftrightarrow> hi_base s \<le> hi_base t \<and> hi_base t \<le> f \<and> state_at G s (hi_base t) = (hi_engines t, hi_game t)"

definition cluster_inv :: "('e, 'g, 't, 'w) config \<Rightarrow> (nat \<Rightarrow> ('e, 'g) history) \<Rightarrow> ('e, 'g, 't, 'w) cluster \<Rightarrow> bool" where
  "cluster_inv cf S c \<longleftrightarrow> ids_ok c \<and> host_mail c \<and>
     (\<forall>n nd. get_node c n = Some nd \<longrightarrow> node_ok (cf_ops cf) (ident c n) (S n) nd) \<and>
     (\<forall>k < length (cl_clients c). host_data cf (S 0) c k \<and>
        (ct_node (cl_clients c ! k) = None \<longrightarrow> distinct (ct_join (cl_clients c ! k)) \<and>
           (\<forall>i \<in> set (ct_join (cl_clients c ! k)). i < length (sent_on c (Suc k) 0)))) \<and>
     (\<forall>k nd. client_node c k = Some nd \<longrightarrow> client_mail c k nd \<and>
        based (cf_ops cf) (S 0) (win_start (nd_updater (cl_host c))) (S (Suc k))) \<and>
     hi_base (S 0) = 0 \<and> host_id \<in> fmdom' (hi_engines (S 0))"

lemma cluster_invD:
  assumes "cluster_inv cf S c"
  shows "ids_ok c" and "host_mail c" and "get_node c n = Some nd \<Longrightarrow> node_ok (cf_ops cf) (ident c n) (S n) nd"
    and "k < length (cl_clients c) \<Longrightarrow> host_data cf (S 0) c k"
    and "k < length (cl_clients c) \<Longrightarrow> ct_node (cl_clients c ! k) = None \<Longrightarrow> distinct (ct_join (cl_clients c ! k)) \<and>
           (\<forall>i \<in> set (ct_join (cl_clients c ! k)). i < length (sent_on c (Suc k) 0))"
    and "client_node c k = Some nd \<Longrightarrow> client_mail c k nd"
    and "client_node c k = Some nd \<Longrightarrow> based (cf_ops cf) (S 0) (win_start (nd_updater (cl_host c))) (S (Suc k))"
    and "hi_base (S 0) = 0" and "host_id \<in> fmdom' (hi_engines (S 0))"
  using assms unfolding cluster_inv_def by blast+

lemma get_node_simps [simp]:
  "get_node c 0 = Some (cl_host c)" "get_node c (Suc k) = client_node c k"
  by (simp_all add: get_node_def)

lemma ident_simps [simp]:
  "ident c 0 = host_id" "ident c (Suc k) = EngineId (ct_id (cl_clients c ! k))"
  by (simp_all add: ident_def)

lemma client_nodeD: "client_node c k = Some nd \<Longrightarrow> k < length (cl_clients c) \<and> ct_node (cl_clients c ! k) = Some nd"
  by (simp add: client_node_def split: if_splits)

text \<open>Different engines have different ids.\<close>

lemma ident_inj:
  assumes "ids_ok c" and "get_node c m \<noteq> None" and "get_node c n \<noteq> None" and "ident c m = ident c n"
  shows "m = n"
proof (cases m)
  case 0
  then show ?thesis
  proof (cases n)
    case (Suc k)
    then obtain nd where "client_node c k = Some nd" using assms(3) by auto
    then have "cl_clients c ! k \<in> set (cl_clients c)" using client_nodeD by (metis nth_mem)
    then show ?thesis using assms(1,4) 0 Suc by (auto simp: ids_ok_def)
  qed simp
next
  case (Suc j)
  then show ?thesis
  proof (cases n)
    case 0
    then show ?thesis using assms Suc by (auto simp: ids_ok_def dest!: client_nodeD)
  next
    case (Suc k)
    then show ?thesis using assms \<open>m = Suc j\<close> nth_eq_iff_index_eq [of "map ct_id (cl_clients c)" j k]
      by (auto simp: ids_ok_def dest!: client_nodeD)
  qed
qed

lemma own_of_sound:
  assumes "cluster_inv cf S c" and "b \<in> set (own_of c n)"
  shows "sound_bundle b" and "origin b = ident c n" and "get_node c n \<noteq> None"
proof -
  obtain nd where nd: "get_node c n = Some nd" "b \<in> set (own (nd_updater nd))"
    using assms(2) by (cases "get_node c n") (auto simp: own_of_def)
  note u = node_okD(1) [OF cluster_invD(3) [OF assms(1) nd(1)]]
  show "sound_bundle b" "origin b = ident c n" "get_node c n \<noteq> None"
    using upd_okD(5,6) [OF u] nd by auto
qed

lemma sorted_keys:
  assumes "sorted_wrt (<) (map fb_frame bs)"
  shows "distinct (map slot_key bs)"
proof -
  have "distinct (map fb_frame bs)" using assms by (simp add: strict_sorted_iff)
  then show ?thesis by (auto simp: distinct_map inj_on_def slot_key_def)
qed

lemma own_of_keys:
  assumes "cluster_inv cf S c"
  shows "distinct (map slot_key (own_of c n))"
proof (cases "get_node c n")
  case (Some nd)
  show ?thesis
    using sorted_keys [OF upd_okD(8) [OF node_okD(1) [OF cluster_invD(3) [OF assms Some]]]] Some by (simp add: own_of_def)
qed (simp add: own_of_def)

lemma sent_to_host:
  assumes "cluster_inv cf S c" and "client_node c k \<noteq> None"
  shows "sent_on c 0 k = own_of c (Suc k)"
  using assms cluster_invD(6) [OF assms(1), of k] by (auto simp: sent_on_def own_of_def client_mail_def)

section \<open>No bundle arrives twice\<close>

lemma picks_distinct:
  assumes inv: "cluster_inv cf S c" and d: "distinct ps"
    and p: "\<forall>(k, i) \<in> set ps. client_node c k \<noteq> None \<and> i < length (sent_on c 0 k)"
  shows "distinct (map slot_key (map (\<lambda>(k, i). sent_on c 0 k ! i) ps))"
    and "b \<in> set (map (\<lambda>(k, i). sent_on c 0 k ! i) ps) \<Longrightarrow> \<exists>k. b \<in> set (own_of c (Suc k))"
proof -
  have pick: "sent_on c 0 k ! i = own_of c (Suc k) ! i \<and> i < length (own_of c (Suc k)) \<and>
      origin (own_of c (Suc k) ! i) = ident c (Suc k) \<and> client_node c k \<noteq> None" if "(k, i) \<in> set ps" for k i
  proof -
    have k: "client_node c k \<noteq> None" "i < length (sent_on c 0 k)" using p that by auto
    then show ?thesis using sent_to_host [OF inv k(1)] own_of_sound(2) [OF inv, of "own_of c (Suc k) ! i" "Suc k"] by auto
  qed
  show "\<exists>k. b \<in> set (own_of c (Suc k))" if b: "b \<in> set (map (\<lambda>(k, i). sent_on c 0 k ! i) ps)"
  proof -
    obtain k i where ki: "(k, i) \<in> set ps" "b = sent_on c 0 k ! i" using b by auto
    with pick [OF ki(1)] show ?thesis by (metis nth_mem)
  qed
  have "inj_on (\<lambda>p. slot_key (case p of (k, i) \<Rightarrow> sent_on c 0 k ! i)) (set ps)"
  proof (rule inj_onI, clarify)
    fix k i k' i'
    assume ki: "(k, i) \<in> set ps" "(k', i') \<in> set ps" and eq: "slot_key (sent_on c 0 k ! i) = slot_key (sent_on c 0 k' ! i')"
    note a = pick [OF ki(1)] and b = pick [OF ki(2)]
    have "ident c (Suc k) = ident c (Suc k')" using eq a b by (simp add: slot_key_def)
    then have "Suc k = Suc k'" using a b by (intro ident_inj [OF cluster_invD(1) [OF inv]]) auto
    then show "k = k' \<and> i = i'"
      using eq a b nth_eq_iff_index_eq [OF own_of_keys [OF inv, of "Suc k"], of i i'] by auto
  qed
  then show "distinct (map slot_key (map (\<lambda>(k, i). sent_on c 0 k ! i) ps))"
    unfolding map_map using d by (simp add: distinct_map comp_def)
qed

lemma host_mailD:
  assumes "host_mail c"
  shows "cm_conns (nd_comm (cl_host c)) = [0..<length (cl_clients c)]"
    and "k \<in> set (cm_routines (nd_comm (cl_host c))) \<Longrightarrow> client_node c k \<noteq> None"
    and "distinct (nd_got (cl_host c))"
    and "\<forall>(k, i) \<in> set (nd_got (cl_host c)). client_node c k \<noteq> None \<and> i < length (sent_on c 0 k)"
    and "raws (host_out c) = map (\<lambda>(k, i). sent_on c 0 k ! i) (nd_got (cl_host c))"
    and "distinct (map slot_key (spawned k (host_out c)))"
    and "b \<in> set (spawned k (host_out c)) \<Longrightarrow> b \<in> set (own_of c 0) \<or> b \<in> set (raws (host_out c)) \<and> origin b \<noteq> ident c (Suc k)"
    and "length (cl_clients c) \<le> k \<Longrightarrow> spawned k (host_out c) = [] \<and> sent_data k (host_out c) = []"
    and "pb \<in> set (cm_bootstraps (nd_comm (cl_host c))) \<Longrightarrow> pb_conn pb < length (cl_clients c)"
    and "e \<in> set (engine_outs (host_out c)) \<Longrightarrow> \<exists>i. e = EngineJoined i"
  using assms unfolding host_mail_def by blast+

text \<open>The mail of an engine: sent by others, and never the same bundle twice.\<close>

lemma host_raws:
  assumes "cluster_inv cf S c"
  shows "distinct (map slot_key (raws (host_out c)))"
    and "b \<in> set (raws (host_out c)) \<Longrightarrow> \<exists>k. b \<in> set (own_of c (Suc k))"
  using picks_distinct [OF assms host_mailD(3,4) [OF cluster_invD(2) [OF assms] ]]
  by (simp_all add: host_mailD(5) [OF cluster_invD(2) [OF assms]])

lemma mail_from_others:
  assumes inv: "cluster_inv cf S c" and nd: "get_node c n = Some nd"
  shows "distinct (map slot_key (raws (cm_out (nd_comm nd))))"
    and "b \<in> set (raws (cm_out (nd_comm nd))) \<Longrightarrow> \<exists>m. m \<noteq> n \<and> b \<in> set (own_of c m)"
proof -
  note hm = host_mailD [OF cluster_invD(2) [OF inv]]
  have "distinct (map slot_key (raws (cm_out (nd_comm nd)))) \<and>
    (\<forall>b \<in> set (raws (cm_out (nd_comm nd))). \<exists>m. m \<noteq> n \<and> b \<in> set (own_of c m))"
  proof (cases n)
    case 0
    then show ?thesis using host_raws [OF inv] nd by (fastforce simp: host_out_def)
  next
    case (Suc k)
    then obtain js where js: "raws (cm_out (nd_comm nd)) = map ((!) (spawned k (host_out c))) js" "distinct js"
        "\<forall>j \<in> set js. j < length (spawned k (host_out c))"
      using cluster_invD(6) [OF inv, of k nd] nd by (fastforce simp: client_mail_def sent_on_def got_on_def)
    have "distinct (map slot_key (raws (cm_out (nd_comm nd))))"
      unfolding js(1) map_map using js(2,3) nth_eq_iff_index_eq [OF hm(6) [of k]]
      by (subst distinct_map) (auto simp: inj_on_def)
    moreover have "\<exists>m. m \<noteq> n \<and> b \<in> set (own_of c m)" if "b \<in> set (raws (cm_out (nd_comm nd)))" for b
    proof -
      have "b \<in> set (spawned k (host_out c))" using that js by auto
      then consider "b \<in> set (own_of c 0)" | "b \<in> set (raws (host_out c))" "origin b \<noteq> ident c n"
        using hm(7) Suc by auto
      then show ?thesis
      proof cases
        case 2
        then obtain m where "b \<in> set (own_of c (Suc m))" using host_raws(2) [OF inv] by blast
        then show ?thesis using 2(2) own_of_sound(2) [OF inv, of b "Suc m"] by (intro exI [of _ "Suc m"]) auto
      qed (use Suc in auto)
    qed
    ultimately show ?thesis by blast
  qed
  then show "distinct (map slot_key (raws (cm_out (nd_comm nd))))"
    and "b \<in> set (raws (cm_out (nd_comm nd))) \<Longrightarrow> \<exists>m. m \<noteq> n \<and> b \<in> set (own_of c m)"
    by blast+
qed

lemma mail_sound:
  assumes inv: "cluster_inv cf S c" and nd: "get_node c n = Some nd" and b: "b \<in> set (raws (cm_out (nd_comm nd)))"
  shows "sound_bundle b" and "origin b \<noteq> ident c n"
proof -
  obtain m where m: "m \<noteq> n" "b \<in> set (own_of c m)" using mail_from_others(2) [OF inv nd b] by blast
  show "sound_bundle b" using own_of_sound(1) [OF inv m(2)] .
  show "origin b \<noteq> ident c n"
    using own_of_sound(2,3) [OF inv m(2)] ident_inj [OF cluster_invD(1) [OF inv], of m n] nd m(1) by auto
qed

section \<open>One engine changes\<close>

lemma put_host_simps [simp]:
  "cl_host (put_node 0 nd c) = nd" "cl_clients (put_node 0 nd c) = cl_clients c"
  "client_node (put_node 0 nd c) = client_node c" "ident (put_node 0 nd c) = ident c"
  "ids_ok (put_node 0 nd c) = ids_ok c" "sent_on (put_node 0 nd c) 0 = sent_on c 0"
  "host_out (put_node 0 nd c) = cm_out (nd_comm nd)" "cl_events (put_node n nd c) = cl_events c"
  by (auto simp: put_node_def client_node_def [abs_def] ident_def [abs_def] ids_ok_def sent_on_def [abs_def]
      host_out_def split: nat.split)

lemma put_client_simps [simp]:
  "cl_host (put_node (Suc k) nd c) = cl_host c" "length (cl_clients (put_node (Suc k) nd c)) = length (cl_clients c)"
  "ct_id (cl_clients (put_node (Suc k) nd c) ! j) = ct_id (cl_clients c ! j)"
  "ct_join (cl_clients (put_node (Suc k) nd c) ! j) = ct_join (cl_clients c ! j)"
  "host_out (put_node (Suc k) nd c) = host_out c" "sent_on (put_node (Suc k) nd c) (Suc j) = sent_on c (Suc j)"
  "ident (put_node (Suc k) nd c) = ident c"
proof -
  have f: "g ((cl_clients c)[k := (cl_clients c ! k)\<lparr>ct_node := Some nd\<rparr>] ! j) = g (cl_clients c ! j)"
    if "\<And>ct. g (ct\<lparr>ct_node := Some nd\<rparr>) = g ct" for g :: "('a, 'b, 'c, 'd) client \<Rightarrow> 'x" and j
    by (cases "j = k"; cases "k < length (cl_clients c)") (simp_all add: that list_update_beyond)
  show "ct_id (cl_clients (put_node (Suc k) nd c) ! j) = ct_id (cl_clients c ! j)" for j
    unfolding put_node_def using f [of ct_id] by simp
  then show "ident (put_node (Suc k) nd c) = ident c" by (auto simp: ident_def split: nat.split)
  show "ct_join (cl_clients (put_node (Suc k) nd c) ! j) = ct_join (cl_clients c ! j)"
    unfolding put_node_def using f [of ct_join] by simp
qed (simp_all add: put_node_def host_out_def sent_on_def [abs_def])

lemma ids_ok_same:
  fixes c c' :: "('e, 'g, 't, 'w) cluster"
  assumes "map ct_id (cl_clients c') = map ct_id (cl_clients c)"
  shows "ids_ok c' = ids_ok c"
proof -
  have "ids_ok x \<longleftrightarrow> distinct (map ct_id (cl_clients x)) \<and>
      (\<forall>i \<in> set (map ct_id (cl_clients x)). 0 \<le> i \<and> EngineId i \<noteq> host_id)" for x :: "('e, 'g, 't, 'w) cluster"
    by (simp add: ids_ok_def)
  then show ?thesis using assms by metis
qed

lemma ids_ok_put [simp]: "ids_ok (put_node n nd c) = ids_ok c"
proof (cases n)
  case (Suc k)
  have "map ct_id (cl_clients (put_node n nd c)) = map ct_id (cl_clients c)"
    by (rule nth_equalityI) (simp_all add: Suc)
  then show ?thesis by (rule ids_ok_same)
qed simp

lemma client_node_put:
  "k < length (cl_clients c) \<Longrightarrow> client_node (put_node (Suc k) nd c) j = (if j = k then Some nd else client_node c j)"
  by (simp add: client_node_def put_node_def)

lemma get_node_put:
  "get_node c n \<noteq> None \<Longrightarrow> get_node (put_node n nd c) m = (if m = n then Some nd else get_node c m)"
  by (cases n; cases m) (auto simp: client_node_put dest!: client_nodeD)

lemma own_of_put:
  "get_node c n \<noteq> None \<Longrightarrow> own_of (put_node n nd c) m = (if m = n then own (nd_updater nd) else own_of c m)"
  by (simp add: own_of_def get_node_put)

text \<open>Which engine events the host's bundler has received matters to none of this.\<close>

lemma events_simps [simp]:
  "client_node (c\<lparr>cl_events := es\<rparr>) = client_node c" "get_node (c\<lparr>cl_events := es\<rparr>) = get_node c"
  "host_out (c\<lparr>cl_events := es\<rparr>) = host_out c" "sent_on (c\<lparr>cl_events := es\<rparr>) = sent_on c"
  "ident (c\<lparr>cl_events := es\<rparr>) = ident c" "own_of (c\<lparr>cl_events := es\<rparr>) = own_of c"
  by (auto simp: client_node_def [abs_def] get_node_def [abs_def] host_out_def sent_on_def [abs_def] ident_def [abs_def]
      own_of_def [abs_def] split: nat.split intro!: ext)

lemma inv_events [simp]: "cluster_inv cf S (c\<lparr>cl_events := es\<rparr>) = cluster_inv cf S c"
  by (simp add: cluster_inv_def ids_ok_def host_mail_def host_data_def client_mail_def)

section \<open>What a step keeps\<close>

text \<open>After a step every engine is still there, has not moved its window back, and its final frames are the same.\<close>

definition final_kept :: "('e, 'g) game_ops \<Rightarrow> (nat \<Rightarrow> ('e, 'g) history) \<Rightarrow> ('e, 'g, 't, 'w) cluster \<Rightarrow>
  (nat \<Rightarrow> ('e, 'g) history) \<Rightarrow> ('e, 'g, 't, 'w) cluster \<Rightarrow> bool" where
  "final_kept G S c S' c' \<longleftrightarrow> (\<forall>n nd. get_node c n = Some nd \<longrightarrow>
     (\<exists>nd'. get_node c' n = Some nd' \<and> win_start (nd_updater nd) \<le> win_start (nd_updater nd') \<and>
        hi_base (S' n) = hi_base (S n) \<and>
        (\<forall>f \<le> win_start (nd_updater nd). state_at G (S' n) f = state_at G (S n) f)))"

lemma final_kept_refl: "final_kept G S c S c"
  by (simp add: final_kept_def)

lemma final_keptD:
  assumes "final_kept G S c S' c'" and "get_node c n = Some nd"
  obtains nd' where "get_node c' n = Some nd'" and "win_start (nd_updater nd) \<le> win_start (nd_updater nd')"
    and "hi_base (S' n) = hi_base (S n)" and "\<And>f. f \<le> win_start (nd_updater nd) \<Longrightarrow> state_at G (S' n) f = state_at G (S n) f"
  using assms unfolding final_kept_def by blast

lemma final_kept_trans:
  assumes a: "final_kept G S c S' c'" and b: "final_kept G S' c' S'' c''"
  shows "final_kept G S c S'' c''"
  unfolding final_kept_def
proof (intro allI impI)
  fix n nd assume "get_node c n = Some nd"
  then obtain nd' where 1: "get_node c' n = Some nd'" "win_start (nd_updater nd) \<le> win_start (nd_updater nd')"
      "hi_base (S' n) = hi_base (S n)" "\<And>f. f \<le> win_start (nd_updater nd) \<Longrightarrow> state_at G (S' n) f = state_at G (S n) f"
    using final_keptD [OF a] by blast
  obtain nd'' where 2: "get_node c'' n = Some nd''" "win_start (nd_updater nd') \<le> win_start (nd_updater nd'')"
      "hi_base (S'' n) = hi_base (S' n)" "\<And>f. f \<le> win_start (nd_updater nd') \<Longrightarrow> state_at G (S'' n) f = state_at G (S' n) f"
    using final_keptD [OF b 1(1)] by blast
  show "\<exists>nd''. get_node c'' n = Some nd'' \<and> win_start (nd_updater nd) \<le> win_start (nd_updater nd'') \<and>
      hi_base (S'' n) = hi_base (S n) \<and> (\<forall>f \<le> win_start (nd_updater nd). state_at G (S'' n) f = state_at G (S n) f)"
    using 1 2 by (intro exI [of _ nd'']) auto
qed

lemma final_kept_put:
  assumes "get_node c n = Some nd" and "win_start (nd_updater nd) \<le> win_start (nd_updater nd')" and "hi_base t = hi_base (S n)"
    and "\<forall>f \<le> win_start (nd_updater nd). state_at G t f = state_at G (S n) f"
  shows "final_kept G S c (S(n := t)) (put_node n nd' c)"
  unfolding final_kept_def
proof (intro allI impI)
  fix m x assume "get_node c m = Some x"
  then show "\<exists>x'. get_node (put_node n nd' c) m = Some x' \<and> win_start (nd_updater x) \<le> win_start (nd_updater x') \<and>
      hi_base ((S(n := t)) m) = hi_base (S m) \<and>
      (\<forall>f \<le> win_start (nd_updater x). state_at G ((S(n := t)) m) f = state_at G (S m) f)"
    using assms by (cases "m = n") (simp_all add: get_node_put)
qed

lemma true_boot_kept:
  assumes "true_boot G s f bm" and "grows s t" and "\<forall>k \<le> f. state_at G t k = state_at G s k" and "f \<le> f'"
  shows "true_boot G t f' bm"
  using assms by (auto simp: true_boot_def grows_def)

lemma based_kept:
  assumes "based G s f r" and "grows s t" and "\<forall>k \<le> f. state_at G t k = state_at G s k" and "f \<le> f'"
  shows "based G t f' r"
  using assms by (auto simp: based_def grows_def)

lemma based_grows:
  assumes "based G s f r" and "grows r t"
  shows "based G s f t"
  using assms by (auto simp: based_def grows_def)

section \<open>The host changes\<close>

lemma client_mail_more:
  assumes "client_mail c k nd" and "sent_on c' (Suc k) 0 = sent_on c (Suc k) 0 @ bs"
  shows "client_mail c' k nd"
proof -
  obtain js where js: "raws (cm_out (nd_comm nd)) = map ((!) (sent_on c (Suc k) 0)) js" "distinct js" "set js \<subseteq> set (got_on 0 nd)"
    and got: "\<forall>p \<in> set (nd_got nd). fst p = 0 \<and> snd p < length (sent_on c (Suc k) 0)"
    using assms(1) unfolding client_mail_def by blast
  have "\<forall>j \<in> set js. j < length (sent_on c (Suc k) 0)" using js(3) got by (auto simp: got_on_def)
  then have "raws (cm_out (nd_comm nd)) = map ((!) (sent_on c' (Suc k) 0)) js" unfolding js(1) assms(2) by (simp add: nth_append)
  then show ?thesis using assms js(2,3) unfolding client_mail_def by fastforce
qed

lemma host_data_more:
  assumes h: "host_data cf s c k" and d: "sent_data k (host_out c') = sent_data k (host_out c) @ ws"
    and w: "\<forall>w \<in> set ws. \<exists>bm. cf_dec cf w = Some (BootData bm) \<and> true_boot (cf_ops cf) t (win_start (nd_updater (cl_host c'))) bm"
    and id: "ct_id (cl_clients c' ! k) = ct_id (cl_clients c ! k)" and g: "grows s t"
    and st: "\<forall>f \<le> win_start (nd_updater (cl_host c)). state_at (cf_ops cf) t f = state_at (cf_ops cf) s f"
    and ws: "win_start (nd_updater (cl_host c)) \<le> win_start (nd_updater (cl_host c'))"
  shows "host_data cf t c' k"
proof -
  obtain hz w0 vs where v: "sent_data k (host_out c) = w0 # vs"
      "cf_dec cf w0 = Some (InitialData hz (EngineId (ct_id (cl_clients c ! k))))"
      "\<forall>w \<in> set vs. \<exists>bm. cf_dec cf w = Some (BootData bm) \<and> true_boot (cf_ops cf) s (win_start (nd_updater (cl_host c))) bm"
    using h unfolding host_data_def by blast
  have "\<forall>w \<in> set (vs @ ws). \<exists>bm. cf_dec cf w = Some (BootData bm) \<and> true_boot (cf_ops cf) t (win_start (nd_updater (cl_host c'))) bm"
    using v(3) w true_boot_kept [OF _ g st ws] by fastforce
  then show ?thesis using v(1,2) d id by (auto simp: host_data_def)
qed

lemma host_changes:
  assumes inv: "cluster_inv cf S c" and hm: "host_mail (put_node 0 nd' c)" and ok: "node_ok (cf_ops cf) host_id t nd'"
    and g: "grows (S 0) t"
    and st: "\<forall>f \<le> win_start (nd_updater (cl_host c)). state_at (cf_ops cf) t f = state_at (cf_ops cf) (S 0) f"
    and ws: "win_start (nd_updater (cl_host c)) \<le> win_start (nd_updater nd')"
    and sp: "\<And>k. \<exists>bs. spawned k (cm_out (nd_comm nd')) = spawned k (host_out c) @ bs"
    and dt: "\<And>k. \<exists>ws. sent_data k (cm_out (nd_comm nd')) = sent_data k (host_out c) @ ws \<and> (\<forall>w \<in> set ws. \<exists>bm.
      cf_dec cf w = Some (BootData bm) \<and> true_boot (cf_ops cf) t (win_start (nd_updater nd')) bm)"
  shows "cluster_inv cf (S(0 := t)) (put_node 0 nd' c) \<and> final_kept (cf_ops cf) S c (S(0 := t)) (put_node 0 nd' c)"
proof
  note i = cluster_invD [OF inv]
  let ?c = "put_node 0 nd' c"
  have more: "\<exists>bs. sent_on ?c (Suc k) 0 = sent_on c (Suc k) 0 @ bs" for k using sp [of k] by (simp add: sent_on_def)
  show "cluster_inv cf (S(0 := t)) ?c"
    unfolding cluster_inv_def
  proof (intro conjI allI impI)
    show "ids_ok ?c" using i(1) by simp
    show "host_mail ?c" by (rule hm)
    show "hi_base ((S(0 := t)) 0) = 0" "host_id \<in> fmdom' (hi_engines ((S(0 := t)) 0))"
      using i(8,9) g by (auto simp: grows_def)
    show "node_ok (cf_ops cf) (ident ?c n) ((S(0 := t)) n) nd" if "get_node ?c n = Some nd" for n nd
      using that ok i(3) [of n nd] by (cases n) simp_all
    fix k
    show "host_data cf ((S(0 := t)) 0) ?c k" if "k < length (cl_clients ?c)"
    proof -
      obtain vs where vs: "sent_data k (host_out ?c) = sent_data k (host_out c) @ vs" "\<forall>w \<in> set vs. \<exists>bm.
          cf_dec cf w = Some (BootData bm) \<and> true_boot (cf_ops cf) t (win_start (nd_updater nd')) bm"
        using dt [of k] by auto
      show ?thesis using host_data_more [OF i(4) vs(1), where t = t] that vs(2) g st ws by simp
    qed
    show "distinct (ct_join (cl_clients ?c ! k))"
      if "k < length (cl_clients ?c)" "ct_node (cl_clients ?c ! k) = None" using i(5) that by simp
    show "\<forall>i \<in> set (ct_join (cl_clients ?c ! k)). i < length (sent_on ?c (Suc k) 0)"
      if "k < length (cl_clients ?c)" "ct_node (cl_clients ?c ! k) = None" using i(5) [of k] that more [of k] by auto
    show "client_mail ?c k nd" if "client_node ?c k = Some nd" for nd
      using client_mail_more [OF i(6)] that more [of k] by auto
    show "based (cf_ops cf) ((S(0 := t)) 0) (win_start (nd_updater (cl_host ?c))) ((S(0 := t)) (Suc k))"
      if "client_node ?c k = Some nd" for nd
    proof -
      have "client_node c k = Some nd" using that by simp
      from based_kept [OF i(7) [OF this] g st ws] show ?thesis by simp
    qed
  qed
  show "final_kept (cf_ops cf) S c (S(0 := t)) ?c"
    by (rule final_kept_put) (use ws g st in \<open>auto simp: grows_def\<close>)
qed

section \<open>Steps of the host\<close>

text \<open>A step that sends no bundle and no data.\<close>

lemma host_quiet:
  assumes inv: "cluster_inv cf S c" and ok: "node_ok (cf_ops cf) host_id (S 0) nd'"
    and same: "nd_updater nd' = nd_updater (cl_host c)" "nd_got nd' = nd_got (cl_host c)"
      "cm_conns (nd_comm nd') = cm_conns (nd_comm (cl_host c))" "cm_bootstraps (nd_comm nd') = cm_bootstraps (nd_comm (cl_host c))"
      "raws (cm_out (nd_comm nd')) = raws (host_out c)"
    and logs: "\<And>k. spawned k (cm_out (nd_comm nd')) = spawned k (host_out c)"
      "\<And>k. sent_data k (cm_out (nd_comm nd')) = sent_data k (host_out c)"
    and rt: "\<forall>k \<in> set (cm_routines (nd_comm nd')). client_node c k \<noteq> None"
    and en: "\<forall>e \<in> set (engine_outs (cm_out (nd_comm nd'))). \<exists>i. e = EngineJoined i"
  shows "cluster_inv cf S (put_node 0 nd' c) \<and> final_kept (cf_ops cf) S c S (put_node 0 nd' c)"
proof -
  note hm = host_mailD [OF cluster_invD(2) [OF inv]]
  have o: "own_of (put_node 0 nd' c) 0 = own_of c 0" by (simp add: own_of_def same(1))
  have "host_mail (put_node 0 nd' c)"
    unfolding host_mail_def o using hm logs same rt en by (simp add: subset_iff)
  from host_changes [OF inv this ok] show ?thesis using logs same by simp
qed

lemma host_input:
  assumes inv: "cluster_inv cf S c" and i: "solo_input i \<or> (\<exists>e \<in> set (engine_outs (host_out c)). i = LocalEngineEvent e)"
  shows "\<exists>nd'. node_input i (cl_host c) = Some (Inr nd') \<and> cluster_inv cf S (put_node 0 nd' c) \<and>
    final_kept (cf_ops cf) S c S (put_node 0 nd' c)"
proof -
  note hm = host_mailD [OF cluster_invD(2) [OF inv]]
  have "i = Tick \<or> (\<exists>e. i = GameEvent e) \<or> (\<exists>j. i = LocalEngineEvent (EngineJoined j) \<and> host_id = host_id)"
    using i hm(10) by (cases i) auto
  moreover have "node_ok (cf_ops cf) host_id (S 0) (cl_host c)" using cluster_invD(3) [OF inv, of 0] by simp
  ultimately obtain b where b: "node_input i (cl_host c) = Some (Inr ((cl_host c)\<lparr>nd_bundler := b\<rparr>))"
      "node_ok (cf_ops cf) host_id (S 0) ((cl_host c)\<lparr>nd_bundler := b\<rparr>)"
    using node_input_ok by blast
  have "cluster_inv cf S (put_node 0 ((cl_host c)\<lparr>nd_bundler := b\<rparr>) c) \<and>
    final_kept (cf_ops cf) S c S (put_node 0 ((cl_host c)\<lparr>nd_bundler := b\<rparr>) c)"
    by (rule host_quiet [OF inv b(2)]) (use hm(2,10) in \<open>auto simp: host_out_def\<close>)
  with b(1) show ?thesis by blast
qed

lemma host_receive:
  assumes inv: "cluster_inv cf S c" and k: "k \<in> set (cm_routines (nd_comm (cl_host c)))"
    and i: "i < length (sent_on c 0 k)" "i \<notin> set (got_on k (cl_host c))"
  shows "\<exists>nd'. node_receive enc dec k i (sent_on c 0 k ! i) (cl_host c) = Some (Inr nd') \<and>
    cluster_inv cf S (put_node 0 nd' c) \<and> final_kept (cf_ops cf) S c S (put_node 0 nd' c)"
proof -
  let ?h = "cl_host c" and ?b = "sent_on c 0 k ! i"
  let ?nd = "?h\<lparr>nd_comm := on_remote ?b k (nd_comm ?h), nd_got := nd_got ?h @ [(k, i)]\<rparr>"
  note hm = host_mailD [OF cluster_invD(2) [OF inv]]
  have ok: "node_ok (cf_ops cf) host_id (S 0) ?h" using cluster_invD(3) [OF inv, of 0] by simp
  note nr = node_receive_ok [OF ok k]
  note l = on_remote_logs [OF node_okD(5) [OF ok], where b = ?b and j = k]
  have ck: "client_node c k \<noteq> None" using hm(2) [OF k] .
  have b: "?b \<in> set (own_of c (Suc k))" using sent_to_host [OF inv ck] i(1) by simp
  note bo = own_of_sound [OF inv b]
  have klen: "k < length (cl_clients c)" using ck client_nodeD by blast
  have d: "distinct (nd_got ?h @ [(k, i)])" using hm(3) i(2) by (force simp: got_on_def)
  have idx: "\<forall>(j, l) \<in> set (nd_got ?h @ [(k, i)]). client_node c j \<noteq> None \<and> l < length (sent_on c 0 j)"
    using hm(4) ck i(1) by auto
  have rw: "map (\<lambda>(k, i). sent_on c 0 k ! i) (nd_got ?h @ [(k, i)]) = raws (host_out c) @ [?b]" using hm(5) by simp
  have key: "slot_key ?b \<notin> slot_key ` set (raws (host_out c))"
    using picks_distinct(1) [OF inv d idx] unfolding rw by simp
  have hid: "host_id \<noteq> ident c (Suc k)" using ident_inj [OF cluster_invD(1) [OF inv], of 0 "Suc k"] ck by auto
  have new: "slot_key ?b \<notin> slot_key ` set (spawned j (host_out c))" for j
  proof
    assume "slot_key ?b \<in> slot_key ` set (spawned j (host_out c))"
    then obtain x where x: "x \<in> set (spawned j (host_out c))" "slot_key x = slot_key ?b" by auto
    have "origin x = ident c (Suc k)" using x(2) bo(2) by (simp add: slot_key_def)
    then have "x \<notin> set (own_of c 0)" using own_of_sound(2) [OF inv, of x 0] hid by auto
    then show False using hm(7) [OF x(1)] x(2) key by (metis imageI)
  qed
  have other: "origin ?b \<noteq> ident c (Suc j)" if "j \<noteq> k" "j < length (cl_clients c)" for j
    using bo(2) cluster_invD(1) [OF inv] nth_eq_iff_index_eq [of "map ct_id (cl_clients c)" j k] that klen
    by (auto simp: ids_ok_def)
  have sp: "spawned j (cm_out (nd_comm ?nd)) = spawned j (host_out c) @ (if j < length (cl_clients c) \<and> j \<noteq> k then [?b] else [])" for j
    using l(2) hm(1) by (simp add: host_out_def)
  have "host_mail (put_node 0 ?nd c)"
    unfolding host_mail_def
  proof (intro conjI allI impI)
    let ?c = "put_node 0 ?nd c"
    have r: "raws (host_out ?c) = raws (host_out c) @ [?b]" using l(3) by (simp add: host_out_def)
    show "raws (host_out ?c) = map (\<lambda>(k, i). sent_on ?c 0 k ! i) (nd_got (cl_host ?c))" unfolding r using rw by simp
    show "distinct (nd_got (cl_host ?c))" using d by simp
    show "\<forall>(k, i) \<in> set (nd_got (cl_host ?c)). client_node ?c k \<noteq> None \<and> i < length (sent_on ?c 0 k)" using idx by simp
    fix j
    have o: "own_of ?c 0 = own_of c 0" by (simp add: own_of_def)
    show "distinct (map slot_key (spawned j (host_out ?c)))" using sp [of j] hm(6) [of j] new [of j] by (cases "j < length (cl_clients c) \<and> j \<noteq> k") auto
    show "set (spawned j (host_out ?c)) \<subseteq> set (own_of ?c 0) \<union> {b \<in> set (raws (host_out ?c)). origin b \<noteq> ident ?c (Suc j)}"
      unfolding o r using sp [of j] hm(7) [of _ j] other [of j] by auto
    show "spawned j (host_out ?c) = []" "sent_data j (host_out ?c) = []" if "length (cl_clients ?c) \<le> j"
      using sp [of j] l(4) [of j] hm(8) [of j] that by (simp_all add: host_out_def)
  qed (use hm(1,2,9,10) l(1,5,6) in \<open>auto simp: same_conns_def host_out_def\<close>)
  then have "cluster_inv cf (S(0 := S 0)) (put_node 0 ?nd c) \<and> final_kept (cf_ops cf) S c (S(0 := S 0)) (put_node 0 ?nd c)"
    by (rule host_changes [OF inv _ nr(2)]) (use sp l(4) in \<open>auto simp: host_out_def\<close>)
  then show ?thesis using nr(1) by auto
qed

lemma host_round:
  assumes inv: "cluster_inv cf S c" and r: "node_round (cf_ops cf) (cf_enc cf) host_id (S 0) (cl_host c) t nd'"
    and codec: "\<And>p w. cf_enc cf p = Some w \<Longrightarrow> cf_dec cf w = Some p"
  shows "cluster_inv cf (S(0 := t)) (put_node 0 nd' c) \<and> final_kept (cf_ops cf) S c (S(0 := t)) (put_node 0 nd' c)"
proof -
  let ?c = "put_node 0 nd' c" and ?h = "cl_host c" and ?G = "cf_ops cf"
  note hm = host_mailD [OF cluster_invD(2) [OF inv]]
  have ok: "node_ok ?G host_id (S 0) ?h" using cluster_invD(3) [OF inv, of 0] by simp
  have ok': "node_ok ?G host_id t nd'" and gr: "grows (S 0) t" and ws: "win_start (nd_updater ?h) \<le> win_start (nd_updater nd')"
    and st: "\<forall>f \<le> win_start (nd_updater ?h). state_at ?G t f = state_at ?G (S 0) f" and got: "nd_got nd' = nd_got ?h"
    using r by (simp_all add: node_round_def)
  note l = node_round_logs [OF r ok]
  obtain news where news: "own (nd_updater nd') = own (nd_updater ?h) @ news"
      "\<And>k. spawned k (cm_out (nd_comm nd')) = spawned k (host_out c) @ (if k < length (cl_clients c) then news else [])"
    using l(1) hm(1) by (auto simp: host_out_def)
  have own0: "own_of c 0 = own (nd_updater ?h)" by (simp add: own_of_def)
  have key: "distinct (map slot_key (own (nd_updater ?h) @ news))"
    using sorted_keys [OF upd_okD(8) [OF node_okD(1) [OF ok']]] unfolding news(1) .
  have newid: "origin b = host_id" if "b \<in> set news" for b
    using upd_okD(6) [OF node_okD(1) [OF ok']] that by (simp add: news(1))
  have mail: "distinct (map slot_key (spawned k (cm_out (nd_comm nd'))))" for k
  proof -
    have "slot_key x \<noteq> slot_key y" if "x \<in> set (spawned k (host_out c))" "y \<in> set news" for x y
    proof (cases "x \<in> set (own (nd_updater ?h))")
      case True
      have "slot_key ` set (own (nd_updater ?h)) \<inter> slot_key ` set news = {}" using key by simp
      then show ?thesis using True that(2) by blast
    next
      case False
      then have "x \<in> set (raws (cm_out (nd_comm ?h)))" using hm(7) [OF that(1)] by (simp add: own0 host_out_def)
      then have "origin x \<noteq> host_id" using mail_sound(2) [OF inv, of 0 ?h] by simp
      then show ?thesis using newid [OF that(2)] by (auto simp: slot_key_def)
    qed
    then have dj: "slot_key ` set (spawned k (host_out c)) \<inter> slot_key ` set news = {}" by blast
    have "distinct (map slot_key news)" using key by simp
    then have "distinct (map slot_key (spawned k (host_out c)) @ map slot_key news)"
      using hm(6) [of k] dj by (simp only: distinct_append set_map)
    then show ?thesis using hm(6) [of k] by (simp add: news(2))
  qed
  have "host_mail ?c"
    unfolding host_mail_def
  proof (intro conjI allI impI)
    fix k
    have o: "own_of ?c 0 = own_of c 0 @ news" using own0 by (simp add: own_of_def news(1))
    have rw: "raws (host_out ?c) = raws (host_out c)" using l(3) by (simp add: host_out_def)
    show "distinct (map slot_key (spawned k (host_out ?c)))" using mail by simp
    show "set (spawned k (host_out ?c)) \<subseteq> set (own_of ?c 0) \<union> {b \<in> set (raws (host_out ?c)). origin b \<noteq> ident ?c (Suc k)}"
      unfolding o rw using hm(7) [of _ k] by (auto simp: news(2))
    show "raws (host_out ?c) = map (\<lambda>(k, i). sent_on ?c 0 k ! i) (nd_got (cl_host ?c))"
      unfolding rw using hm(5) got by simp
    show "spawned k (host_out ?c) = []" if "length (cl_clients ?c) \<le> k" using hm(8) [of k] that by (simp add: news(2))
    show "sent_data k (host_out ?c) = []" if "length (cl_clients ?c) \<le> k"
    proof -
      have "k \<notin> pb_conn ` set (cm_bootstraps (nd_comm ?h))" using hm(9) that by fastforce
      then show ?thesis using l(6) [of k] hm(8) [of k] that by (simp add: boots_only_def host_out_def)
    qed
    show "\<forall>pb \<in> set (cm_bootstraps (nd_comm (cl_host ?c))). pb_conn pb < length (cl_clients ?c)"
      using l(6) hm(9) by (auto simp: boots_only_def)
    show "\<forall>k \<in> set (cm_routines (nd_comm (cl_host ?c))). client_node ?c k \<noteq> None"
      using l(2) hm(2) by (simp add: same_conns_def)
  qed (use hm(1,3,4,10) l(2,4) got in \<open>auto simp: same_conns_def host_out_def\<close>)
  then show ?thesis
  proof (rule host_changes [OF inv _ ok' gr st ws])
    fix k
    show "\<exists>bs. spawned k (cm_out (nd_comm nd')) = spawned k (host_out c) @ bs" using news(2) by blast
    show "\<exists>ws. sent_data k (cm_out (nd_comm nd')) = sent_data k (host_out c) @ ws \<and> (\<forall>w \<in> set ws. \<exists>bm.
        cf_dec cf w = Some (BootData bm) \<and> true_boot (cf_ops cf) t (win_start (nd_updater nd')) bm)"
      using l(5) [of k] codec by (metis host_out_def)
  qed
qed

lemma node_ok_comm:
  assumes "node_ok G me s nd" and "raws (cm_out c) = raws (cm_out (nd_comm nd))" and "cm_phase c = cm_phase (nd_comm nd)"
    and "distinct (cm_conns c)"
  shows "node_ok G me s (nd\<lparr>nd_comm := c\<rparr>)"
proof -
  have "next_frame (nd\<lparr>nd_comm := c\<rparr>) = next_frame nd" by (simp add: next_frame_def waiting_def split: list.split)
  moreover have "mail ks (nd\<lparr>nd_comm := c\<rparr>) = mail ks nd" for ks using assms(2) by (simp add: mail_def)
  ultimately show ?thesis using assms by (simp add: node_ok_def)
qed

lemma bootstrap_routine_logs [simp]:
  "spawned j (cm_out (bootstrap_routine dec k i w c)) = spawned j (cm_out c)"
  "sent_data j (cm_out (bootstrap_routine dec k i w c)) = sent_data j (cm_out c)"
  "raws (cm_out (bootstrap_routine dec k i w c)) = raws (cm_out c)"
  "cm_conns (bootstrap_routine dec k i w c) = cm_conns c" "cm_phase (bootstrap_routine dec k i w c) = cm_phase c"
  "cm_bootstraps (bootstrap_routine dec k i w c) = cm_bootstraps c"
  "set (cm_routines (bootstrap_routine dec k i w c)) = set (cm_routines c) \<union> (if confirmed dec w then {k} else {})"
  "engine_outs (cm_out (bootstrap_routine dec k i w c)) = engine_outs (cm_out c) @ (if confirmed dec w then [EngineJoined i] else [])"
  by (simp_all add: bootstrap_routine_def Let_def)

lemma host_confirm:
  assumes inv: "cluster_inv cf S c" and r: "confirm cf k c = Some r"
  shows "\<exists>c'. r = Inr c' \<and> cluster_inv cf S c' \<and> final_kept (cf_ops cf) S c S c'"
proof -
  let ?h = "cl_host c"
  note hm = host_mailD [OF cluster_invD(2) [OF inv]]
  obtain w where ck: "client_node c k \<noteq> None"
    and w: "r = Inr (put_node 0 (?h\<lparr>nd_comm := bootstrap_routine (cf_dec cf) k (EngineId (ct_id (cl_clients c ! k))) (Some w) (nd_comm ?h)\<rparr>) c)"
    using r by (auto simp: confirm_def put_node_def split: option.splits list.splits if_splits)
  let ?nd = "?h\<lparr>nd_comm := bootstrap_routine (cf_dec cf) k (EngineId (ct_id (cl_clients c ! k))) (Some w) (nd_comm ?h)\<rparr>"
  have ok: "node_ok (cf_ops cf) host_id (S 0) ?h" using cluster_invD(3) [OF inv, of 0] by simp
  have ok': "node_ok (cf_ops cf) host_id (S 0) ?nd"
    by (rule node_ok_comm [OF ok]) (use node_okD(5) [OF ok] in simp_all)
  have "cluster_inv cf S (put_node 0 ?nd c) \<and> final_kept (cf_ops cf) S c S (put_node 0 ?nd c)"
    by (rule host_quiet [OF inv ok']) (use hm(2,10) ck in \<open>auto simp: host_out_def\<close>)
  then show ?thesis using w by blast
qed

section \<open>A client changes\<close>

lemma client_changes:
  assumes inv: "cluster_inv cf S c" and k: "k < length (cl_clients c)" and ok: "node_ok (cf_ops cf) (ident c (Suc k)) t nd'"
    and cm: "client_mail (put_node (Suc k) nd' c) k nd'"
    and sp: "\<exists>bs. spawned 0 (cm_out (nd_comm nd')) = sent_on c 0 k @ bs"
    and bs: "based (cf_ops cf) (S 0) (win_start (nd_updater (cl_host c))) t"
  shows "cluster_inv cf (S(Suc k := t)) (put_node (Suc k) nd' c)"
proof -
  let ?c = "put_node (Suc k) nd' c"
  note i = cluster_invD [OF inv] and hm = host_mailD [OF cluster_invD(2) [OF inv]]
  have sent: "\<exists>bs. sent_on ?c 0 j = sent_on c 0 j @ bs" for j
    using sp by (simp add: sent_on_def client_node_put [OF k])
  have pick: "sent_on ?c 0 j ! l = sent_on c 0 j ! l" "l < length (sent_on ?c 0 j)" if "l < length (sent_on c 0 j)" for j l
    using sent [of j] that by (auto simp: nth_append)
  have cn: "client_node c j \<noteq> None \<Longrightarrow> client_node ?c j \<noteq> None" for j by (simp add: client_node_put [OF k])
  have "host_mail ?c"
    unfolding host_mail_def
  proof (intro conjI allI impI)
    show "raws (host_out ?c) = map (\<lambda>(k, i). sent_on ?c 0 k ! i) (nd_got (cl_host ?c))"
      using hm(4,5) pick(1) by (auto simp: case_prod_beta)
    show "\<forall>(j, l) \<in> set (nd_got (cl_host ?c)). client_node ?c j \<noteq> None \<and> l < length (sent_on ?c 0 j)"
      using hm(4) pick(2) cn by fastforce
    have "own_of ?c 0 = own_of c 0" by (simp add: own_of_def)
    then show "set (spawned j (host_out ?c)) \<subseteq> set (own_of ?c 0) \<union> {b \<in> set (raws (host_out ?c)). origin b \<noteq> ident ?c (Suc j)}" for j
      using hm(7) [of _ j] by auto
  qed (use hm(1,2,3,6,8,9,10) cn in simp_all)
  note hm' = this
  have same: "ct_node (cl_clients c ! j) = None" if "j < length (cl_clients c)" "ct_node (cl_clients ?c ! j) = None" for j
    using that by (cases "j = k") (simp_all add: put_node_def)
  show ?thesis
    unfolding cluster_inv_def
  proof (intro conjI allI impI)
    show "ids_ok ?c" "host_mail ?c" using i(1) hm' by simp_all
    show "hi_base ((S(Suc k := t)) 0) = 0" "host_id \<in> fmdom' (hi_engines ((S(Suc k := t)) 0))" using i(8,9) by simp_all
    show "node_ok (cf_ops cf) (ident ?c n) ((S(Suc k := t)) n) nd" if "get_node ?c n = Some nd" for n nd
      using that ok i(3) [of n nd] by (cases n) (auto simp: client_node_put [OF k] split: if_splits)
    fix j
    show "host_data cf ((S(Suc k := t)) 0) ?c j" if "j < length (cl_clients ?c)"
      using i(4) [of j] that by (simp add: host_data_def)
    show "distinct (ct_join (cl_clients ?c ! j))" "\<forall>i \<in> set (ct_join (cl_clients ?c ! j)). i < length (sent_on ?c (Suc j) 0)"
      if "j < length (cl_clients ?c)" "ct_node (cl_clients ?c ! j) = None" using i(5) [of j] same [of j] that by simp_all
    fix nd assume nd: "client_node ?c j = Some nd"
    show "client_mail ?c j nd" using nd cm i(6) [of j nd]
      by (cases "j = k") (simp_all add: client_node_put [OF k] client_mail_def)
    show "based (cf_ops cf) ((S(Suc k := t)) 0) (win_start (nd_updater (cl_host ?c))) ((S(Suc k := t)) (Suc j))"
      using nd bs i(7) [of j nd] by (cases "j = k") (simp_all add: client_node_put [OF k])
  qed
qed

lemma client_moves:
  assumes inv: "cluster_inv cf S c" and nd: "client_node c k = Some nd" and ok: "node_ok (cf_ops cf) (ident c (Suc k)) t nd'"
    and cm: "client_mail (put_node (Suc k) nd' c) k nd'"
    and sp: "\<exists>bs. spawned 0 (cm_out (nd_comm nd')) = spawned 0 (cm_out (nd_comm nd)) @ bs"
    and g: "grows (S (Suc k)) t"
    and st: "\<forall>f \<le> win_start (nd_updater nd). state_at (cf_ops cf) t f = state_at (cf_ops cf) (S (Suc k)) f"
    and ws: "win_start (nd_updater nd) \<le> win_start (nd_updater nd')"
  shows "cluster_inv cf (S(Suc k := t)) (put_node (Suc k) nd' c) \<and>
    final_kept (cf_ops cf) S c (S(Suc k := t)) (put_node (Suc k) nd' c)"
proof
  show "cluster_inv cf (S(Suc k := t)) (put_node (Suc k) nd' c)"
  proof (rule client_changes [OF inv _ ok cm])
    show "k < length (cl_clients c)" using client_nodeD [OF nd] by simp
    show "\<exists>bs. spawned 0 (cm_out (nd_comm nd')) = sent_on c 0 k @ bs" using sp nd by (simp add: sent_on_def)
    show "based (cf_ops cf) (S 0) (win_start (nd_updater (cl_host c))) t" using based_grows [OF cluster_invD(7) [OF inv nd] g] .
  qed
  show "final_kept (cf_ops cf) S c (S(Suc k := t)) (put_node (Suc k) nd' c)"
    by (rule final_kept_put [OF _ ws]) (use nd g st in \<open>auto simp: grows_def\<close>)
qed

lemma got_on_same: "nd_got nd' = nd_got nd \<Longrightarrow> got_on k nd' = got_on k nd"
  by (simp add: got_on_def)

lemma client_round:
  assumes inv: "cluster_inv cf S c" and nd: "client_node c k = Some nd"
    and r: "node_round (cf_ops cf) (cf_enc cf) (ident c (Suc k)) (S (Suc k)) nd t nd'"
  shows "cluster_inv cf (S(Suc k := t)) (put_node (Suc k) nd' c) \<and>
    final_kept (cf_ops cf) S c (S(Suc k := t)) (put_node (Suc k) nd' c)"
proof -
  have ok: "node_ok (cf_ops cf) (ident c (Suc k)) (S (Suc k)) nd" using cluster_invD(3) [OF inv, of "Suc k"] nd by simp
  note l = node_round_logs [OF r ok] and cm = cluster_invD(6) [OF inv nd]
  have conns: "cm_conns (nd_comm nd) = [0]" using cm by (simp add: client_mail_def)
  obtain news where news: "own (nd_updater nd') = own (nd_updater nd) @ news"
      "spawned 0 (cm_out (nd_comm nd')) = spawned 0 (cm_out (nd_comm nd)) @ news"
    using l(1) conns by auto
  have got: "nd_got nd' = nd_got nd" using r by (simp add: node_round_def)
  have cm': "client_mail (put_node (Suc k) nd' c) k nd'"
    using cm l(2,3) l(6) [of 0] news got got_on_same [OF got]
    by (simp add: client_mail_def same_conns_def boots_only_def del: ex_simps)
  show ?thesis
    by (rule client_moves [OF inv nd _ cm']) (use r news in \<open>simp_all add: node_round_def\<close>)
qed

lemma client_input:
  assumes inv: "cluster_inv cf S c" and nd: "client_node c k = Some nd" and i: "solo_input i"
  shows "\<exists>nd'. node_input i nd = Some (Inr nd') \<and> cluster_inv cf S (put_node (Suc k) nd' c) \<and>
    final_kept (cf_ops cf) S c S (put_node (Suc k) nd' c)"
proof -
  have ok: "node_ok (cf_ops cf) (ident c (Suc k)) (S (Suc k)) nd" using cluster_invD(3) [OF inv, of "Suc k"] nd by simp
  have "i = Tick \<or> (\<exists>e. i = GameEvent e)" using i by (cases i) auto
  then obtain b where b: "node_input i nd = Some (Inr (nd\<lparr>nd_bundler := b\<rparr>))"
      "node_ok (cf_ops cf) (ident c (Suc k)) (S (Suc k)) (nd\<lparr>nd_bundler := b\<rparr>)"
    using node_input_ok [OF ok] by blast
  have "client_mail (put_node (Suc k) (nd\<lparr>nd_bundler := b\<rparr>) c) k (nd\<lparr>nd_bundler := b\<rparr>)"
    using cluster_invD(6) [OF inv nd] got_on_same [of "nd\<lparr>nd_bundler := b\<rparr>" nd] by (simp add: client_mail_def)
  from client_moves [OF inv nd b(2) this] b(1) show ?thesis by auto
qed

lemma client_receive:
  assumes inv: "cluster_inv cf S c" and nd: "client_node c k = Some nd" and j: "j \<in> set (cm_routines (nd_comm nd))"
    and i: "i < length (sent_on c (Suc k) j)" "i \<notin> set (got_on j nd)"
  shows "\<exists>nd'. node_receive enc dec j i (sent_on c (Suc k) j ! i) nd = Some (Inr nd') \<and> cluster_inv cf S (put_node (Suc k) nd' c) \<and>
    final_kept (cf_ops cf) S c S (put_node (Suc k) nd' c)"
proof -
  have ok: "node_ok (cf_ops cf) (ident c (Suc k)) (S (Suc k)) nd" using cluster_invD(3) [OF inv, of "Suc k"] nd by simp
  note cm = cluster_invD(6) [OF inv nd]
  have j0: "j = 0" using j cm by (simp add: client_mail_def)
  let ?b = "sent_on c (Suc k) 0 ! i"
  let ?nd = "nd\<lparr>nd_comm := on_remote ?b 0 (nd_comm nd), nd_got := nd_got nd @ [(0, i)]\<rparr>"
  note nr = node_receive_ok [OF ok j] and l = on_remote_logs [OF node_okD(5) [OF ok], where b = ?b and j = 0]
  obtain js where js: "raws (cm_out (nd_comm nd)) = map ((!) (sent_on c (Suc k) 0)) js" "distinct js" "set js \<subseteq> set (got_on 0 nd)"
    using cm unfolding client_mail_def by blast
  have sp: "spawned 0 (cm_out (nd_comm ?nd)) = spawned 0 (cm_out (nd_comm nd))" using l(2) [of 0] by simp
  have "client_mail (put_node (Suc k) ?nd c) k ?nd"
    unfolding client_mail_def
  proof (intro conjI)
    show "\<exists>js. raws (cm_out (nd_comm ?nd)) = map ((!) (sent_on (put_node (Suc k) ?nd c) (Suc k) 0)) js \<and> distinct js \<and>
        set js \<subseteq> set (got_on 0 ?nd)"
      by (rule exI [of _ "js @ [i]"]) (use js i j0 l(3) in \<open>auto simp: got_on_def\<close>)
    show "\<forall>p \<in> set (nd_got ?nd). fst p = 0 \<and> snd p < length (sent_on (put_node (Suc k) ?nd c) (Suc k) 0)"
      using cm i(1) j0 by (auto simp: client_mail_def sent_on_def)
  qed (use cm l(1,6) sp in \<open>simp_all add: client_mail_def same_conns_def\<close>)
  from client_moves [OF inv nd nr(2) [where b = ?b and i = i, unfolded j0] this] nr(1) show ?thesis using sp j0 by auto
qed

section \<open>A client joins\<close>

lemma final_kept_more:
  assumes "\<And>n nd. get_node c n = Some nd \<Longrightarrow> \<exists>nd'. get_node c' n = Some nd' \<and> nd_updater nd' = nd_updater nd \<and> S' n = S n"
  shows "final_kept G S c S' c'"
  unfolding final_kept_def
proof (intro allI impI)
  fix n nd assume "get_node c n = Some nd"
  from assms [OF this] show "\<exists>nd'. get_node c' n = Some nd' \<and> win_start (nd_updater nd) \<le> win_start (nd_updater nd') \<and>
      hi_base (S' n) = hi_base (S n) \<and> (\<forall>f \<le> win_start (nd_updater nd). state_at G (S' n) f = state_at G (S n) f)"
    by auto
qed

lemma connect_ok:
  assumes inv: "cluster_inv cf S c" and r: "connect cf rid c = Some r"
    and rid: "0 \<le> rid" "EngineId rid \<noteq> host_id" "rid \<notin> set (map ct_id (cl_clients c))"
    and codec: "\<And>p. \<exists>w. cf_enc cf p = Some w \<and> cf_dec cf w = Some p"
  shows "\<exists>c'. r = Inr c' \<and> cluster_inv cf S c' \<and> final_kept (cf_ops cf) S c S c'"
proof -
  note i = cluster_invD [OF inv] and hm = host_mailD [OF cluster_invD(2) [OF inv]]
  let ?h = "cl_host c" and ?n = "length (cl_clients c)"
  obtain w where w: "cf_enc cf (InitialData (i32 (cm_horizon (nd_comm ?h) + 1)) (EngineId rid)) = Some w"
      "cf_dec cf w = Some (InitialData (i32 (cm_horizon (nd_comm ?h) + 1)) (EngineId rid))"
    using codec by blast
  define cm where "cm = on_new_conn (cf_enc cf) ?n rid (nd_comm ?h)"
  have cm: "cm_conns cm = cm_conns (nd_comm ?h) @ [?n]" "cm_phase cm = cm_phase (nd_comm ?h)" "cm_routines cm = cm_routines (nd_comm ?h)"
    "cm_out cm = host_out c @ [SendData ?n w]"
    "cm_bootstraps cm = cm_bootstraps (nd_comm ?h) @ [\<lparr>pb_conn = ?n, pb_start = i32 (cm_horizon (nd_comm ?h) + 1)\<rparr>]"
    using w(1) by (simp_all add: cm_def on_new_conn_def host_out_def)
  define c' where "c' = c\<lparr>cl_host := ?h\<lparr>nd_comm := cm\<rparr>, cl_clients := cl_clients c @ [\<lparr>ct_id = rid, ct_join = [], ct_node = None\<rparr>]\<rparr>"
  have ok: "node_ok (cf_ops cf) host_id (S 0) ?h" using i(3) [of 0] by simp
  have r': "r = Inr c'" using r by (auto simp: connect_def c'_def cm_def split: if_splits)
  have cl: "cl_host c' = ?h\<lparr>nd_comm := cm\<rparr>" "host_out c' = host_out c @ [SendData ?n w]" "length (cl_clients c') = Suc ?n"
    "cl_clients c' ! ?n = \<lparr>ct_id = rid, ct_join = [], ct_node = None\<rparr>"
    by (simp_all add: c'_def host_out_def cm(4))
  have old: "cl_clients c' ! k = cl_clients c ! k" if "k < ?n" for k using that by (simp add: c'_def nth_append)
  have cn: "client_node c' k = client_node c k" for k
    by (cases "k < ?n"; cases "k = ?n") (auto simp: client_node_def cl old)
  have so: "sent_on c' 0 k = sent_on c 0 k" "sent_on c' (Suc k) 0 = sent_on c (Suc k) 0" for k
    by (simp_all add: sent_on_def cn cl)
  have ow: "own_of c' n = own_of c n" for n by (cases n) (simp_all add: own_of_def cn cl)
  have ids: "ident c' (Suc k) = ident c (Suc k)" if "k < ?n" for k using old [OF that] by simp
  have hm': "host_mail c'"
    unfolding host_mail_def
  proof (intro conjI allI impI)
    show "cm_conns (nd_comm (cl_host c')) = [0..<length (cl_clients c')]" using hm(1) by (simp add: cl(1,3) cm(1))
    show "raws (host_out c') = map (\<lambda>(k, i). sent_on c' 0 k ! i) (nd_got (cl_host c'))" using hm(5) by (simp add: cl so)
    show "\<forall>(k, i) \<in> set (nd_got (cl_host c')). client_node c' k \<noteq> None \<and> i < length (sent_on c' 0 k)"
      using hm(4) by (simp add: cl so cn)
    show "\<forall>pb \<in> set (cm_bootstraps (nd_comm (cl_host c'))). pb_conn pb < length (cl_clients c')"
      using hm(9) by (auto simp: cl cm(5) intro: less_SucI)
    fix k
    show "set (spawned k (host_out c')) \<subseteq> set (own_of c' 0) \<union> {b \<in> set (raws (host_out c')). origin b \<noteq> ident c' (Suc k)}"
    proof (cases "k < ?n")
      case True
      then show ?thesis using hm(7) [of _ k] ids [OF True] by (auto simp: cl(2) ow)
    qed (use hm(8) [of k] in \<open>simp add: cl(2)\<close>)
    show "spawned k (host_out c') = []" "sent_data k (host_out c') = []" if "length (cl_clients c') \<le> k"
      using hm(8) [of k] that by (auto simp: cl(2,3))
  qed (use hm(2,3,6,10) in \<open>simp_all add: cl cn cm(3)\<close>)
  have "cluster_inv cf S c'"
    unfolding cluster_inv_def
  proof (intro conjI allI impI)
    show "ids_ok c'" using i(1) rid by (auto simp: ids_ok_def c'_def)
    show "host_mail c'" by (rule hm')
    show "hi_base (S 0) = 0" "host_id \<in> fmdom' (hi_engines (S 0))" using i(8,9) by simp_all
    show "node_ok (cf_ops cf) (ident c' n) (S n) nd" if nd: "get_node c' n = Some nd" for n nd
    proof (cases n)
      case 0
      have "node_ok (cf_ops cf) host_id (S 0) (?h\<lparr>nd_comm := cm\<rparr>)"
        by (rule node_ok_comm [OF ok]) (use node_okD(5) [OF ok] hm(1) in \<open>simp_all add: cm host_out_def\<close>)
      then show ?thesis using nd 0 by (simp add: cl)
    next
      case (Suc k)
      then show ?thesis using nd i(3) [of n nd] ids [of k] client_nodeD [of c k nd] by (simp add: cn)
    qed
    fix k
    show "host_data cf (S 0) c' k" if "k < length (cl_clients c')"
    proof (cases "k < ?n")
      case True
      then show ?thesis using i(4) [OF True] old [OF True] by (simp add: host_data_def cl(1,2))
    next
      case False
      then have "k = ?n" using that cl(3) by simp
      then show ?thesis using hm(8) [of k] w(2) by (simp add: host_data_def cl)
    qed
    show "distinct (ct_join (cl_clients c' ! k))" "\<forall>i \<in> set (ct_join (cl_clients c' ! k)). i < length (sent_on c' (Suc k) 0)"
      if "k < length (cl_clients c')" "ct_node (cl_clients c' ! k) = None"
      using i(5) [of k] old [of k] that by (cases "k = ?n"; simp add: cl so)+
    fix nd assume nd: "client_node c' k = Some nd"
    show "client_mail c' k nd" using i(6) [of k nd] nd by (simp add: cn client_mail_def so)
    show "based (cf_ops cf) (S 0) (win_start (nd_updater (cl_host c'))) (S (Suc k))" using i(7) [of k nd] nd by (simp add: cn cl)
  qed
  moreover have "final_kept (cf_ops cf) S c S c'"
  proof (rule final_kept_more)
    show "\<exists>nd'. get_node c' n = Some nd' \<and> nd_updater nd' = nd_updater nd \<and> S n = S n" if "get_node c n = Some nd" for n nd
      using that by (cases n) (simp_all add: cl cn)
  qed
  ultimately show ?thesis using r' by blast
qed

lemma join_receive_ok:
  assumes inv: "cluster_inv cf S c" and r: "join_receive k i c = Some r"
  shows "\<exists>c'. r = Inr c' \<and> cluster_inv cf S c' \<and> final_kept (cf_ops cf) S c S c'"
proof -
  note iv = cluster_invD [OF inv]
  define c' where "c' = c\<lparr>cl_clients := (cl_clients c)[k := (cl_clients c ! k)\<lparr>ct_join := ct_join (cl_clients c ! k) @ [i]\<rparr>]\<rparr>"
  have k: "k < length (cl_clients c)" "ct_node (cl_clients c ! k) = None" "i < length (sent_on c (Suc k) 0)"
      "i \<notin> set (ct_join (cl_clients c ! k))" and r': "r = Inr c'"
    using r by (auto simp: join_receive_def c'_def split: if_splits)
  have same: "cl_host c' = cl_host c" "length (cl_clients c') = length (cl_clients c)" "host_out c' = host_out c"
    by (simp_all add: c'_def host_out_def)
  have nth: "cl_clients c' ! j = (if j = k then (cl_clients c ! k)\<lparr>ct_join := ct_join (cl_clients c ! k) @ [i]\<rparr> else cl_clients c ! j)" for j
    using k(1) by (simp add: c'_def)
  have id: "ct_id (cl_clients c' ! j) = ct_id (cl_clients c ! j)" "ct_node (cl_clients c' ! j) = ct_node (cl_clients c ! j)" for j
    by (simp_all add: nth)
  have cn: "client_node c' = client_node c" by (auto simp: client_node_def same id)
  have so: "sent_on c' = sent_on c" by (rule ext, rule ext) (simp add: sent_on_def cn same split: nat.split)
  have gn: "get_node c' n = get_node c n" for n by (cases n) (simp_all add: same cn)
  have ident: "ident c' = ident c" by (rule ext) (simp add: ident_def id split: nat.split)
  have ow: "own_of c' = own_of c" by (rule ext) (simp add: own_of_def gn)
  have "map ct_id (cl_clients c') = map ct_id (cl_clients c)" by (rule nth_equalityI) (simp_all add: same id)
  then have ids: "ids_ok c'" using iv(1) ids_ok_same by blast
  have "cluster_inv cf S c'"
    unfolding cluster_inv_def
  proof (intro conjI allI impI)
    show "ids_ok c'" by (rule ids)
    show "host_mail c'" using iv(2) unfolding host_mail_def same cn so ident ow .
    show "hi_base (S 0) = 0" "host_id \<in> fmdom' (hi_engines (S 0))" using iv(8,9) by simp_all
    show "node_ok (cf_ops cf) (ident c' n) (S n) nd" if "get_node c' n = Some nd" for n nd
      using iv(3) that by (simp add: gn ident)
    fix j
    show "host_data cf (S 0) c' j" if "j < length (cl_clients c')" using iv(4) [of j] that by (simp add: host_data_def same id)
    show "distinct (ct_join (cl_clients c' ! j))" "\<forall>i \<in> set (ct_join (cl_clients c' ! j)). i < length (sent_on c' (Suc j) 0)"
      if "j < length (cl_clients c')" "ct_node (cl_clients c' ! j) = None"
      using iv(5) [of j] that k by (auto simp: nth same so split: if_splits)
    fix nd assume nd: "client_node c' j = Some nd"
    show "client_mail c' j nd" using iv(6) [of j nd] nd by (simp add: cn client_mail_def so)
    show "based (cf_ops cf) (S 0) (win_start (nd_updater (cl_host c'))) (S (Suc j))" using iv(7) [of j nd] nd by (simp add: cn same)
  qed
  moreover have "final_kept (cf_ops cf) S c S c'" by (rule final_kept_more) (simp add: gn)
  ultimately show ?thesis using r' by blast
qed

section \<open>An engine that joins starts\<close>

definition config_ok :: "('e, 'g, 't, 'w) config \<Rightarrow> bool" where
  "config_ok cf \<longleftrightarrow> game_iface (cf_ops cf) \<and> (\<forall>p. \<exists>w. cf_enc cf p = Some w \<and> cf_dec cf w = Some p) \<and>
     (\<exists>t. cf_tstart cf (cf_ticker cf) = Inr t) \<and> 2 \<le> cf_frame_ms cf \<and> cf_frame_ms cf < 2 ^ 31 \<and>
     1 \<le> cf_max_frames cf \<and> cf_max_frames cf < max_i32"

lemma config_okD:
  assumes "config_ok cf"
  shows "game_iface (cf_ops cf)" and "\<exists>w. cf_enc cf p = Some w \<and> cf_dec cf w = Some p" and "cf_enc cf p \<noteq> None"
    and "cf_enc cf p = Some w \<Longrightarrow> cf_dec cf w = Some p"
    and "\<exists>t. cf_tstart cf (cf_ticker cf) = Inr t" and "2 \<le> cf_frame_ms cf" and "cf_frame_ms cf < 2 ^ 31"
    and "1 \<le> cf_max_frames cf" and "cf_max_frames cf < max_i32"
  using assms by (auto simp: config_ok_def) (metis option.sel)+

lemma join_boot_eq:
  assumes k: "k < length (cl_clients c)" "ct_node (cl_clients c ! k) = None" and ws: "sent_data k (host_out c) = w0 # w1 # ws"
    and d: "cf_dec cf w0 = Some (InitialData hz i)" "cf_dec cf w1 = Some (BootData bf)" "cf_enc cf (ReadyData True) = Some w"
  shows "join_boot cf k c = Some (seq (start_client (cf_ops cf) (cf_tstart cf) (cf_ticker cf)
           (net_params (cf_frame_ms cf) (cf_max_frames cf)) bf i
           ((zero_communicator None)\<lparr>cm_out := [SendData 0 w,
               RawInOrder (filter (\<lambda>b. hz < fb_frame b) (map ((!) (sent_on c (Suc k) 0)) (ct_join (cl_clients c ! k))))],
             cm_host_conn := Some 0\<rparr>))
         (\<lambda>e. Inr (put_node (Suc k) (engine_node e (map (Pair 0) (ct_join (cl_clients c ! k)))) c)))"
proof -
  have "comm_join (cf_enc cf) (cf_dec cf) 0 (Some w0) (map JoinBundle bs @ [JoinData (Some w1)]) (zero_communicator None) =
      Some ((zero_communicator None)\<lparr>cm_out := [SendData 0 w, RawInOrder (filter (\<lambda>b. hz < fb_frame b) bs)],
              cm_host_conn := Some 0\<rparr>, Some (bf, i))" for bs
    using d by (simp add: comm_join_def join_conn_def decode_with_def join_loop_bundles zero_communicator_def)
  from this [of "map ((!) (sent_on c (Suc k) 0)) (ct_join (cl_clients c ! k))"]
  show ?thesis using k ws by (simp add: join_boot_def comp_def)
qed

text \<open>The engine that \<open>join_boot\<close> starts.\<close>

definition joined_comm :: "('e, 'g, 't, 'w) cluster \<Rightarrow> nat \<Rightarrow> int \<Rightarrow> 'w \<Rightarrow> ('e, 'w) communicator" where
  "joined_comm c k hz w = comm_start ((zero_communicator None)\<lparr>cm_out := [SendData 0 w,
     RawInOrder (filter (\<lambda>b. hz < fb_frame b) (map ((!) (sent_on c (Suc k) 0)) (ct_join (cl_clients c ! k))))], cm_host_conn := Some 0\<rparr>)"

lemma joined_comm_simps [simp]:
  "cm_conns (joined_comm c k hz w) = [0]" "cm_routines (joined_comm c k hz w) = [0]" "cm_bootstraps (joined_comm c k hz w) = []"
  "cm_out (joined_comm c k hz w) =
     [SendData 0 w, RawInOrder (filter (\<lambda>b. hz < fb_frame b) (map ((!) (sent_on c (Suc k) 0)) (ct_join (cl_clients c ! k))))]"
  by (simp_all add: joined_comm_def comm_start_def zero_communicator_def)

lemma join_boot_starts:
  assumes inv: "cluster_inv cf S c" and r: "join_boot cf k c = Some r" and cf: "config_ok cf"
    and fit: "win_start (nd_updater (cl_host c)) + cf_max_frames cf + 2 \<le> max_i32"
  obtains hz w0 w1 ws bm w e where "k < length (cl_clients c)" "ct_node (cl_clients c ! k) = None" "sent_data k (host_out c) = w0 # w1 # ws"
    "cf_dec cf w0 = Some (InitialData hz (EngineId (ct_id (cl_clients c ! k))))" "cf_dec cf w1 = Some (BootData bm)"
    "true_boot (cf_ops cf) (S 0) (win_start (nd_updater (cl_host c))) bm"
    "r = Inr (put_node (Suc k) (engine_node e (map (Pair 0) (ct_join (cl_clients c ! k)))) c)"
    "node_ok (cf_ops cf) (EngineId (ct_id (cl_clients c ! k))) (history0 (bm_frame bm) (known_engines (bm_info bm)) (bm_game bm) True)
       (engine_node e (map (Pair 0) (ct_join (cl_clients c ! k))))"
    "en_comm e = joined_comm c k hz w" "up_out (en_updater e) = []" "win_start (en_updater e) = bm_frame bm"
proof -
  note i = cluster_invD [OF inv]
  have k: "k < length (cl_clients c)" "ct_node (cl_clients c ! k) = None"
    using r by (auto simp: join_boot_def split: if_splits)
  let ?ct = "cl_clients c ! k" and ?s = "sent_on c (Suc k) 0"
  obtain hz w0 w1 ws bm where ws: "sent_data k (host_out c) = w0 # w1 # ws"
      "cf_dec cf w0 = Some (InitialData hz (EngineId (ct_id ?ct)))"
      "cf_dec cf w1 = Some (BootData bm)" "true_boot (cf_ops cf) (S 0) (win_start (nd_updater (cl_host c))) bm"
    using i(4) [OF k(1)] r k by (auto simp: host_data_def join_boot_def split: list.splits)
  obtain w where w: "cf_enc cf (ReadyData True) = Some w" using config_okD(2) [OF cf] by blast
  obtain t' where t': "cf_tstart cf (cf_ticker cf) = Inr t'" using config_okD(5) [OF cf] by blast
  let ?buf = "filter (\<lambda>b. hz < fb_frame b) (map ((!) ?s) (ct_join ?ct))"
  let ?cm = "(zero_communicator None)\<lparr>cm_out := [SendData 0 w, RawInOrder ?buf], cm_host_conn := Some 0\<rparr>"
  let ?p = "net_params (cf_frame_ms cf) (cf_max_frames cf)"
  have bm: "0 \<le> bm_frame bm" "bm_frame bm \<le> win_start (nd_updater (cl_host c))"
    using ws(4) i(8) by (simp_all add: true_boot_def)
  have id: "EngineId (ct_id ?ct) \<noteq> host_id" "0 \<le> ct_id ?ct" using i(1) k(1) by (auto simp: ids_ok_def)
  have "\<exists>e. start_client (cf_ops cf) (cf_tstart cf) (cf_ticker cf) ?p bm (EngineId (ct_id ?ct)) ?cm = Inr e \<and>
      node_ok (cf_ops cf) (EngineId (ct_id ?ct)) (history0 (bm_frame bm) (known_engines (bm_info bm)) (bm_game bm) True)
        (engine_node e (map (Pair 0) (ct_join ?ct))) \<and>
      en_comm e = comm_start ?cm \<and> up_out (en_updater e) = [] \<and> win_start (en_updater e) = bm_frame bm"
    by (rule game_iface.client_starts [where tstart = "cf_tstart cf" and t = "cf_ticker cf", OF config_okD(1) [OF cf] t'])
      (use config_okD(6-9) [OF cf] bm fit id in \<open>simp_all add: net_params_def zero_communicator_def\<close>)
  then obtain e where e: "start_client (cf_ops cf) (cf_tstart cf) (cf_ticker cf) ?p bm (EngineId (ct_id ?ct)) ?cm = Inr e"
      "node_ok (cf_ops cf) (EngineId (ct_id ?ct)) (history0 (bm_frame bm) (known_engines (bm_info bm)) (bm_game bm) True)
        (engine_node e (map (Pair 0) (ct_join ?ct)))"
      "en_comm e = comm_start ?cm" "up_out (en_updater e) = []" "win_start (en_updater e) = bm_frame bm"
    by blast
  have "r = Inr (put_node (Suc k) (engine_node e (map (Pair 0) (ct_join ?ct))) c)" using r join_boot_eq [OF k ws(1-3) w] e(1) by simp
  then show thesis using that [OF k ws(1-4)] e(2-5) by (simp add: joined_comm_def)
qed

lemma join_boot_ok:
  assumes inv: "cluster_inv cf S c" and r: "join_boot cf k c = Some r" and cf: "config_ok cf"
    and fit: "win_start (nd_updater (cl_host c)) + cf_max_frames cf + 2 \<le> max_i32"
  shows "\<exists>c' t. r = Inr c' \<and> cluster_inv cf (S(Suc k := t)) c' \<and> final_kept (cf_ops cf) S c (S(Suc k := t)) c'"
proof -
  note i = cluster_invD [OF inv]
  let ?ct = "cl_clients c ! k" and ?s = "sent_on c (Suc k) 0"
  obtain hz bm w e where k: "k < length (cl_clients c)" "ct_node ?ct = None"
      and bt: "true_boot (cf_ops cf) (S 0) (win_start (nd_updater (cl_host c))) bm"
      and r': "r = Inr (put_node (Suc k) (engine_node e (map (Pair 0) (ct_join ?ct))) c)"
      and e: "node_ok (cf_ops cf) (EngineId (ct_id ?ct)) (history0 (bm_frame bm) (known_engines (bm_info bm)) (bm_game bm) True)
        (engine_node e (map (Pair 0) (ct_join ?ct)))"
      "en_comm e = joined_comm c k hz w" "up_out (en_updater e) = []"
    by (rule join_boot_starts [OF inv r cf fit]) blast
  have cn: "client_node c k = None" using k by (simp add: client_node_def)
  let ?t = "history0 (bm_frame bm) (known_engines (bm_info bm)) (bm_game bm) True"
  let ?buf = "filter (\<lambda>b. hz < fb_frame b) (map ((!) ?s) (ct_join ?ct))"
  have bm: "bm_frame bm \<le> win_start (nd_updater (cl_host c))" "0 \<le> bm_frame bm"
    "state_at (cf_ops cf) (S 0) (bm_frame bm) = (known_engines (bm_info bm), bm_game bm)"
    using bt i(8) by (simp_all add: true_boot_def)
  let ?nd = "engine_node e (map (Pair 0) (ct_join ?ct))"
  have nd: "nd_comm ?nd = joined_comm c k hz w" "nd_updater ?nd = en_updater e" "nd_got ?nd = map (Pair 0) (ct_join ?ct)"
    by (simp_all add: engine_node_def e(2))
  have got: "got_on 0 ?nd = ct_join ?ct" by (simp add: got_on_def nd(3) comp_def)
  have "client_mail (put_node (Suc k) ?nd c) k ?nd"
    unfolding client_mail_def nd joined_comm_simps
  proof (intro conjI)
    show "\<exists>js. raws [SendData 0 w, RawInOrder ?buf] = map ((!) (sent_on (put_node (Suc k) ?nd c) (Suc k) 0)) js \<and> distinct js \<and>
        set js \<subseteq> set (got_on 0 ?nd)"
      by (rule exI [of _ "filter (\<lambda>i. hz < fb_frame (?s ! i)) (ct_join ?ct)"])
        (use i(5) [OF k] in \<open>simp add: filter_map comp_def got\<close>)
    show "\<forall>p \<in> set (map (Pair 0) (ct_join ?ct)). fst p = 0 \<and> snd p < length (sent_on (put_node (Suc k) ?nd c) (Suc k) 0)"
      using i(5) [OF k] by simp
  qed (simp_all add: e(3))
  moreover have "based (cf_ops cf) (S 0) (win_start (nd_updater (cl_host c))) ?t"
    using bm i(8) by (simp add: based_def history0_def)
  ultimately have "cluster_inv cf (S(Suc k := ?t)) (put_node (Suc k) ?nd c)"
    by (intro client_changes [OF inv k(1)]) (use e(1) cn in \<open>simp_all add: sent_on_def\<close>)
  moreover have "final_kept (cf_ops cf) S c (S(Suc k := ?t)) (put_node (Suc k) ?nd c)"
  proof (rule final_kept_more)
    fix n nd assume n: "get_node c n = Some nd"
    then have "n \<noteq> Suc k" using cn by auto
    then have "get_node (put_node (Suc k) ?nd c) n = get_node c n" by (cases n) (simp_all add: client_node_put [OF k(1)])
    then show "\<exists>nd'. get_node (put_node (Suc k) ?nd c) n = Some nd' \<and> nd_updater nd' = nd_updater nd \<and> (S(Suc k := ?t)) n = S n"
      using n \<open>n \<noteq> Suc k\<close> by simp
  qed
  ultimately show ?thesis using r' by blast
qed

section \<open>Every step\<close>

lemma engine_round:
  assumes inv: "cluster_inv cf S c" and cf: "config_ok cf" and nd: "get_node c n = Some nd"
    and r: "node_round (cf_ops cf) (cf_enc cf) (ident c n) (S n) nd t nd'"
  shows "cluster_inv cf (S(n := t)) (put_node n nd' c) \<and> final_kept (cf_ops cf) S c (S(n := t)) (put_node n nd' c)"
proof (cases n)
  case 0
  then show ?thesis using host_round [OF inv _ config_okD(4) [OF cf], of t nd'] nd r by simp
next
  case (Suc k)
  then show ?thesis using client_round [OF inv, of k nd t nd'] nd r by simp
qed

text \<open>A round of an engine's updater.\<close>

lemma take_local_round:
  assumes inv: "cluster_inv cf S c" and cf: "config_ok cf" and b: "in_bounds cf (TakeLocal n) c" and r: "cluster_step cf (TakeLocal n) c = Some r"
  shows "\<exists>nd nd' t. get_node c n = Some nd \<and> node_round (cf_ops cf) (cf_enc cf) (ident c n) (S n) nd t nd' \<and> r = Inr (put_node n nd' c)"
proof -
  obtain nd where nd: "get_node c n = Some nd" using r by (auto simp: on_node_def split: option.splits)
  have t: "nd_taken nd < length (bu_out (nd_bundler nd))"
    using r nd by (auto simp: on_node_def node_local_def split: if_splits)
  have "local_fits (bu_out (nd_bundler nd) ! nd_taken nd) (nd_updater nd)" using b nd t by simp
  from game_iface.node_local_ok [where enc = "cf_enc cf", OF config_okD(1) [OF cf] cluster_invD(3) [OF inv nd] t this config_okD(3) [OF cf] ]
  obtain nd' s' where "node_local (cf_ops cf) (cf_enc cf) nd = Some (Inr nd')"
      "node_round (cf_ops cf) (cf_enc cf) (ident c n) (S n) nd s' nd'"
    by blast
  then show ?thesis using r nd by (auto simp: on_node_def)
qed

lemma hear_round:
  assumes inv: "cluster_inv cf S c" and cf: "config_ok cf" and b: "in_bounds cf (Hear n ks) c" and r: "cluster_step cf (Hear n ks) c = Some r"
  shows "\<exists>nd nd' t. get_node c n = Some nd \<and> node_round (cf_ops cf) (cf_enc cf) (ident c n) (S n) nd t nd' \<and> r = Inr (put_node n nd' c)"
proof -
  obtain nd where nd: "get_node c n = Some nd" using r by (auto simp: on_node_def split: option.splits)
  have t: "distinct (nd_heard nd @ ks)" "\<forall>k \<in> set ks. k < length (raws (cm_out (nd_comm nd)))"
    using r nd by (auto simp: on_node_def node_hear_def split: if_splits)
  have fit: "remote_fits (mail ks nd) (nd_updater nd)" using b nd by simp
  have snd: "\<forall>b \<in> set (raws (cm_out (nd_comm nd))). sound_bundle b \<and> origin b \<noteq> ident c n"
    using mail_sound [OF inv nd] by blast
  from game_iface.node_hear_ok [where enc = "cf_enc cf", OF config_okD(1) [OF cf] cluster_invD(3) [OF inv nd] t snd
      mail_from_others(1) [OF inv nd] fit config_okD(3) [OF cf] ]
  obtain nd' s' where "node_hear (cf_ops cf) (cf_enc cf) ks nd = Some (Inr nd')"
      "node_round (cf_ops cf) (cf_enc cf) (ident c n) (S n) nd s' nd'"
    by blast
  then show ?thesis using r nd by (auto simp: on_node_def)
qed

lemma cluster_step_ok:
  assumes inv: "cluster_inv cf S c" and cf: "config_ok cf" and b: "in_bounds cf i c" and r: "cluster_step cf i c = Some r"
  shows "\<exists>c' S'. r = Inr c' \<and> cluster_inv cf S' c' \<and> final_kept (cf_ops cf) S c S' c'"
proof (cases i)
  case (Input n j)
  then obtain nd where nd: "get_node c n = Some nd" and j: "solo_input j"
    using r by (auto simp: on_node_def split: if_splits option.splits)
  have "\<exists>nd'. node_input j nd = Some (Inr nd') \<and> cluster_inv cf S (put_node n nd' c) \<and> final_kept (cf_ops cf) S c S (put_node n nd' c)"
    using nd host_input [OF inv, of j] client_input [OF inv, of _ nd j] j by (cases n) auto
  then show ?thesis using r Input nd j by (auto simp: on_node_def)
next
  case (TakeLocal n)
  from take_local_round [OF inv cf b [unfolded TakeLocal] r [unfolded TakeLocal]] obtain nd nd' t
    where "get_node c n = Some nd" "node_round (cf_ops cf) (cf_enc cf) (ident c n) (S n) nd t nd'" "r = Inr (put_node n nd' c)"
    by blast
  then show ?thesis using engine_round [OF inv cf] by blast
next
  case (Hear n ks)
  from hear_round [OF inv cf b [unfolded Hear] r [unfolded Hear]] obtain nd nd' t
    where "get_node c n = Some nd" "node_round (cf_ops cf) (cf_enc cf) (ident c n) (S n) nd t nd'" "r = Inr (put_node n nd' c)"
    by blast
  then show ?thesis using engine_round [OF inv cf] by blast
next
  case (Receive n k j)
  then obtain nd where nd: "get_node c n = Some nd" using r by (auto simp: on_node_def split: option.splits)
  have j: "j < length (sent_on c n k)" "j \<notin> set (got_on k nd)" and k: "k \<in> set (cm_routines (nd_comm nd))"
    using r Receive nd by (auto simp: on_node_def node_receive_def split: if_splits)
  have "\<exists>nd'. node_receive (cf_enc cf) (cf_dec cf) k j (sent_on c n k ! j) nd = Some (Inr nd') \<and>
      cluster_inv cf S (put_node n nd' c) \<and> final_kept (cf_ops cf) S c S (put_node n nd' c)"
    using nd j k host_receive [OF inv, of k j] client_receive [OF inv, of _ nd k j] by (cases n) auto
  then show ?thesis using r Receive nd j by (auto simp: on_node_def)
next
  case (Connect rid)
  then show ?thesis using connect_ok [OF inv, of rid r] r b config_okD(2) [OF cf] by auto
next
  case (JoinReceive k j)
  then show ?thesis using join_receive_ok [OF inv, of k j r] r by auto
next
  case (JoinBoot k)
  then show ?thesis using join_boot_ok [OF inv _ cf, of k r] r b by (auto simp: add.assoc)
next
  case (Confirm k)
  then show ?thesis using host_confirm [OF inv, of k r] r by auto
next
  case (TakeEvent j)
  then have j: "j < length (engine_outs (host_out c))" using r by (auto simp: take_event_def split: if_splits)
  then obtain nd' where nd': "node_input (LocalEngineEvent (engine_outs (host_out c) ! j)) (cl_host c) = Some (Inr nd')"
      "cluster_inv cf S (put_node 0 nd' c)" "final_kept (cf_ops cf) S c S (put_node 0 nd' c)"
    using host_input [OF inv, of "LocalEngineEvent (engine_outs (host_out c) ! j)"] nth_mem by blast
  have "r = Inr (put_node 0 nd' c\<lparr>cl_events := cl_events c @ [j]\<rparr>)"
    using r TakeEvent nd'(1) by (auto simp: take_event_def on_node_def split: if_splits)
  moreover have "cluster_inv cf S (put_node 0 nd' c\<lparr>cl_events := cl_events c @ [j]\<rparr>)"
    using nd'(2) by simp
  moreover have "final_kept (cf_ops cf) S c S (put_node 0 nd' c\<lparr>cl_events := cl_events c @ [j]\<rparr>)"
    using nd'(3) by (simp add: final_kept_def)
  ultimately show ?thesis by blast
qed

section \<open>Runs\<close>

lemma cluster_starts:
  fixes cf :: "('e, 'g, 't, 'w) config"
  assumes cf: "config_ok cf"
  shows "\<exists>e S. new_net_engine (cf_ops cf) (cf_tstart cf) (cf_ticker cf) g (cf_frame_ms cf) (cf_max_frames cf) ping_up join_up = Inr e \<and>
    cluster_inv cf S (cluster_start e)"
proof -
  obtain t' where t': "cf_tstart cf (cf_ticker cf) = Inr t'" using config_okD(5) [OF cf] by blast
  obtain e :: "('e, 'g, 't, 'w) engine" and s where e: "new_net_engine (cf_ops cf) (cf_tstart cf) (cf_ticker cf) g (cf_frame_ms cf) (cf_max_frames cf) ping_up join_up = Inr e"
      "node_ok (cf_ops cf) host_id s (engine_node e [])" "hi_base s = 0" "host_id \<in> fmdom' (hi_engines s)"
      "en_comm e = comm_start (zero_communicator None)" "up_out (en_updater e) = []"
    using game_iface.host_starts [where tstart = "cf_tstart cf" and t = "cf_ticker cf", OF config_okD(1) [OF cf] t' config_okD(6-9) [OF cf]]
    by blast
  let ?c = "cluster_start e"
  have c: "cl_clients ?c = []" "cl_host ?c = engine_node e []" "nd_comm (engine_node e []) = comm_start (zero_communicator None)"
    "nd_got (engine_node e []) = []"
    by (simp_all add: cluster_start_def engine_node_def e(5))
  have cm: "host_out ?c = []" by (simp add: host_out_def c comm_start_def zero_communicator_def)
  have cn: "client_node ?c k = None" for k by (simp add: client_node_def c)
  have hm: "host_mail ?c" unfolding host_mail_def cm c by (simp add: comm_start_def zero_communicator_def)
  have "cluster_inv cf (\<lambda>_. s) ?c"
    unfolding cluster_inv_def
  proof (intro conjI allI impI)
    show "node_ok (cf_ops cf) (ident ?c n) s nd" if "get_node ?c n = Some nd" for n nd
      using that e(2) by (cases n) (auto simp: cn c)
  qed (use hm e(3,4) in \<open>simp_all add: ids_ok_def c cn\<close>)
  then show ?thesis using e(1) by blast
qed

lemma cluster_started:
  assumes "config_ok cf"
    and "new_net_engine (cf_ops cf) (cf_tstart cf) (cf_ticker cf) g (cf_frame_ms cf) (cf_max_frames cf) ping_up join_up = Inr e"
  shows "\<exists>S. cluster_inv cf S (cluster_start e)"
  using cluster_starts [OF assms(1), of g ping_up join_up] assms(2) by auto

lemma cluster_run_append:
  "cluster_run cf is c = Some d \<Longrightarrow> cluster_run cf (is @ js) c = cluster_run cf js d"
  by (induction "is" arbitrary: c) (auto split: if_splits option.splits sum.splits)

lemma cluster_run_ok:
  assumes "cluster_inv cf S c" and "config_ok cf" and "cluster_run cf is c = Some c'"
  shows "\<exists>S'. cluster_inv cf S' c' \<and> final_kept (cf_ops cf) S c S' c'"
  using assms(1,3)
proof (induction "is" arbitrary: S c)
  case Nil
  then show ?case using final_kept_refl by auto
next
  case (Cons i "is")
  then obtain c1 where c1: "in_bounds cf i c" "cluster_step cf i c = Some (Inr c1)" "cluster_run cf is c1 = Some c'"
    by (auto split: if_splits option.splits sum.splits)
  obtain S1 where S1: "cluster_inv cf S1 c1" "final_kept (cf_ops cf) S c S1 c1"
    using cluster_step_ok [OF Cons.prems(1) assms(2) c1(1,2)] by auto
  show ?case using Cons.IH [OF S1(1) c1(3)] final_kept_trans [OF S1(2)] by blast
qed

lemma cluster_reached:
  assumes "config_ok cf"
    and "new_net_engine (cf_ops cf) (cf_tstart cf) (cf_ticker cf) g (cf_frame_ms cf) (cf_max_frames cf) ping_up join_up = Inr e"
    and "cluster_run cf is (cluster_start e) = Some c"
  shows "\<exists>S. cluster_inv cf S c"
proof -
  obtain S where "cluster_inv cf S (cluster_start e)" using cluster_started [OF assms(1,2)] by blast
  from cluster_run_ok [OF this assms(1,3)] show ?thesis by blast
qed

lemma cluster_two_moments:
  assumes "config_ok cf"
    and "new_net_engine (cf_ops cf) (cf_tstart cf) (cf_ticker cf) g (cf_frame_ms cf) (cf_max_frames cf) ping_up join_up = Inr e"
    and "cluster_run cf is (cluster_start e) = Some c" and "cluster_run cf js c = Some d"
  obtains S T where "cluster_inv cf S c" and "cluster_inv cf T d" and "final_kept (cf_ops cf) S c T d"
proof -
  obtain S where S: "cluster_inv cf S c" using cluster_reached [OF assms(1-3)] by blast
  from cluster_run_ok [OF S assms(1,4)] S that show thesis by blast
qed

section \<open>The histories agree\<close>

text \<open>What all engines have sent for a frame.\<close>

definition all_own :: "('e, 'g, 't, 'w) cluster \<Rightarrow> 'e frame_bundle list" where
  "all_own c = concat (map (own_of c) [0..<Suc (length (cl_clients c))])"

definition sent_map :: "('e, 'g, 't, 'w) cluster \<Rightarrow> int \<Rightarrow> 'e bundle_map" where
  "sent_map c f = fmap_of_list (map (\<lambda>b. (origin b, bundle_get (fb_bundle b) (origin b)))
     (filter (\<lambda>b. fb_frame b = f) (all_own c)))"

lemma all_own_mem: "b \<in> set (all_own c) \<longleftrightarrow> (\<exists>n. b \<in> set (own_of c n))"
proof
  assume "\<exists>n. b \<in> set (own_of c n)"
  then obtain n where n: "b \<in> set (own_of c n)" by blast
  then have "get_node c n \<noteq> None" by (cases "get_node c n") (simp_all add: own_of_def)
  then have "n \<le> length (cl_clients c)" by (cases n) (auto dest!: client_nodeD)
  then have "n \<in> set [0..<Suc (length (cl_clients c))]" unfolding set_upt by simp
  then show "b \<in> set (all_own c)" using n unfolding all_own_def set_concat set_map by blast
qed (auto simp: all_own_def)

lemma same_slot:
  assumes inv: "cluster_inv cf S c" and b: "b \<in> set (own_of c m)" and b': "b' \<in> set (own_of c n)" and eq: "slot_key b = slot_key b'"
  shows "b = b'"
proof -
  have "ident c m = ident c n" using own_of_sound(2) [OF inv b] own_of_sound(2) [OF inv b'] eq by (simp add: slot_key_def)
  then have "m = n" using ident_inj [OF cluster_invD(1) [OF inv]] own_of_sound(3) [OF inv b] own_of_sound(3) [OF inv b'] by blast
  then show ?thesis using own_of_keys [OF inv, of m] b b' eq by (simp add: distinct_map inj_on_def)
qed

lemma sent_map_lookup:
  assumes inv: "cluster_inv cf S c"
  shows "fmlookup (sent_map c f) i = Some a \<longleftrightarrow> (\<exists>n. \<exists>b \<in> set (own_of c n). fb_frame b = f \<and> bundle_of i a b)"
proof -
  let ?e = "\<lambda>b. (origin b, bundle_get (fb_bundle b) (origin b))"
  have get: "?e b = (i, a)" if "bundle_of i a b" for b :: "'a frame_bundle" and i a
    using bundle_ofD(1) [OF that] that by (simp add: bundle_of_def bundle_get_def)
  have one: "\<exists>i a. bundle_of i a b" if "b \<in> set (all_own c)" for b
    using that own_of_sound(1) [OF inv] unfolding all_own_mem sound_bundle_def by blast
  let ?xs = "map ?e (filter (\<lambda>b. fb_frame b = f) (all_own c))"
  have mem: "(i, a) \<in> set ?xs \<longleftrightarrow> (\<exists>b \<in> set (all_own c). fb_frame b = f \<and> bundle_of i a b)" for i a
    using get one by fastforce
  have un: "a = a'" if x: "(i, a) \<in> set ?xs" "(i, a') \<in> set ?xs" for a a'
  proof -
    obtain b b' where b: "b \<in> set (all_own c)" "fb_frame b = f" "bundle_of i a b" "b' \<in> set (all_own c)" "fb_frame b' = f" "bundle_of i a' b'"
      using x unfolding mem by blast
    then have "b = b'" using same_slot [OF inv] bundle_ofD(1) by (fastforce simp: all_own_mem slot_key_def)
    then show ?thesis using b bundle_ofD(3) by blast
  qed
  have "map_of ?xs i = Some a \<longleftrightarrow> (i, a) \<in> set ?xs"
  proof
    assume ia: "(i, a) \<in> set ?xs"
    then obtain a' where a': "map_of ?xs i = Some a'" using weak_map_of_SomeI [OF ia] by blast
    then show "map_of ?xs i = Some a" using un [OF ia map_of_SomeD [OF a']] by simp
  qed (rule map_of_SomeD)
  then have "fmlookup (sent_map c f) i = Some a \<longleftrightarrow> (\<exists>b \<in> set (all_own c). fb_frame b = f \<and> bundle_of i a b)"
    unfolding sent_map_def fmlookup_of_list mem .
  then show ?thesis unfolding Bex_def all_own_mem by blast
qed

lemma sent_map_host_only:
  assumes inv: "cluster_inv cf S c"
  shows "host_only host_id (sent_map c f)"
  unfolding host_only_def
proof (intro allI impI)
  fix i a assume "fmlookup (sent_map c f) i = Some a"
  then obtain n b where "b \<in> set (own_of c n)" "bundle_of i a b" using sent_map_lookup [OF inv] by blast
  then have "sound_events i a" using own_of_sound(1) [OF inv] bundle_ofD(3) by (metis sound_bundle_def)
  then show "if i = host_id then EngineDropped host_id \<notin> set (ae_engine a) else ae_engine a = []"
    by (fastforce simp: sound_events_def only_joins_def)
qed

lemma cluster_follows:
  assumes inv: "cluster_inv cf S c" and nd: "get_node c n = Some nd"
  shows "follows (sent_map c) (S n)"
  unfolding follows_def fmsubset.rep_eq map_le_def
proof (intro allI ballI)
  note u = node_okD(1) [OF cluster_invD(3) [OF inv nd]]
  fix f i assume "i \<in> dom (fmlookup (hi_bundles (S n) f))"
  then obtain a where a: "fmlookup (hi_bundles (S n) f) i = Some a" by (auto simp: fmlookup_dom'_iff)
  then obtain b where b: "b \<in> set (own (nd_updater nd) @ mail (nd_heard nd) nd)" "fb_frame b = f" "bundle_of i a b"
    using upd_okD(10) [OF u] unfolding comes_from_def by blast
  have "\<exists>m. b \<in> set (own_of c m)"
  proof (cases "b \<in> set (own (nd_updater nd))")
    case True
    then show ?thesis using nd by (intro exI [of _ n]) (simp add: own_of_def)
  next
    case False
    then have "b \<in> set (raws (cm_out (nd_comm nd)))"
      using b(1) node_okD(4) [OF cluster_invD(3) [OF inv nd]] by (auto simp: mail_def)
    then show ?thesis using mail_from_others(2) [OF inv nd] by blast
  qed
  then show "fmlookup (hi_bundles (S n) f) i = fmlookup (sent_map c f) i"
    using a b(2,3) sent_map_lookup [OF inv, of f i a] by auto
qed

text \<open>Each engine's window and history.\<close>

lemma cluster_settled:
  assumes inv: "cluster_inv cf S c" and nd: "get_node c n = Some nd"
  shows "settled (cf_ops cf) (S n) (nd_updater nd)"
  using run_invD(1) [OF upd_okD(1) [OF node_okD(1) [OF cluster_invD(3) [OF inv nd]]]] .

lemma cluster_hosted:
  assumes inv: "cluster_inv cf S c" and nd: "get_node c n = Some nd"
  shows "hosted host_id (sent_map c) (S n)"
proof -
  have h: "hosted host_id (sent_map c) (S m)" if m: "get_node c m = Some x" and e: "host_id \<in> fmdom' (hi_engines (S m))" for m x
    using cluster_follows [OF inv m] sent_map_host_only [OF inv] e upd_invD(5) [OF settledD(1) [OF cluster_settled [OF inv m]]]
    by (simp add: hosted_def history_ok_def)
  show ?thesis
  proof (cases n)
    case 0
    then show ?thesis using h [OF nd] cluster_invD(9) [OF inv] by simp
  next
    case (Suc k)
    have "based (cf_ops cf) (S 0) (win_start (nd_updater (cl_host c))) (S n)"
      using cluster_invD(7) [OF inv, of k nd] nd Suc by simp
    then have "hi_engines (S n) = fst (state_at (cf_ops cf) (S 0) (hi_base (S n)))" by (simp add: based_def)
    moreover have "host_id \<in> fmdom' (fst (state_at (cf_ops cf) (S 0) (hi_base (S n))))"
      unfolding state_at_def by (rule host_stays [OF h [of 0 "cl_host c"]]) (simp_all add: cluster_invD(9) [OF inv])
    ultimately show ?thesis using h [OF nd] by simp
  qed
qed

lemma cluster_based:
  assumes inv: "cluster_inv cf S c" and x: "get_node c m = Some x" and y: "get_node c n = Some y"
    and f: "hi_base (S m) \<le> hi_base (S n)" "hi_base (S n) \<le> win_start (nd_updater x)"
  shows "state_at (cf_ops cf) (S m) (hi_base (S n)) = (hi_engines (S n), hi_game (S n))"
proof -
  let ?G = "cf_ops cf"
  have base: "state_at ?G (S 0) (hi_base (S k)) = (hi_engines (S k), hi_game (S k)) \<and> hi_base (S 0) \<le> hi_base (S k) \<and>
      hi_base (S k) \<le> win_start (nd_updater (cl_host c))" if "get_node c k = Some z" for k z
  proof (cases k)
    case 0
    then show ?thesis using settled_order(1) [OF cluster_settled [OF inv, of 0 "cl_host c"]] by (simp add: state_at_base)
  next
    case (Suc j)
    then show ?thesis using cluster_invD(7) [OF inv, of j z] that by (simp add: based_def)
  qed
  have "state_at ?G (S 0) (hi_base (S n)) = state_at ?G (S m) (hi_base (S n))"
    by (rule settled_agree [OF cluster_settled [OF inv, of 0 "cl_host c"] cluster_settled [OF inv x]
          cluster_hosted [OF inv, of 0 "cl_host c"] cluster_hosted [OF inv x]])
      (use base [OF x] base [OF y] f in simp_all)
  then show ?thesis using base [OF y] by simp
qed

text \<open>Frames that two engines have both made final are the same there.\<close>

lemma cluster_states_agree:
  assumes inv: "cluster_inv cf S c" and x: "get_node c m = Some x" and y: "get_node c n = Some y"
    and f: "hi_base (S m) \<le> f" "hi_base (S n) \<le> f" "f \<le> win_start (nd_updater x)" "f \<le> win_start (nd_updater y)"
  shows "state_at (cf_ops cf) (S m) f = state_at (cf_ops cf) (S n) f"
proof -
  have half: "state_at (cf_ops cf) (S a) f = state_at (cf_ops cf) (S b) f"
    if x: "get_node c a = Some x" and y: "get_node c b = Some y" and le: "hi_base (S a) \<le> hi_base (S b)" "hi_base (S b) \<le> f"
      "f \<le> win_start (nd_updater x)" "f \<le> win_start (nd_updater y)" for a b x y
    by (rule settled_agree [OF cluster_settled [OF inv x] cluster_settled [OF inv y]
          cluster_hosted [OF inv x] cluster_hosted [OF inv y]])
      (use le cluster_based [OF inv x y] in simp_all)
  show ?thesis
  proof (cases "hi_base (S m) \<le> hi_base (S n)")
    case True
    then show ?thesis using half [OF x y] f by simp
  next
    case False
    then show ?thesis using half [OF y x] f by simp
  qed
qed

lemma runs_agree:
  assumes inv: "cluster_inv cf S c" and x: "get_node c m = Some x" and later: "cluster_inv cf S' d" "final_kept (cf_ops cf) S c S' d"
    and y: "get_node d n = Some y" and f: "win_start (nd_updater x) = f" "win_start (nd_updater y) = f"
  shows "engines_at (nd_updater x) f = engines_at (nd_updater y) f \<and> game_at (nd_updater x) f = game_at (nd_updater y) f"
proof -
  let ?G = "cf_ops cf"
  note sx = cluster_settled [OF inv x] and sy = cluster_settled [OF later(1) y]
  obtain x' where x': "get_node d m = Some x'" "win_start (nd_updater x) \<le> win_start (nd_updater x')"
      "hi_base (S' m) = hi_base (S m)" "state_at ?G (S' m) f = state_at ?G (S m) f"
    using final_keptD [OF later(2) x] f(1) by (metis order_refl)
  have "state_at ?G (S' m) f = state_at ?G (S' n) f"
    by (rule cluster_states_agree [OF later(1) x'(1) y])
      (use x' f settled_order(1) [OF sx] settled_order(1) [OF sy] in simp_all)
  moreover have "(engines_at (nd_updater x) f, game_at (nd_updater x) f) = state_at ?G (S m) f"
    "(engines_at (nd_updater y) f, game_at (nd_updater y) f) = state_at ?G (S' n) f"
    using settled_view [OF sx, of f] settled_view [OF sy, of f] settled_order(2) [OF sx] settled_order(2) [OF sy] f by simp_all
  ultimately show ?thesis using x'(4) by (metis prod.inject)
qed

section \<open>The game that the engines play together\<close>

lemma frame_step_sub:
  assumes h: "host_only h c" "b \<subseteq>\<^sub>f c" "h \<in> fmdom' (fst s)" and m: "fmdom' (fst (frame_step G b s)) \<subseteq> fmdom' b"
  shows "frame_step G b s = frame_step G c s"
proof (rule frame_step_agree [OF host_only_sub [OF h(2,1)] h(1,3) m _ h(2)])
  have eng: "fst (frame_step G x s) = frame_engines x (fst s)" for x by (simp add: frame_step_def Let_def)
  have sub: "fmdom' b \<subseteq> fmdom' c" using fmsubset_lookup [OF h(2)] by (auto simp: fmlookup_dom'_iff)
  have "h \<in> fmdom' b" using frame_engines_keeps_host [OF host_only_sub [OF h(2,1)] h(3)] m by (auto simp: eng)
  then obtain a where "fmlookup b h = Some a" by (auto simp: fmlookup_dom'_iff)
  then have "host_events h b = host_events h c"
    using fmsubset_lookup [OF h(2)] by (simp add: host_events_def bundle_get_lookup)
  then have "frame_engines b (fst s) = frame_engines c (fst s)"
    by (simp add: frame_engines_host [OF h(1)] frame_engines_host [OF host_only_sub [OF h(2,1)]])
  then show "fmdom' (fst (frame_step G c s)) \<subseteq> fmdom' c" using m sub by (simp add: eng)
qed (simp add: fmsubset.rep_eq)

lemma cluster_plays:
  assumes inv: "cluster_inv cf S c" and y: "get_node c n = Some y" and f: "hi_base (S n) < f" "f \<le> win_start (nd_updater y)"
  shows "state_at (cf_ops cf) (S n) f = frame_step (cf_ops cf) (sent_map c f) (state_at (cf_ops cf) (S n) (f - 1))"
proof -
  note h = cluster_hosted [OF inv y] and s = cluster_settled [OF inv y]
  have "complete (cf_ops cf) (S n) f" using settledD(3) [OF s f] .
  note cs = complete_step [OF h f(1) this]
  have "host_id \<in> fmdom' (fst (state_at (cf_ops cf) (S n) (f - 1)))" unfolding state_at_def using h by (rule host_stays)
  from frame_step_sub [OF sent_map_host_only [OF inv] hostedD(1) [OF h] this cs(2)] cs(1) show ?thesis by simp
qed

text \<open>An engine that has just been bootstrapped shows the host's frame.\<close>

lemma cluster_plays_final:
  assumes inv: "cluster_inv cf S c" and x: "get_node c m = Some x" and y: "get_node c n = Some y"
    and f: "hi_base (S m) \<le> f" "f \<le> win_start (nd_updater x)" "hi_base (S n) \<le> f + 1" "f + 1 \<le> win_start (nd_updater y)"
  shows "state_at (cf_ops cf) (S n) (f + 1) = frame_step (cf_ops cf) (sent_map c (f + 1)) (state_at (cf_ops cf) (S m) f)"
proof -
  have via: "state_at (cf_ops cf) (S n) (f + 1) = frame_step (cf_ops cf) (sent_map c (f + 1)) (state_at (cf_ops cf) (S m) f)"
    if k: "get_node c k = Some z" and b: "hi_base (S k) \<le> f" "f + 1 \<le> win_start (nd_updater z)" for k z
    using cluster_plays [OF inv k, of "f + 1"] cluster_states_agree [OF inv x k, of f] cluster_states_agree [OF inv k y, of "f + 1"] b f
    by simp
  show ?thesis
  proof (cases "hi_base (S n) \<le> f")
    case True
    then show ?thesis using via [OF y] f by simp
  next
    case False
    then have eq: "hi_base (S n) = f + 1" using f(3) by simp
    have lo: "0 \<le> hi_base (S k)" if "get_node c k = Some z" for k z
      using that cluster_invD(8) [OF inv] cluster_invD(7) [OF inv, of _ z] by (cases k) (auto simp: based_def)
    then have "0 \<le> f" using f(1) lo [OF x] by simp
    moreover have "n \<noteq> 0" using eq cluster_invD(8) [OF inv] \<open>0 \<le> f\<close> by (cases n) simp_all
    then obtain k where "n = Suc k" using not0_implies_Suc by blast
    then have "f + 1 \<le> win_start (nd_updater (cl_host c))"
      using cluster_invD(7) [OF inv, of k y] y eq by (simp add: based_def)
    ultimately show ?thesis using via [of 0 "cl_host c"] cluster_invD(8) [OF inv] by simp
  qed
qed

lemma runs_play:
  assumes inv: "cluster_inv cf S c" and x: "get_node c m = Some x" and later: "cluster_inv cf S' d" "final_kept (cf_ops cf) S c S' d"
    and y: "get_node d n = Some y" and f: "win_start (nd_updater x) = f" "win_start (nd_updater y) = f + 1"
  shows "(engines_at (nd_updater y) (f + 1), game_at (nd_updater y) (f + 1)) =
    frame_step (cf_ops cf) (sent_map d (f + 1)) (engines_at (nd_updater x) f, game_at (nd_updater x) f)"
proof -
  let ?G = "cf_ops cf"
  note sx = cluster_settled [OF inv x] and sy = cluster_settled [OF later(1) y]
  obtain x' where x': "get_node d m = Some x'" "win_start (nd_updater x) \<le> win_start (nd_updater x')"
      "hi_base (S' m) = hi_base (S m)" "state_at ?G (S' m) f = state_at ?G (S m) f"
    using final_keptD [OF later(2) x] f(1) by (metis order_refl)
  have "(engines_at (nd_updater x) f, game_at (nd_updater x) f) = state_at ?G (S m) f"
    "(engines_at (nd_updater y) (f + 1), game_at (nd_updater y) (f + 1)) = state_at ?G (S' n) (f + 1)"
    using settled_view [OF sx, of f] settled_view [OF sy, of "f + 1"] settled_order(2) [OF sx] settled_order(2) [OF sy] f by simp_all
  moreover have "state_at ?G (S' n) (f + 1) = frame_step ?G (sent_map d (f + 1)) (state_at ?G (S' m) f)"
    by (rule cluster_plays_final [OF later(1) x'(1) y]) (use x' f settled_order(1) [OF sx] settled_order(1) [OF sy] in simp_all)
  ultimately show ?thesis using x'(4) by simp
qed

end
