(* ===== verification/Cluster_Convergence.thy ===== *)
theory Cluster_Convergence
  imports Cluster_Invariant
begin

text \<open>
  Engines that have heard everything. \<open>Cluster_Invariant\<close> shows that engines never disagree; here
  an engine that has heard what the others have sent waits for nobody's mail, so no engine is ahead
  of it, and two such engines are at the same frame of the same game.
\<close>

section \<open>All mail is in\<close>

text \<open>What the engines other than \<open>n\<close> have sent.\<close>

definition others_sent :: "('e, 'g, 't, 'w) cluster \<Rightarrow> nat \<Rightarrow> 'e frame_bundle list" where
  "others_sent c n = concat (map (own_of c) (filter (\<lambda>m. m \<noteq> n) [0..<Suc (length (cl_clients c))]))"

definition caught_up :: "('e, 'g, 't, 'w) cluster \<Rightarrow> nat \<Rightarrow> ('e, 'g, 't, 'w) node \<Rightarrow> bool" where
  "caught_up c n nd \<longleftrightarrow> (\<forall>b \<in> set (others_sent c n). win_start (nd_updater nd) < fb_frame b \<longrightarrow>
     slot_key b \<in> set (map slot_key (mail (nd_heard nd) nd)))"

lemma others_sent_mem:
  assumes "b \<in> set (own_of c m)" and "m \<noteq> n"
  shows "b \<in> set (others_sent c n)"
proof -
  have "m \<le> length (cl_clients c)"
  proof (cases m)
    case (Suc k)
    then show ?thesis using assms(1) client_nodeD [of c k] by (cases "client_node c k") (auto simp: own_of_def)
  qed simp
  then have "m \<in> set (filter (\<lambda>m. m \<noteq> n) [0..<Suc (length (cl_clients c))])" using assms(2) by (simp only: set_filter set_upt) simp
  then show ?thesis using assms(1) unfolding others_sent_def set_concat set_map by blast
qed

lemma caught_up_sent:
  assumes inv: "cluster_inv cf S c" and nd: "get_node c n = Some nd" and up: "caught_up c n nd" and f: "win_start (nd_updater nd) < f"
  shows "hi_bundles (S n) f = sent_map c f"
proof (rule fmap_ext)
  fix i
  note u = node_okD(1) [OF cluster_invD(3) [OF inv nd]] and fo = cluster_follows [OF inv nd]
  have sub: "fmlookup (hi_bundles (S n) f) i = Some a \<Longrightarrow> fmlookup (sent_map c f) i = Some a" for a
    using fo fmsubset_lookup unfolding follows_def by metis
  show "fmlookup (hi_bundles (S n) f) i = fmlookup (sent_map c f) i"
  proof (cases "fmlookup (sent_map c f) i")
    case None
    then show ?thesis using sub by (cases "fmlookup (hi_bundles (S n) f) i") auto
  next
    case (Some a)
    then obtain m b where b: "b \<in> set (own_of c m)" "fb_frame b = f" "bundle_of i a b" using sent_map_lookup [OF inv] by blast
    have "slot_key b \<in> slot_key ` set (own (nd_updater nd) @ mail (nd_heard nd) nd)"
    proof (cases "m = n")
      case True
      then show ?thesis using b(1) nd by (auto simp: own_of_def)
    next
      case False
      then show ?thesis using up others_sent_mem [OF b(1) False] b(2) f unfolding caught_up_def by auto
    qed
    then obtain x where x: "x \<in> set (own (nd_updater nd) @ mail (nd_heard nd) nd)" "slot_key x = slot_key b" by force
    then have "origin x \<in> fmdom' (hi_bundles (S n) (fb_frame x))"
      using upd_okD(12) [OF u] f b(2) unfolding kept_def slot_key_def by (metis prod.inject)
    then have "i \<in> fmdom' (hi_bundles (S n) f)" using x(2) b(2) bundle_ofD(1) [OF b(3)] by (simp add: slot_key_def)
    then show ?thesis using sub Some by (auto simp: fmlookup_dom'_iff)
  qed
qed

section \<open>What an engine waits for\<close>

lemma caught_up_waits:
  assumes inv: "cluster_inv cf S c" and nd: "get_node c n = Some nd" and up: "caught_up c n nd" and f: "win_start (nd_updater nd) = f"
  shows "\<not> fmdom' (fst (frame_step (cf_ops cf) (sent_map c (f + 1)) (state_at (cf_ops cf) (S n) f))) \<subseteq> fmdom' (sent_map c (f + 1))"
proof
  let ?G = "cf_ops cf" and ?u = "nd_updater nd"
  assume sub: "fmdom' (fst (frame_step ?G (sent_map c (f + 1)) (state_at ?G (S n) f))) \<subseteq> fmdom' (sent_map c (f + 1))"
  note u = node_okD(1) [OF cluster_invD(3) [OF inv nd]] and h = cluster_hosted [OF inv nd] and st = cluster_settled [OF inv nd]
  have b: "hi_bundles (S n) (f + 1) = sent_map c (f + 1)" using caught_up_sent [OF inv nd up] f by simp
  have "host_id \<in> fmdom' (fst (state_at ?G (S n) f))" unfolding state_at_def using h by (rule host_stays)
  then have "host_id \<in> fmdom' (fst (frame_step ?G (sent_map c (f + 1)) (state_at ?G (S n) f)))"
    using frame_engines_keeps_host [OF sent_map_host_only [OF inv]] by (simp add: frame_step_def Let_def)
  then have "host_id \<in> fmdom' (hi_bundles (S n) (f + 1))" using sub b by auto
  then obtain a where a: "fmlookup (hi_bundles (S n) (f + 1)) host_id = Some a" by (auto simp: fmlookup_dom'_iff)
  then have ne: "hi_bundles (S n) (f + 1) \<noteq> fmempty" by auto
  have "own ?u @ mail (nd_heard nd) nd \<noteq> []" using upd_okD(10) [OF u] a unfolding comes_from_def by force
  then have "maximal ?G (S n) ?u" by (rule upd_okD(13) [OF u])
  moreover have "f + 1 \<le> up_global ?u"
    using upd_invD(5) [OF settledD(1) [OF st]] ne unfolding history_ok_def by (metis not_le)
  ultimately have "\<not> complete ?G (S n) (f + 1)" using f by (simp add: maximal_def)
  moreover have "state_at ?G (S n) (f + 1) = frame_step ?G (hi_bundles (S n) (f + 1)) (state_at ?G (S n) (f + 1 - 1))"
    by (rule state_at_step) (use settled_order(1) [OF st] f hostedD(4) [OF h] ne in auto)
  ultimately show False using sub b by (simp add: complete_def)
qed

lemma caught_up_leads:
  assumes inv: "cluster_inv cf S c" and x: "get_node c m = Some x" and up: "caught_up c m x" and y: "get_node c n = Some y"
  shows "win_start (nd_updater y) \<le> win_start (nd_updater x)"
proof (rule ccontr)
  let ?G = "cf_ops cf"
  define f where "f = win_start (nd_updater x)"
  assume "\<not> win_start (nd_updater y) \<le> win_start (nd_updater x)"
  then have ahead: "f + 1 \<le> win_start (nd_updater y)" by (simp add: f_def)
  obtain k z where z: "get_node c k = Some z" "hi_base (S k) \<le> f" "f + 1 \<le> win_start (nd_updater z)"
  proof (cases "hi_base (S n) \<le> f")
    case True
    then show thesis using that [OF y] ahead by simp
  next
    case False
    moreover have "0 \<le> f" using settled_order(1) [OF cluster_settled [OF inv x]] run_invD(2) [OF upd_okD(1) [OF node_okD(1) [OF cluster_invD(3) [OF inv x]]]]
      by (simp add: f_def)
    moreover have "hi_base (S n) \<le> win_start (nd_updater (cl_host c))" if "n = Suc j" for j
      using cluster_invD(7) [OF inv, of j y] y that by (simp add: based_def)
    ultimately show thesis using that [of 0 "cl_host c"] cluster_invD(8) [OF inv] by (cases n) auto
  qed
  note zs = cluster_settled [OF inv z(1)]
  have "complete ?G (S k) (f + 1)" using settledD(3) [OF zs, of "f + 1"] z by simp
  moreover have "state_at ?G (S k) (f + 1) = frame_step ?G (sent_map c (f + 1)) (state_at ?G (S k) (f + 1 - 1))"
    by (rule cluster_plays [OF inv z(1)]) (use z in simp_all)
  moreover have "state_at ?G (S m) f = state_at ?G (S k) f"
    by (rule cluster_states_agree [OF inv x z(1)]) (use z settled_order(1) [OF cluster_settled [OF inv x]] f_def in simp_all)
  moreover have "fmdom' (hi_bundles (S k) (f + 1)) \<subseteq> fmdom' (sent_map c (f + 1))"
    using cluster_follows [OF inv z(1)] fmsubset_lookup unfolding follows_def by (fastforce simp: fmlookup_dom'_iff)
  ultimately show False
    using caught_up_waits [OF inv x up f_def [symmetric]] by (auto simp: complete_def)
qed

lemma caught_up_meet:
  assumes inv: "cluster_inv cf S c" and x: "get_node c m = Some x" "caught_up c m x" and y: "get_node c n = Some y" "caught_up c n y"
  shows "win_start (nd_updater x) = win_start (nd_updater y)"
  using caught_up_leads [OF inv x y(1)] caught_up_leads [OF inv y x(1)] by simp

end
