(* ===== verification/Cluster_Delivery.thy ===== *)
theory Cluster_Delivery
  imports Cluster_Convergence
begin

text \<open>
  Bootstrapping loses no bundle. A client is told a start frame past the horizon of all bundles
  that the host has seen, gets the final state of exactly that frame, and is sent every bundle that
  the host sees afterwards. So once no message is under way, every engine has heard all that matters
  to it, and \<open>Cluster_Convergence\<close> applies.
\<close>

section \<open>The horizon and the bootstrap frames of a round\<close>

definition frames :: "'e frame_bundle list \<Rightarrow> int list" where
  "frames bs = map fb_frame bs"

lemma max_all: "fold max xs (h :: int) = h \<or> fold max xs h \<in> set xs" "h \<le> fold max xs h" "x \<in> set xs \<Longrightarrow> x \<le> fold max xs h"
proof -
  have "(fold max xs h = h \<or> fold max xs h \<in> set xs) \<and> h \<le> fold max xs h \<and> (\<forall>x \<in> set xs. x \<le> fold max xs h)"
  proof (induction xs arbitrary: h)
    case (Cons x xs)
    from Cons.IH [of "max x h"] show ?case by (auto simp: max_def split: if_splits)
  qed simp
  then show "fold max xs h = h \<or> fold max xs h \<in> set xs" "h \<le> fold max xs h" "x \<in> set xs \<Longrightarrow> x \<le> fold max xs h" by blast+
qed

text \<open>The bootstrap frames that a message of the updater makes the communicator send.\<close>

definition asked_for :: "('g payload \<Rightarrow> 'w option) \<Rightarrow> nat \<Rightarrow> pending_boot set \<Rightarrow> 'w \<Rightarrow> bool" where
  "asked_for enc k pbs w \<longleftrightarrow> (\<exists>bm. enc (BootData bm) = Some w \<and> (\<exists>pb \<in> pbs. pb_conn pb = k \<and> pb_start pb = bm_frame bm))"

lemma boot_sends_asked:
  "w \<in> set (sent_data k (boot_sends enc bf pbs)) \<Longrightarrow> w = the (enc (BootData bf)) \<and> (\<exists>pb \<in> set pbs. pb_conn pb = k \<and> bm_frame bf = pb_start pb)"
  by (simp add: boot_sends_def, induction pbs) (auto split: if_splits)

lemma deliver_asked:
  assumes "deliver enc h m c = Inr c'" and "distinct (cm_conns c)"
  shows "cm_horizon c' = fold max (frames (broadcasts [m])) (cm_horizon c)"
    and "\<exists>ws. sent_data k (cm_out c') = sent_data k (cm_out c) @ ws \<and> (\<forall>w \<in> set ws. asked_for enc k (set (cm_bootstraps c)) w)"
proof -
  have "cm_horizon c' = fold max (frames (broadcasts [m])) (cm_horizon c) \<and>
    (\<exists>ws. sent_data k (cm_out c') = sent_data k (cm_out c) @ ws \<and> (\<forall>w \<in> set ws. asked_for enc k (set (cm_bootstraps c)) w))"
  proof (cases m)
    case (Broadcast b)
    then show ?thesis using assms on_broadcast_logs(4) [OF assms(2), of k b]
      by (auto simp: deliver_def on_broadcast_def frames_def Let_def max.commute)
  next
    case (BootstrapOut bf)
    then obtain g where g: "on_boot_frame enc \<lparr>bm_frame = bf_frame bf, bm_game = g, bm_info = bf_info bf\<rparr> c = Inr c'"
      using assms(1) by (auto simp: deliver_def seq_Inr_iff)
    let ?bm = "\<lparr>bm_frame = bf_frame bf, bm_game = g, bm_info = bf_info bf\<rparr>"
    obtain c1 where c1: "fold_res (send_boot enc ?bm) (cm_bootstraps c) c = Inr c1"
      using g by (auto simp: on_boot_frame_def seq_Inr_iff)
    have "asked_for enc k (set (cm_bootstraps c)) w" if w: "w \<in> set (sent_data k (boot_sends enc ?bm (cm_bootstraps c)))" for w
    proof -
      obtain pb where pb: "w = the (enc (BootData ?bm))" "pb \<in> set (cm_bootstraps c)" "pb_conn pb = k" "bm_frame ?bm = pb_start pb"
        using boot_sends_asked [OF w] by blast
      then have "enc (BootData ?bm) \<noteq> None" using send_boots_enc [OF c1] by blast
      then have "enc (BootData ?bm) = Some w" using pb(1) by auto
      then show ?thesis using pb(2-4) unfolding asked_for_def by metis
    qed
    then show ?thesis using on_boot_frame_Inr [OF g] by (auto simp: BootstrapOut frames_def)
  qed (use assms(1) in \<open>auto simp: deliver_def frames_def\<close>)
  then show "cm_horizon c' = fold max (frames (broadcasts [m])) (cm_horizon c)"
    "\<exists>ws. sent_data k (cm_out c') = sent_data k (cm_out c) @ ws \<and> (\<forall>w \<in> set ws. asked_for enc k (set (cm_bootstraps c)) w)"
    by blast+
qed

lemma hand_over_asked:
  assumes "hand_over enc u v c = Inr c'" and "up_out v = up_out u @ out" and "distinct (cm_conns c)"
  shows "cm_horizon c' = fold max (frames (broadcasts out)) (cm_horizon c)"
    and "\<exists>ws. sent_data k (cm_out c') = sent_data k (cm_out c) @ ws \<and> (\<forall>w \<in> set ws. asked_for enc k (set (cm_bootstraps c)) w)"
proof -
  have "cm_horizon c' = fold max (frames (broadcasts out)) (cm_horizon c) \<and>
    (\<exists>ws. sent_data k (cm_out c') = sent_data k (cm_out c) @ ws \<and> (\<forall>w \<in> set ws. asked_for enc k (set (cm_bootstraps c)) w))"
    if "fold_res (deliver enc (up_heap v)) out c = Inr c'" "distinct (cm_conns c)" for out c
    using that
  proof (induction out arbitrary: c)
    case (Cons m out)
    then obtain c1 where c1: "deliver enc (up_heap v) m c = Inr c1" "fold_res (deliver enc (up_heap v)) out c1 = Inr c'"
      by (auto simp: seq_Inr_iff)
    note l = deliver_logs [OF c1(1) Cons.prems(2)] and a = deliver_asked [OF c1(1) Cons.prems(2)]
    have "distinct (cm_conns c1)" using l(1) Cons.prems(2) by (simp add: same_conns_def)
    note ih = Cons.IH [OF c1(2) this]
    have bs: "broadcasts (m # out) = broadcasts [m] @ broadcasts out" by (cases m) auto
    have sub: "set (cm_bootstraps c1) \<subseteq> set (cm_bootstraps c)" using l(6) by (simp add: boots_only_def)
    obtain ws1 where ws1: "sent_data k (cm_out c1) = sent_data k (cm_out c) @ ws1" "\<forall>w \<in> set ws1. asked_for enc k (set (cm_bootstraps c)) w"
      using a(2) by blast
    obtain ws2 where ws2: "sent_data k (cm_out c') = sent_data k (cm_out c1) @ ws2" "\<forall>w \<in> set ws2. asked_for enc k (set (cm_bootstraps c1)) w"
      using ih by blast
    have "\<forall>w \<in> set ws2. asked_for enc k (set (cm_bootstraps c)) w" using ws2(2) sub unfolding asked_for_def by blast
    then have "\<exists>ws. sent_data k (cm_out c') = sent_data k (cm_out c) @ ws \<and> (\<forall>w \<in> set ws. asked_for enc k (set (cm_bootstraps c)) w)"
      using ws1 ws2(1) by (intro exI [of _ "ws1 @ ws2"]) auto
    then show ?case using ih a(1) by (simp add: bs frames_def)
  qed (simp add: frames_def)
  from this [of out c] show "cm_horizon c' = fold max (frames (broadcasts out)) (cm_horizon c)"
    "\<exists>ws. sent_data k (cm_out c') = sent_data k (cm_out c) @ ws \<and> (\<forall>w \<in> set ws. asked_for enc k (set (cm_bootstraps c)) w)"
    using assms by (simp_all add: hand_over_def)
qed

section \<open>The invariant\<close>

text \<open>The bundles that the host's communicator has seen.\<close>

definition seen :: "('e, 'g, 't, 'w) cluster \<Rightarrow> 'e frame_bundle list" where
  "seen c = own_of c 0 @ raws (host_out c)"

definition horizon_ok :: "('e, 'g, 't, 'w) cluster \<Rightarrow> bool" where
  "horizon_ok c \<longleftrightarrow> (let h = cm_horizon (nd_comm (cl_host c)) in
     0 \<le> h \<and> (\<forall>b \<in> set (seen c). fb_frame b \<le> h) \<and> (h = 0 \<or> h \<in> set (frames (seen c))))"

text \<open>Connection \<open>k\<close>, whose start frame is \<open>hz\<close>.\<close>

definition gap_free :: "('e, 'g, 't, 'w) config \<Rightarrow> ('e, 'g, 't, 'w) cluster \<Rightarrow> nat \<Rightarrow> int \<Rightarrow> bool" where
  "gap_free cf c k hz \<longleftrightarrow>
     (\<exists>w0 ws i. sent_data k (host_out c) = w0 # ws \<and> cf_dec cf w0 = Some (InitialData hz i) \<and>
        (\<forall>w \<in> set ws. \<exists>bm. cf_dec cf w = Some (BootData bm) \<and> bm_frame bm = hz)) \<and>
     (\<forall>pb \<in> set (cm_bootstraps (nd_comm (cl_host c))). pb_conn pb = k \<longrightarrow> pb_start pb = hz) \<and>
     (\<forall>b \<in> set (seen c). origin b \<noteq> ident c (Suc k) \<longrightarrow> hz \<le> fb_frame b \<longrightarrow> b \<in> set (spawned k (host_out c)))"

definition keeps_mail :: "('e, 'g, 't, 'w) cluster \<Rightarrow> nat \<Rightarrow> int \<Rightarrow> ('e, 'g, 't, 'w) node \<Rightarrow> bool" where
  "keeps_mail c k hz nd \<longleftrightarrow> hz \<le> win_start (nd_updater nd) \<and>
     (\<forall>i \<in> set (got_on 0 nd). hz < fb_frame (sent_on c (Suc k) 0 ! i) \<longrightarrow> sent_on c (Suc k) 0 ! i \<in> set (raws (cm_out (nd_comm nd))))"

definition delivery_inv :: "('e, 'g, 't, 'w) config \<Rightarrow> ('e, 'g, 't, 'w) cluster \<Rightarrow> bool" where
  "delivery_inv cf c \<longleftrightarrow> horizon_ok c \<and>
     (\<forall>k < length (cl_clients c). \<exists>hz. gap_free cf c k hz \<and> (\<forall>nd. client_node c k = Some nd \<longrightarrow> keeps_mail c k hz nd))"

text \<open>The host handles the bundles \<open>new\<close>, whatever else it does.\<close>

lemma horizon_more:
  assumes "horizon_ok c" and "set (seen c') = set (seen c) \<union> set new"
    and "cm_horizon (nd_comm (cl_host c')) = fold max (frames new) (cm_horizon (nd_comm (cl_host c)))"
  shows "horizon_ok c'"
proof -
  let ?h = "cm_horizon (nd_comm (cl_host c))" and ?h' = "fold max (frames new) (cm_horizon (nd_comm (cl_host c)))"
  note m = max_all [where xs = "frames new" and h = ?h]
  have "fb_frame b \<le> ?h'" if "b \<in> set (seen c')" for b
    using that assms(1,2) m(2) m(3) [of "fb_frame b"] by (fastforce simp: horizon_ok_def Let_def frames_def)
  moreover have "?h' = 0 \<or> ?h' \<in> set (frames (seen c'))"
    using m(1) assms(1,2) by (auto simp: horizon_ok_def Let_def frames_def)
  moreover have "0 \<le> ?h'" using m(2) assms(1) by (simp add: horizon_ok_def Let_def)
  ultimately show ?thesis by (simp add: horizon_ok_def assms(3) Let_def)
qed

lemma host_delivery:
  assumes d: "delivery_inv cf c" and idx: "\<And>k nd i. client_node c k = Some nd \<Longrightarrow> i \<in> set (got_on 0 nd) \<Longrightarrow> i < length (sent_on c (Suc k) 0)"
    and codec: "\<And>p w. cf_enc cf p = Some w \<Longrightarrow> cf_dec cf w = Some p"
    and sn: "set (seen (put_node 0 nd' c)) = set (seen c) \<union> set new"
    and hz: "cm_horizon (nd_comm nd') = fold max (frames new) (cm_horizon (nd_comm (cl_host c)))"
    and bt: "set (cm_bootstraps (nd_comm nd')) \<subseteq> set (cm_bootstraps (nd_comm (cl_host c)))"
    and sp: "\<And>k. k < length (cl_clients c) \<Longrightarrow> \<exists>bs. spawned k (cm_out (nd_comm nd')) = spawned k (host_out c) @ bs \<and>
      {b \<in> set new. origin b \<noteq> ident c (Suc k)} \<subseteq> set bs"
    and dt: "\<And>k. \<exists>ws. sent_data k (cm_out (nd_comm nd')) = sent_data k (host_out c) @ ws \<and>
      (\<forall>w \<in> set ws. asked_for (cf_enc cf) k (set (cm_bootstraps (nd_comm (cl_host c)))) w)"
  shows "delivery_inv cf (put_node 0 nd' c)"
proof -
  let ?c = "put_node 0 nd' c"
  have "\<exists>hz. gap_free cf ?c k hz \<and> (\<forall>nd. client_node ?c k = Some nd \<longrightarrow> keeps_mail ?c k hz nd)" if k: "k < length (cl_clients c)" for k
  proof -
    obtain hz where g: "gap_free cf c k hz" and m: "\<forall>nd. client_node c k = Some nd \<longrightarrow> keeps_mail c k hz nd"
      using d k unfolding delivery_inv_def by blast
    obtain bs where bs: "spawned k (cm_out (nd_comm nd')) = spawned k (host_out c) @ bs" "{b \<in> set new. origin b \<noteq> ident c (Suc k)} \<subseteq> set bs"
      using sp [OF k] by blast
    obtain ws where ws: "sent_data k (cm_out (nd_comm nd')) = sent_data k (host_out c) @ ws"
        "\<forall>w \<in> set ws. asked_for (cf_enc cf) k (set (cm_bootstraps (nd_comm (cl_host c)))) w"
      using dt by blast
    obtain w0 vs i where v: "sent_data k (host_out c) = w0 # vs" "cf_dec cf w0 = Some (InitialData hz i)"
        "\<forall>w \<in> set vs. \<exists>bm. cf_dec cf w = Some (BootData bm) \<and> bm_frame bm = hz"
      using g unfolding gap_free_def by blast
    have st: "\<forall>pb \<in> set (cm_bootstraps (nd_comm (cl_host c))). pb_conn pb = k \<longrightarrow> pb_start pb = hz"
      using g by (simp add: gap_free_def)
    have "\<forall>w \<in> set ws. \<exists>bm. cf_dec cf w = Some (BootData bm) \<and> bm_frame bm = hz"
      using ws(2) st codec unfolding asked_for_def by metis
    then have "gap_free cf ?c k hz"
      using g v bs ws(1) st bt sn by (auto simp: gap_free_def)
    moreover have "keeps_mail ?c k hz nd" if "client_node ?c k = Some nd" for nd
    proof -
      have nd: "client_node c k = Some nd" using that by simp
      have "sent_on ?c (Suc k) 0 ! i = sent_on c (Suc k) 0 ! i" if "i \<in> set (got_on 0 nd)" for i
        using idx [OF nd that] bs(1) by (simp add: sent_on_def nth_append)
      then show ?thesis using m nd by (simp add: keeps_mail_def)
    qed
    ultimately show ?thesis by blast
  qed
  moreover have "horizon_ok ?c" using d by (intro horizon_more [OF _ sn]) (simp_all add: delivery_inv_def hz)
  ultimately show ?thesis by (simp add: delivery_inv_def)
qed

text \<open>A client changes and keeps its mail.\<close>

lemma client_delivery:
  assumes d: "delivery_inv cf c" and k: "k < length (cl_clients c)"
    and m: "\<And>hz. gap_free cf c k hz \<Longrightarrow> (\<And>nd. client_node c k = Some nd \<Longrightarrow> keeps_mail c k hz nd) \<Longrightarrow> keeps_mail c k hz nd'"
  shows "delivery_inv cf (put_node (Suc k) nd' c)"
proof -
  let ?c = "put_node (Suc k) nd' c"
  have cl: "cl_host ?c = cl_host c" "host_out ?c = host_out c" "length (cl_clients ?c) = length (cl_clients c)" "own_of ?c 0 = own_of c 0"
    "ident ?c = ident c"
    using k by (auto simp: own_of_def)
  have so: "sent_on ?c (Suc j) 0 = sent_on c (Suc j) 0" for j by (simp add: sent_on_def cl)
  have g: "gap_free cf ?c j hz = gap_free cf c j hz" for j hz by (simp add: gap_free_def seen_def cl)
  have "\<exists>hz. gap_free cf ?c j hz \<and> (\<forall>nd. client_node ?c j = Some nd \<longrightarrow> keeps_mail ?c j hz nd)" if j: "j < length (cl_clients c)" for j
  proof -
    obtain hz where hz: "gap_free cf c j hz" "\<And>nd. client_node c j = Some nd \<Longrightarrow> keeps_mail c j hz nd"
      using d j unfolding delivery_inv_def by blast
    then show ?thesis using m [of hz] g client_node_put [OF k, of nd' j] by (cases "j = k") (auto simp: keeps_mail_def so)
  qed
  moreover have "horizon_ok ?c" using d by (simp add: delivery_inv_def horizon_ok_def seen_def cl)
  ultimately show ?thesis by (simp add: delivery_inv_def cl)
qed

section \<open>Rounds and receives\<close>

lemma got_bound:
  assumes "cluster_inv cf S c" and "client_node c k = Some nd" and "i \<in> set (got_on 0 nd)"
  shows "i < length (sent_on c (Suc k) 0)"
  using cluster_invD(6) [OF assms(1,2)] assms(3) by (auto simp: client_mail_def got_on_def)

lemma round_delivery:
  assumes inv: "cluster_inv cf S c" and cf: "config_ok cf" and d: "delivery_inv cf c" and nd: "get_node c n = Some nd"
    and r: "node_round (cf_ops cf) (cf_enc cf) (ident c n) (S n) nd t nd'"
  shows "delivery_inv cf (put_node n nd' c)"
proof -
  note ok = cluster_invD(3) [OF inv nd] and l = node_round_logs [OF r cluster_invD(3) [OF inv nd]]
  let ?u = "nd_updater nd" and ?v = "nd_updater nd'"
  obtain out where out: "up_out ?v = up_out ?u @ out" and ho: "hand_over (cf_enc cf) ?u ?v (nd_comm nd) = Inr (nd_comm nd')"
    using r unfolding node_round_def by blast
  have got: "nd_got nd' = nd_got nd" and ws: "win_start ?u \<le> win_start ?v" using r by (simp_all add: node_round_def)
  note a = hand_over_asked [OF ho out node_okD(5) [OF ok]] and h = hand_over_logs [OF ho out node_okD(5) [OF ok]]
  show ?thesis
  proof (cases n)
    case 0
    then have nh: "nd = cl_host c" using nd by simp
    have co: "cm_conns (nd_comm (cl_host c)) = [0..<length (cl_clients c)]" using host_mailD(1) [OF cluster_invD(2) [OF inv]] .
    have "delivery_inv cf (put_node 0 nd' c)"
    proof (rule host_delivery [OF d])
      show "set (seen (put_node 0 nd' c)) = set (seen c) \<union> set (broadcasts out)"
        using l(3) by (auto simp: seen_def own_of_def out nh host_out_def)
      show "cm_horizon (nd_comm nd') = fold max (frames (broadcasts out)) (cm_horizon (nd_comm (cl_host c)))" using a(1) by (simp add: nh)
      show "set (cm_bootstraps (nd_comm nd')) \<subseteq> set (cm_bootstraps (nd_comm (cl_host c)))" using l(6) by (simp add: nh boots_only_def)
      show "\<exists>bs. spawned k (cm_out (nd_comm nd')) = spawned k (host_out c) @ bs \<and> {b \<in> set (broadcasts out). origin b \<noteq> ident c (Suc k)} \<subseteq> set bs"
        if "k < length (cl_clients c)" for k
        using h(2) [of k] that co by (auto simp: nh host_out_def)
      show "\<exists>ws. sent_data k (cm_out (nd_comm nd')) = sent_data k (host_out c) @ ws \<and>
          (\<forall>w \<in> set ws. asked_for (cf_enc cf) k (set (cm_bootstraps (nd_comm (cl_host c)))) w)" for k
        using a(2) [of k] by (simp add: nh host_out_def)
    qed (use got_bound [OF inv] config_okD(4) [OF cf] in blast)+
    then show ?thesis using 0 by simp
  next
    case (Suc k)
    then have cn: "client_node c k = Some nd" using nd by simp
    have "keeps_mail c k hz nd'" if "keeps_mail c k hz nd" for hz
      using that ws l(3) got_on_same [OF got] by (simp add: keeps_mail_def)
    then show ?thesis using client_delivery [OF d, of k nd'] client_nodeD [OF cn] cn Suc by blast
  qed
qed

lemma quiet_delivery:
  assumes inv: "cluster_inv cf S c" and cf: "config_ok cf" and d: "delivery_inv cf c"
    and same: "nd_updater nd' = nd_updater (cl_host c)" "cm_horizon (nd_comm nd') = cm_horizon (nd_comm (cl_host c))"
      "cm_bootstraps (nd_comm nd') = cm_bootstraps (nd_comm (cl_host c))" "raws (cm_out (nd_comm nd')) = raws (host_out c)"
    and logs: "\<And>k. spawned k (cm_out (nd_comm nd')) = spawned k (host_out c)" "\<And>k. sent_data k (cm_out (nd_comm nd')) = sent_data k (host_out c)"
  shows "delivery_inv cf (put_node 0 nd' c)"
proof (rule host_delivery [OF d, where new = "[]"])
  show "set (seen (put_node 0 nd' c)) = set (seen c) \<union> set []" using same by (simp add: seen_def own_of_def)
qed (use got_bound [OF inv] config_okD(4) [OF cf] same logs in \<open>auto simp: frames_def\<close>)

lemma receive_delivery:
  assumes inv: "cluster_inv cf S c" and cf: "config_ok cf" and d: "delivery_inv cf c" and r: "cluster_step cf (Receive n k j) c = Some r"
  shows "\<exists>c'. r = Inr c' \<and> delivery_inv cf c'"
proof -
  obtain nd where nd: "get_node c n = Some nd" using r by (auto simp: on_node_def split: option.splits)
  have j: "j < length (sent_on c n k)" and k: "k \<in> set (cm_routines (nd_comm nd))"
    using r nd by (auto simp: on_node_def node_receive_def split: if_splits)
  note ok = cluster_invD(3) [OF inv nd]
  let ?b = "sent_on c n k ! j"
  let ?nd = "nd\<lparr>nd_comm := on_remote ?b k (nd_comm nd), nd_got := nd_got nd @ [(k, j)]\<rparr>"
  note l = on_remote_logs [OF node_okD(5) [OF ok], where b = ?b and j = k]
  have "r = Inr (put_node n ?nd c)"
    using r nd node_receive_ok(1) [OF ok k, where enc = "cf_enc cf" and dec = "cf_dec cf" and i = j and b = ?b]
    by (auto simp: on_node_def split: if_splits)
  moreover have "delivery_inv cf (put_node n ?nd c)"
  proof (cases n)
    case 0
    then have nh: "nd = cl_host c" using nd by simp
    note hm = host_mailD [OF cluster_invD(2) [OF inv]]
    have "client_node c k \<noteq> None" using hm(2) k nh by simp
    then have "?b \<in> set (own_of c (Suc k))" using sent_to_host [OF inv] j 0 by simp
    then have from_k: "origin ?b = ident c (Suc k)" using own_of_sound(2) [OF inv] by blast
    have "delivery_inv cf (put_node 0 ?nd c)"
    proof (rule host_delivery [OF d, where new = "[?b]"])
      show "set (seen (put_node 0 ?nd c)) = set (seen c) \<union> set [?b]" using l(3) by (auto simp: seen_def own_of_def nh host_out_def)
      show "cm_horizon (nd_comm ?nd) = fold max (frames [?b]) (cm_horizon (nd_comm (cl_host c)))"
        by (simp add: on_remote_def Let_def frames_def nh max.commute)
      show "\<exists>bs. spawned m (cm_out (nd_comm ?nd)) = spawned m (host_out c) @ bs \<and> {b \<in> set [?b]. origin b \<noteq> ident c (Suc m)} \<subseteq> set bs"
        if "m < length (cl_clients c)" for m
        using l(2) [of m] that hm(1) from_k by (auto simp: nh host_out_def)
    qed (use got_bound [OF inv] config_okD(4) [OF cf] l(4,6) in \<open>auto simp: nh host_out_def\<close>)
    then show ?thesis using 0 by simp
  next
    case (Suc m)
    then have cn: "client_node c m = Some nd" using nd by simp
    have "k = 0" using k cluster_invD(6) [OF inv cn] by (simp add: client_mail_def)
    then have "keeps_mail c m hz ?nd" if "keeps_mail c m hz nd" for hz
      using that l(3) Suc by (auto simp: keeps_mail_def got_on_def)
    then show ?thesis using client_delivery [OF d, of m ?nd] client_nodeD [OF cn] cn Suc by blast
  qed
  ultimately show ?thesis by blast
qed

section \<open>A client joins\<close>

lemma own_in_range:
  assumes inv: "cluster_inv cf S c" and b: "b \<in> set (own_of c n)"
  shows "fb_frame b < max_i32"
proof -
  obtain nd where nd: "get_node c n = Some nd" "b \<in> set (own (nd_updater nd))"
    using b by (cases "get_node c n") (auto simp: own_of_def)
  note u = node_okD(1) [OF cluster_invD(3) [OF inv nd(1)]]
  note st = settledD(1) [OF run_invD(1) [OF upd_okD(1) [OF u]]]
  note sh = upd_shapeD [OF upd_invD(1) [OF st]]
  have "fb_frame b \<le> up_global (nd_updater nd)"
  proof (cases "win_start (nd_updater nd) < fb_frame b")
    case True
    then have "origin b \<in> fmdom' (hi_bundles (S n) (fb_frame b))" using upd_okD(12) [OF u] nd(2) by (simp add: kept_def)
    then have "hi_bundles (S n) (fb_frame b) \<noteq> fmempty" by auto
    then show ?thesis using upd_invD(5) [OF st] unfolding history_ok_def by (metis not_le)
  qed (use sh in simp)
  then show ?thesis using sh by simp
qed

lemma horizon_in_range:
  assumes inv: "cluster_inv cf S c" and "horizon_ok c"
  shows "cm_horizon (nd_comm (cl_host c)) < max_i32" and "b \<in> set (seen c) \<Longrightarrow> fb_frame b < i32 (cm_horizon (nd_comm (cl_host c)) + 1)"
proof -
  let ?h = "cm_horizon (nd_comm (cl_host c))"
  have all: "fb_frame b < max_i32" if "b \<in> set (seen c)" for b
    using that own_in_range [OF inv] mail_from_others(2) [OF inv, of 0 "cl_host c" b] by (auto simp: seen_def host_out_def)
  then show lt: "?h < max_i32" using assms(2) by (auto simp: horizon_ok_def Let_def frames_def)
  show "b \<in> set (seen c) \<Longrightarrow> fb_frame b < i32 (?h + 1)" using assms(2) lt by (auto simp: horizon_ok_def Let_def)
qed

lemma connect_delivery:
  assumes inv: "cluster_inv cf S c" and cf: "config_ok cf" and d: "delivery_inv cf c" and r: "connect cf rid c = Some r"
  shows "\<exists>c'. r = Inr c' \<and> delivery_inv cf c'"
proof -
  let ?h = "cl_host c" and ?n = "length (cl_clients c)"
  let ?hz = "i32 (cm_horizon (nd_comm ?h) + 1)"
  note hm = host_mailD [OF cluster_invD(2) [OF inv]]
  obtain w where w: "cf_enc cf (InitialData ?hz (EngineId rid)) = Some w" "cf_dec cf w = Some (InitialData ?hz (EngineId rid))"
    using config_okD(2) [OF cf] by blast
  define cm where "cm = on_new_conn (cf_enc cf) ?n rid (nd_comm ?h)"
  have cm: "cm_out cm = host_out c @ [SendData ?n w]" "cm_horizon cm = cm_horizon (nd_comm ?h)"
    "cm_bootstraps cm = cm_bootstraps (nd_comm ?h) @ [\<lparr>pb_conn = ?n, pb_start = ?hz\<rparr>]"
    using w(1) by (simp_all add: cm_def on_new_conn_def host_out_def)
  define c' where "c' = c\<lparr>cl_host := ?h\<lparr>nd_comm := cm\<rparr>, cl_clients := cl_clients c @ [\<lparr>ct_id = rid, ct_join = [], ct_node = None\<rparr>]\<rparr>"
  have r': "r = Inr c'" using r by (auto simp: connect_def c'_def cm_def split: if_splits)
  have cl: "cl_host c' = ?h\<lparr>nd_comm := cm\<rparr>" "host_out c' = host_out c @ [SendData ?n w]" "length (cl_clients c') = Suc ?n"
    "ct_node (cl_clients c' ! ?n) = None"
    by (simp_all add: c'_def host_out_def cm(1))
  have old: "cl_clients c' ! k = cl_clients c ! k" if "k < ?n" for k using that by (simp add: c'_def nth_append)
  have cn: "client_node c' k = client_node c k" for k
    using old [of k] cl(3,4) by (cases "k = ?n") (simp_all add: client_node_def less_Suc_eq)
  have sn: "seen c' = seen c" by (simp add: seen_def own_of_def cl)
  have hz: "horizon_ok c" using d by (simp add: delivery_inv_def)
  have "\<exists>hz. gap_free cf c' k hz \<and> (\<forall>nd. client_node c' k = Some nd \<longrightarrow> keeps_mail c' k hz nd)" if k: "k < Suc ?n" for k
  proof (cases "k = ?n")
    case True
    have "client_node c' k = None" using True cn [of k] by (simp add: client_node_def)
    moreover have "\<forall>pb \<in> set (cm_bootstraps (nd_comm ?h)). pb_conn pb \<noteq> k" using hm(9) True by (metis less_irrefl)
    then have "gap_free cf c' k ?hz"
      using hm(8) [of k] w(2) horizon_in_range(2) [OF inv hz] True by (force simp: gap_free_def cl cm sn)
    ultimately show ?thesis by auto
  next
    case False
    then have kn: "k < ?n" using k by simp
    then obtain hz where g: "gap_free cf c k hz" and m: "\<forall>nd. client_node c k = Some nd \<longrightarrow> keeps_mail c k hz nd"
      using d unfolding delivery_inv_def by blast
    have "gap_free cf c' k hz" using g False old [OF kn] by (simp add: gap_free_def cl cm sn)
    moreover have "keeps_mail c' k hz nd" if "client_node c' k = Some nd" for nd
      using m that by (simp add: cn keeps_mail_def sent_on_def cl)
    ultimately show ?thesis by blast
  qed
  moreover have "horizon_ok c'" using hz by (simp add: horizon_ok_def sn cl cm)
  ultimately show ?thesis using r' by (simp add: delivery_inv_def cl)
qed

lemma join_receive_delivery:
  assumes d: "delivery_inv cf c" and r: "join_receive k i c = Some r"
  shows "\<exists>c'. r = Inr c' \<and> delivery_inv cf c'"
proof -
  define c' where "c' = c\<lparr>cl_clients := (cl_clients c)[k := (cl_clients c ! k)\<lparr>ct_join := ct_join (cl_clients c ! k) @ [i]\<rparr>]\<rparr>"
  have k: "k < length (cl_clients c)" and r': "r = Inr c'" using r by (auto simp: join_receive_def c'_def split: if_splits)
  have same: "cl_host c' = cl_host c" "length (cl_clients c') = length (cl_clients c)" "host_out c' = host_out c"
    by (simp_all add: c'_def host_out_def)
  have id: "ct_id (cl_clients c' ! j) = ct_id (cl_clients c ! j)" "ct_node (cl_clients c' ! j) = ct_node (cl_clients c ! j)" for j
    using k by (simp_all add: c'_def nth_list_update)
  have cn: "client_node c' = client_node c" by (auto simp: client_node_def same id)
  have sn: "seen c' = seen c" by (simp add: seen_def own_of_def same)
  have "gap_free cf c' j hz = gap_free cf c j hz" "keeps_mail c' j hz nd = keeps_mail c j hz nd" for j hz nd
    by (simp_all add: gap_free_def sn same id keeps_mail_def sent_on_def)
  then show ?thesis using d r' by (simp add: delivery_inv_def same cn horizon_ok_def sn)
qed

lemma join_boot_delivery:
  assumes inv: "cluster_inv cf S c" and cf: "config_ok cf" and d: "delivery_inv cf c" and r: "join_boot cf k c = Some r"
    and fit: "win_start (nd_updater (cl_host c)) + cf_max_frames cf + 2 \<le> max_i32"
  shows "\<exists>c'. r = Inr c' \<and> delivery_inv cf c'"
proof -
  let ?ct = "cl_clients c ! k"
  obtain hz w0 w1 ws bm w e where k: "k < length (cl_clients c)" and ws: "sent_data k (host_out c) = w0 # w1 # ws"
      "cf_dec cf w0 = Some (InitialData hz (EngineId (ct_id ?ct)))" "cf_dec cf w1 = Some (BootData bm)"
      and e: "r = Inr (put_node (Suc k) (engine_node e (map (Pair 0) (ct_join ?ct))) c)"
        "en_comm e = joined_comm c k hz w" "win_start (en_updater e) = bm_frame bm"
    by (rule join_boot_starts [OF inv r cf fit]) blast
  have hz: "hz' = hz \<and> bm_frame bm = hz" if "gap_free cf c k hz'" for hz'
    using that ws by (auto simp: gap_free_def)
  let ?nd = "engine_node e (map (Pair 0) (ct_join ?ct))"
  have "keeps_mail c k hz ?nd" if "gap_free cf c k hz"
    using hz [OF that] by (auto simp: keeps_mail_def engine_node_def e(2,3) got_on_def comp_def)
  then have "delivery_inv cf (put_node (Suc k) ?nd c)" using client_delivery [OF d k, of ?nd] hz by blast
  then show ?thesis using e(1) by blast
qed

section \<open>Every step\<close>

lemma confirm_delivery:
  assumes inv: "cluster_inv cf S c" and cf: "config_ok cf" and d: "delivery_inv cf c" and r: "confirm cf k c = Some r"
  shows "\<exists>c'. r = Inr c' \<and> delivery_inv cf c'"
proof -
  let ?h = "cl_host c"
  obtain w where w: "r = Inr (put_node 0 (?h\<lparr>nd_comm := bootstrap_routine (cf_dec cf) k (EngineId (ct_id (cl_clients c ! k))) (Some w) (nd_comm ?h)\<rparr>) c)"
    using r by (auto simp: confirm_def put_node_def split: option.splits list.splits if_splits)
  have "delivery_inv cf (put_node 0 (?h\<lparr>nd_comm := bootstrap_routine (cf_dec cf) k (EngineId (ct_id (cl_clients c ! k))) (Some w) (nd_comm ?h)\<rparr>) c)"
    by (rule quiet_delivery [OF inv cf d]) (simp_all add: host_out_def, simp add: bootstrap_routine_def Let_def)
  with w show ?thesis by blast
qed

lemma input_delivery:
  assumes inv: "cluster_inv cf S c" and cf: "config_ok cf" and d: "delivery_inv cf c" and nd: "get_node c n = Some nd"
  shows "delivery_inv cf (put_node n (nd\<lparr>nd_bundler := b\<rparr>) c)"
proof (cases n)
  case 0
  then have "nd = cl_host c" using nd by simp
  then have "delivery_inv cf (put_node 0 (nd\<lparr>nd_bundler := b\<rparr>) c)" by (intro quiet_delivery [OF inv cf d]) (simp_all add: host_out_def)
  then show ?thesis using 0 by simp
next
  case (Suc k)
  then have cn: "client_node c k = Some nd" using nd by simp
  have "keeps_mail c k hz (nd\<lparr>nd_bundler := b\<rparr>)" if "keeps_mail c k hz nd" for hz
    using that got_on_same [of "nd\<lparr>nd_bundler := b\<rparr>" nd] by (simp add: keeps_mail_def)
  then show ?thesis using client_delivery [OF d, of k "nd\<lparr>nd_bundler := b\<rparr>"] client_nodeD [OF cn] cn Suc by blast
qed

lemma node_input_eq: "node_input i nd = Some (Inr nd') \<Longrightarrow> \<exists>b. nd' = nd\<lparr>nd_bundler := b\<rparr>"
  by (auto simp: node_input_def seq_Inr_iff)

lemma step_delivery:
  assumes inv: "cluster_inv cf S c" and cf: "config_ok cf" and b: "in_bounds cf i c" and d: "delivery_inv cf c"
    and r: "cluster_step cf i c = Some (Inr c')"
  shows "delivery_inv cf c'"
proof (cases i)
  case (Input n j)
  then obtain nd nd' where nd: "get_node c n = Some nd" "node_input j nd = Some (Inr nd')" "c' = put_node n nd' c"
    using r by (auto simp: on_node_def seq_Inr_iff split: if_splits option.splits)
  then show ?thesis using input_delivery [OF inv cf d nd(1)] node_input_eq [OF nd(2)] by blast
next
  case (TakeLocal n)
  then show ?thesis using take_local_round [OF inv cf, of n] b r round_delivery [OF inv cf d] by blast
next
  case (Hear n ks)
  then show ?thesis using hear_round [OF inv cf, of n ks] b r round_delivery [OF inv cf d] by blast
next
  case (Receive n k j)
  then show ?thesis using receive_delivery [OF inv cf d, of n k j] r by blast
next
  case (Connect rid)
  then show ?thesis using connect_delivery [OF inv cf d, of rid] r by auto
next
  case (JoinReceive k j)
  then show ?thesis using join_receive_delivery [OF d, of k j] r by auto
next
  case (JoinBoot k)
  then show ?thesis using join_boot_delivery [OF inv cf d, of k] r b by (auto simp: add.assoc)
next
  case (Confirm k)
  then show ?thesis using confirm_delivery [OF inv cf d, of k] r by auto
next
  case (TakeEvent j)
  then obtain nd' where nd': "node_input (LocalEngineEvent (engine_outs (host_out c) ! j)) (cl_host c) = Some (Inr nd')"
      "c' = put_node 0 nd' c\<lparr>cl_events := cl_events c @ [j]\<rparr>"
    using r by (auto simp: take_event_def on_node_def seq_Inr_iff split: if_splits)
  have "delivery_inv cf (put_node 0 nd' c)" using input_delivery [OF inv cf d, of 0] node_input_eq [OF nd'(1)] by auto
  then show ?thesis
    by (simp add: nd'(2) delivery_inv_def horizon_ok_def seen_def own_of_def gap_free_def keeps_mail_def sent_on_def host_out_def)
qed

section \<open>Runs\<close>

lemma start_delivery:
  fixes cf :: "('e, 'g, 't, 'w) config" and e :: "('e, 'g, 't, 'w) engine"
  assumes cf: "config_ok cf"
    and e: "new_net_engine (cf_ops cf) (cf_tstart cf) (cf_ticker cf) g (cf_frame_ms cf) (cf_max_frames cf) ping_up join_up = Inr e"
  shows "delivery_inv cf (cluster_start e)"
proof -
  obtain t' where t': "cf_tstart cf (cf_ticker cf) = Inr t'" using config_okD(5) [OF cf] by blast
  obtain e' :: "('e, 'g, 't, 'w) engine" where
      "new_net_engine (cf_ops cf) (cf_tstart cf) (cf_ticker cf) g (cf_frame_ms cf) (cf_max_frames cf) ping_up join_up = Inr e'"
      "en_comm e' = comm_start (zero_communicator None)" "up_out (en_updater e') = []"
    using game_iface.host_starts [where tstart = "cf_tstart cf" and t = "cf_ticker cf", OF config_okD(1) [OF cf] t' config_okD(6-9) [OF cf],
        of g ping_up join_up] by blast
  then have "en_comm e = comm_start (zero_communicator None) \<and> up_out (en_updater e) = []" using e by simp
  then show ?thesis
    by (simp add: delivery_inv_def cluster_start_def engine_node_def horizon_ok_def seen_def own_of_def host_out_def comm_start_def
        zero_communicator_def Let_def)
qed

lemma run_delivery:
  assumes "cluster_inv cf S c" and "config_ok cf" and "delivery_inv cf c" and "cluster_run cf is c = Some c'"
  shows "delivery_inv cf c'"
  using assms(1,3,4)
proof (induction "is" arbitrary: S c)
  case (Cons i "is")
  then obtain c1 where c1: "in_bounds cf i c" "cluster_step cf i c = Some (Inr c1)" "cluster_run cf is c1 = Some c'"
    by (auto split: if_splits option.splits sum.splits)
  obtain S1 where S1: "cluster_inv cf S1 c1" using cluster_step_ok [OF Cons.prems(1) assms(2) c1(1,2)] by auto
  show ?case
    using Cons.IH [OF S1 step_delivery [OF Cons.prems(1) assms(2) c1(1) Cons.prems(2) c1(2)] c1(3)] .
qed simp

lemma delivery_reached:
  assumes "config_ok cf"
    and "new_net_engine (cf_ops cf) (cf_tstart cf) (cf_ticker cf) g (cf_frame_ms cf) (cf_max_frames cf) ping_up join_up = Inr e"
    and "cluster_run cf is (cluster_start e) = Some c"
  shows "delivery_inv cf c"
  using cluster_started [OF assms(1,2)] run_delivery [OF _ assms(1) start_delivery [OF assms(1,2)] assms(3)] by blast

section \<open>Nothing under way\<close>

text \<open>Every bundle sent to an engine has been received, and every one received has reached its updater.\<close>

definition all_in :: "('e, 'g, 't, 'w) cluster \<Rightarrow> nat \<Rightarrow> ('e, 'g, 't, 'w) node \<Rightarrow> bool" where
  "all_in c n nd \<longleftrightarrow>
     list_all (\<lambda>k. list_all (\<lambda>i. i \<in> set (got_on k nd)) [0..<length (sent_on c n k)]) (if n = 0 then [0..<length (cl_clients c)] else [0]) \<and>
     list_all (\<lambda>j. j \<in> set (nd_heard nd)) [0..<length (raws (cm_out (nd_comm nd)))]"

definition nothing_under_way :: "('e, 'g, 't, 'w) cluster \<Rightarrow> bool" where
  "nothing_under_way c \<longleftrightarrow> all_in c 0 (cl_host c) \<and>
     list_all (\<lambda>k. case client_node c k of None \<Rightarrow> True | Some nd \<Rightarrow> all_in c (Suc k) nd) [0..<length (cl_clients c)]"

lemma nothing_under_wayD:
  assumes "nothing_under_way c" and "get_node c n = Some nd"
  shows "n = 0 \<Longrightarrow> k < length (cl_clients c) \<Longrightarrow> i < length (sent_on c n k) \<Longrightarrow> i \<in> set (got_on k nd)"
    and "n \<noteq> 0 \<Longrightarrow> i < length (sent_on c n 0) \<Longrightarrow> i \<in> set (got_on 0 nd)"
    and "set (raws (cm_out (nd_comm nd))) \<subseteq> set (mail (nd_heard nd) nd)"
proof -
  have "all_in c n nd"
  proof (cases n)
    case (Suc k)
    then have "client_node c k = Some nd" "k \<in> set [0..<length (cl_clients c)]" using assms(2) client_nodeD [of c k nd] by auto
    then show ?thesis using assms(1) Suc unfolding nothing_under_way_def list_all_iff by fastforce
  qed (use assms in \<open>simp add: nothing_under_way_def\<close>)
  then have all: "(\<forall>k \<in> (if n = 0 then {0..<length (cl_clients c)} else {0}). \<forall>i \<in> {0..<length (sent_on c n k)}. i \<in> set (got_on k nd)) \<and>
      (\<forall>j \<in> {0..<length (raws (cm_out (nd_comm nd)))}. j \<in> set (nd_heard nd))"
    by (simp add: all_in_def list_all_iff split: if_splits)
  then show "n = 0 \<Longrightarrow> k < length (cl_clients c) \<Longrightarrow> i < length (sent_on c n k) \<Longrightarrow> i \<in> set (got_on k nd)"
    and "n \<noteq> 0 \<Longrightarrow> i < length (sent_on c n 0) \<Longrightarrow> i \<in> set (got_on 0 nd)"
    by auto
  show "set (raws (cm_out (nd_comm nd))) \<subseteq> set (mail (nd_heard nd) nd)"
  proof
    fix b assume "b \<in> set (raws (cm_out (nd_comm nd)))"
    then obtain j where "j < length (raws (cm_out (nd_comm nd)))" "b = raws (cm_out (nd_comm nd)) ! j" by (auto simp: in_set_conv_nth)
    then show "b \<in> set (mail (nd_heard nd) nd)" using all by (auto simp: mail_def)
  qed
qed

lemma all_heard:
  assumes inv: "cluster_inv cf S c" and d: "delivery_inv cf c" and q: "nothing_under_way c" and nd: "get_node c n = Some nd"
    and b: "b \<in> set (own_of c m)" "m \<noteq> n" "win_start (nd_updater nd) < fb_frame b"
  shows "b \<in> set (raws (cm_out (nd_comm nd)))"
proof -
  note hm = host_mailD [OF cluster_invD(2) [OF inv]]
  have to_host: "b \<in> set (raws (host_out c))" if "m = Suc j" for j
  proof -
    have cn: "client_node c j \<noteq> None" using own_of_sound(3) [OF inv b(1)] that by simp
    then have "b \<in> set (sent_on c 0 j)" using sent_to_host [OF inv] b(1) that by simp
    then obtain i where i: "i < length (sent_on c 0 j)" "b = sent_on c 0 j ! i" by (auto simp: in_set_conv_nth)
    have "j < length (cl_clients c)" using cn client_nodeD by blast
    then have "(j, i) \<in> set (nd_got (cl_host c))" using nothing_under_wayD(1) [OF q, of 0 "cl_host c" j i] i(1) by (auto simp: got_on_def)
    then show ?thesis using hm(5) i(2) by force
  qed
  show ?thesis
  proof (cases n)
    case 0
    then obtain j where "m = Suc j" using b(2) not0_implies_Suc by blast
    then show ?thesis using to_host nd 0 by (simp add: host_out_def)
  next
    case (Suc k)
    then have cn: "client_node c k = Some nd" using nd by simp
    then have k: "k < length (cl_clients c)" using client_nodeD by blast
    obtain hz where g: "gap_free cf c k hz" and km: "keeps_mail c k hz nd" using d k cn unfolding delivery_inv_def by blast
    have "b \<in> set (seen c)" using b(1) to_host by (cases m) (auto simp: seen_def)
    moreover have "origin b \<noteq> ident c (Suc k)"
      using own_of_sound(2,3) [OF inv b(1)] ident_inj [OF cluster_invD(1) [OF inv], of m n] nd b(2) Suc by auto
    moreover have hz: "hz < fb_frame b" using km b(3) by (simp add: keeps_mail_def)
    ultimately have "b \<in> set (sent_on c (Suc k) 0)" using g by (simp add: gap_free_def sent_on_def)
    then obtain i where "i < length (sent_on c (Suc k) 0)" "b = sent_on c (Suc k) 0 ! i" by (auto simp: in_set_conv_nth)
    then show ?thesis using km hz nothing_under_wayD(2) [OF q nd] Suc by (auto simp: keeps_mail_def)
  qed
qed

lemma quiet_caught_up:
  assumes inv: "cluster_inv cf S c" and d: "delivery_inv cf c" and q: "nothing_under_way c" and nd: "get_node c n = Some nd"
  shows "caught_up c n nd"
  unfolding caught_up_def
proof (intro ballI impI)
  fix b assume b: "b \<in> set (others_sent c n)" "win_start (nd_updater nd) < fb_frame b"
  then obtain m where "b \<in> set (own_of c m)" "m \<noteq> n" unfolding others_sent_def set_concat set_map set_filter by blast
  then have "b \<in> set (raws (cm_out (nd_comm nd)))" using all_heard [OF inv d q nd _ _ b(2)] by blast
  then have "b \<in> set (mail (nd_heard nd) nd)" using nothing_under_wayD(3) [OF q nd] by blast
  then show "slot_key b \<in> set (map slot_key (mail (nd_heard nd) nd))" by simp
qed

end
