(* ===== verification/Cluster_Properties.thy ===== *)
theory Cluster_Properties
  imports Cluster_Delivery Examples
begin

text \<open>
  Properties of a host and the clients that join it, over every schedule of the engines'
  components and of the messages between them.
\<close>

section \<open>A game of two engines\<close>

definition ex_config :: "(test_event, test_game, basic_ticker, test_game payload) config" where
  "ex_config = \<lparr>cf_ops = test_ops, cf_enc = Some, cf_dec = Some, cf_tstart = basic_start, cf_ticker = new_basic_ticker,
     cf_frame_ms = 2, cf_max_frames = 5\<rparr>"

definition ex_engine :: "(test_event, test_game, basic_ticker, test_game payload) engine" where
  "ex_engine = the_right (new_net_engine test_ops basic_start new_basic_ticker ex_game 2 5 True True)"

text \<open>A client joins while the host plays; then both play a frame, with an event each.\<close>

definition ex_joins :: "test_event cluster_in list" where
  "ex_joins = [Input 0 (GameEvent (EventA 4)), Input 0 Tick, TakeLocal 0, Connect 55, Input 0 Tick, Input 0 Tick,
     TakeLocal 0, JoinBoot 0, Confirm 0, TakeEvent 0]"

definition ex_host_plays :: "test_event cluster_in list" where
  "ex_host_plays = [Input 0 (GameEvent (EventA 7)), Input 0 Tick, Input 0 Tick, TakeLocal 0]"

definition ex_client_plays :: "test_event cluster_in list" where
  "ex_client_plays = [Receive 1 0 0, Receive 1 0 1, Hear 1 [1, 0], Input 1 Tick, Input 1 Tick,
     Input 1 (GameEvent (EventB ''hi'')), Input 1 Tick, Input 1 Tick, TakeLocal 1, TakeLocal 1]"

definition ex_cluster :: "(test_event, test_game, basic_ticker, test_game payload) cluster" where
  "ex_cluster = the (cluster_run ex_config (ex_joins @ ex_host_plays) (cluster_start ex_engine))"

definition ex_cluster2 :: "(test_event, test_game, basic_ticker, test_game payload) cluster" where
  "ex_cluster2 = the (cluster_run ex_config ex_client_plays ex_cluster)"

definition ex_cluster3 :: "(test_event, test_game, basic_ticker, test_game payload) cluster" where
  "ex_cluster3 = the (cluster_run ex_config [Receive 0 0 0, Hear 0 [0]] ex_cluster2)"

lemma ex_config_ok: "config_ok ex_config"
  using test.game_iface_axioms by (simp add: config_ok_def ex_config_def new_basic_ticker_def basic_start_def)

lemma ex_engine: "new_net_engine test_ops basic_start new_basic_ticker ex_game 2 5 True True = Inr ex_engine"
  unfolding ex_engine_def by (rule the_right) code_simp

lemma ex_config_simps [simp]:
  "cf_ops ex_config = test_ops" "cf_tstart ex_config = basic_start" "cf_ticker ex_config = new_basic_ticker"
  "cf_frame_ms ex_config = 2" "cf_max_frames ex_config = 5"
  by (simp_all add: ex_config_def)

lemma ex_run1: "cluster_run ex_config (ex_joins @ ex_host_plays) (cluster_start ex_engine) = Some ex_cluster"
proof -
  have "cluster_run ex_config (ex_joins @ ex_host_plays) (cluster_start ex_engine) \<noteq> None" by code_simp
  then show ?thesis by (auto simp: ex_cluster_def)
qed

lemma ex_run2: "cluster_run ex_config ex_client_plays ex_cluster = Some ex_cluster2"
proof -
  have "cluster_run ex_config ex_client_plays ex_cluster \<noteq> None" by code_simp
  then show ?thesis by (auto simp: ex_cluster2_def)
qed

lemma ex_run12: "cluster_run ex_config ((ex_joins @ ex_host_plays) @ ex_client_plays) (cluster_start ex_engine) = Some ex_cluster2"
  by (rule trans [OF cluster_run_append [OF ex_run1] ex_run2])

lemma ex_run3: "cluster_run ex_config [Receive 0 0 0, Hear 0 [0]] ex_cluster2 = Some ex_cluster3"
proof -
  have "cluster_run ex_config [Receive 0 0 0, Hear 0 [0]] ex_cluster2 \<noteq> None" by code_simp
  then show ?thesis by (auto simp: ex_cluster3_def)
qed

lemma ex_nodes:
  "get_node ex_cluster2 (Suc 0) = Some (the (client_node ex_cluster2 0))"
  "win_start (nd_updater (the (client_node ex_cluster2 0))) = 3" "win_start (nd_updater (cl_host ex_cluster)) = 2"
  "win_start (nd_updater (cl_host ex_cluster2)) = 2" "win_start (nd_updater (cl_host ex_cluster3)) = 3"
proof -
  have "client_node ex_cluster2 0 \<noteq> None" by code_simp
  then show "get_node ex_cluster2 (Suc 0) = Some (the (client_node ex_cluster2 0))" by auto
  show "win_start (nd_updater (the (client_node ex_cluster2 0))) = 3" by code_simp
  show "win_start (nd_updater (cl_host ex_cluster)) = 2" by code_simp
  show "win_start (nd_updater (cl_host ex_cluster2)) = 2" by code_simp
  show "win_start (nd_updater (cl_host ex_cluster3)) = 3" by code_simp
qed

lemmas ex_host = ex_engine [folded ex_config_simps]

section \<open>Properties\<close>

text \<open>C1: engines never disagree: at any two moments of one run, two engines whose windows start at
  the same frame have the same engines and the same game there. This holds for every schedule of the
  host's and the clients' components, with messages delayed and reordered at will, and also for a
  client that joined in the middle of the game.\<close>

theorem cluster_agrees:
  assumes "config_ok cf"
    and "new_net_engine (cf_ops cf) (cf_tstart cf) (cf_ticker cf) g (cf_frame_ms cf) (cf_max_frames cf) ping_up join_up = Inr e"
    and "cluster_run cf is (cluster_start e) = Some c" and "cluster_run cf js c = Some d"
    and "get_node c m = Some x" and "get_node d n = Some y"
    and "win_start (nd_updater x) = f" and "win_start (nd_updater y) = f"
  shows "engines_at (nd_updater x) f = engines_at (nd_updater y) f \<and> game_at (nd_updater x) f = game_at (nd_updater y) f"
proof -
  obtain S1 S2 where S1: "cluster_inv cf S1 c" and "cluster_inv cf S2 d" "final_kept (cf_ops cf) S1 c S2 d"
    using cluster_two_moments [OF assms(1-4)] .
  from runs_agree [OF S1 assms(5) this(2,3) assms(6-8)] show ?thesis .
qed

theorem cluster_agrees_witness:
  "game_at (nd_updater (the (client_node ex_cluster2 0))) 3 = game_at (nd_updater (cl_host ex_cluster3)) 3 \<and>
   tg_b (game_at (nd_updater (cl_host ex_cluster3)) 3) = ''hi''"
proof -
  have "tg_b (game_at (nd_updater (cl_host ex_cluster3)) 3) = ''hi''" by code_simp
  then show ?thesis
    using cluster_agrees [OF ex_config_ok ex_host ex_run12 ex_run3 ex_nodes(1) get_node_simps(1)] ex_nodes by simp
qed

text \<open>C3: the engines of a run play one game: the frame after one that some engine has made final is,
  on whatever engine it is final, the step of the game with the events that all engines have sent
  for it, the dropped and the joined engines first.\<close>

theorem cluster_plays_game:
  assumes "config_ok cf"
    and "new_net_engine (cf_ops cf) (cf_tstart cf) (cf_ticker cf) g (cf_frame_ms cf) (cf_max_frames cf) ping_up join_up = Inr e"
    and "cluster_run cf is (cluster_start e) = Some c" and "cluster_run cf js c = Some d"
    and "get_node c m = Some x" and "get_node d n = Some y"
    and "win_start (nd_updater x) = f" and "win_start (nd_updater y) = f + 1"
  shows "(engines_at (nd_updater y) (f + 1), game_at (nd_updater y) (f + 1)) =
    frame_step (cf_ops cf) (sent_map d (f + 1)) (engines_at (nd_updater x) f, game_at (nd_updater x) f)"
proof -
  obtain S1 S2 where S1: "cluster_inv cf S1 c" and "cluster_inv cf S2 d" "final_kept (cf_ops cf) S1 c S2 d"
    using cluster_two_moments [OF assms(1-4)] .
  from runs_play [OF S1 assms(5) this(2,3) assms(6-8)] show ?thesis .
qed

theorem cluster_plays_game_witness:
  "(engines_at (nd_updater (the (client_node ex_cluster2 0))) 3, game_at (nd_updater (the (client_node ex_cluster2 0))) 3) =
   frame_step test_ops (sent_map ex_cluster2 3) (engines_at (nd_updater (cl_host ex_cluster)) 2, game_at (nd_updater (cl_host ex_cluster)) 2)"
  using cluster_plays_game [OF ex_config_ok ex_host ex_run1 ex_run2 get_node_simps(1) ex_nodes(1), of 2] ex_nodes by simp

text \<open>C6: no component panics in a run: within the bounds that the code takes for granted (bundles
  inside the window, a joining client whose clock is not ahead of what it has heard, fresh ids,
  frame numbers clear of \<open>MaxInt32\<close>) every enabled step of every engine succeeds. The window
  of no engine moves back, and no engine disappears.\<close>

theorem cluster_never_panics:
  assumes "config_ok cf"
    and "new_net_engine (cf_ops cf) (cf_tstart cf) (cf_ticker cf) g (cf_frame_ms cf) (cf_max_frames cf) ping_up join_up = Inr e"
    and "cluster_run cf is (cluster_start e) = Some c" and "in_bounds cf i c" and "cluster_step cf i c = Some r"
  shows "\<exists>d. r = Inr d \<and> (\<forall>n x. get_node c n = Some x \<longrightarrow>
    (\<exists>y. get_node d n = Some y \<and> win_start (nd_updater x) \<le> win_start (nd_updater y)))"
proof -
  obtain S1 where S1: "cluster_inv cf S1 c" using cluster_reached [OF assms(1-3)] by blast
  obtain d S2 where "r = Inr d" "final_kept (cf_ops cf) S1 c S2 d" using cluster_step_ok [OF S1 assms(1,4,5)] by blast
  then show ?thesis unfolding final_kept_def by blast
qed

theorem cluster_never_panics_witness:
  "\<exists>d. cluster_step ex_config (Receive 0 0 0) ex_cluster2 = Some (Inr d)"
proof -
  have "cluster_step ex_config (Receive 0 0 0) ex_cluster2 \<noteq> None" by code_simp
  then obtain r where "cluster_step ex_config (Receive 0 0 0) ex_cluster2 = Some r" by blast
  with cluster_never_panics [OF ex_config_ok ex_host ex_run12 _ this] show ?thesis by auto
qed

text \<open>C9: what reaches an updater: every remote bundle that the communicator of an engine hands on was
  sent by another engine, holds that engine's events for one frame only, with engine events from
  the host alone, and no bundle arrives twice, forwarded or not.\<close>

theorem cluster_mail_once:
  assumes "config_ok cf"
    and "new_net_engine (cf_ops cf) (cf_tstart cf) (cf_ticker cf) g (cf_frame_ms cf) (cf_max_frames cf) ping_up join_up = Inr e"
    and "cluster_run cf is (cluster_start e) = Some c" and "get_node c n = Some x"
  shows "distinct (map slot_key (raws (cm_out (nd_comm x)))) \<and> (\<forall>b \<in> set (raws (cm_out (nd_comm x))).
    sound_bundle b \<and> (\<exists>m. m \<noteq> n \<and> b \<in> set (own_of c m) \<and> origin b = ident c m))"
proof -
  obtain S1 where S1: "cluster_inv cf S1 c" using cluster_reached [OF assms(1-3)] by blast
  show ?thesis using mail_from_others [OF S1 assms(4)] mail_sound(1) [OF S1 assms(4)] own_of_sound(2) [OF S1] by blast
qed

theorem cluster_mail_once_witness:
  "distinct (map slot_key (raws (cm_out (nd_comm (the (client_node ex_cluster2 0)))))) \<and>
   length (raws (cm_out (nd_comm (the (client_node ex_cluster2 0))))) = 2"
proof -
  have "length (raws (cm_out (nd_comm (the (client_node ex_cluster2 0))))) = 2" by code_simp
  then show ?thesis using cluster_mail_once [OF ex_config_ok ex_host ex_run12 ex_nodes(1)] by blast
qed

text \<open>C2: engines converge: when no bundle is under way any more, every engine has heard what the others have
  sent for frames that are not final, bootstrapped engines included, and all engines are at the same
  frame, with the same engines and the same game, whatever the order in which everything came in.\<close>

theorem cluster_converges:
  assumes "config_ok cf"
    and "new_net_engine (cf_ops cf) (cf_tstart cf) (cf_ticker cf) g (cf_frame_ms cf) (cf_max_frames cf) ping_up join_up = Inr e"
    and "cluster_run cf is (cluster_start e) = Some c" and "nothing_under_way c"
    and "get_node c m = Some x" and "get_node c n = Some y" and "nd_updater x = u" and "nd_updater y = v"
  shows "caught_up c m x \<and> win_start u = win_start v \<and> engines_at u (win_start u) = engines_at v (win_start v) \<and>
    game_at u (win_start u) = game_at v (win_start v)"
proof -
  obtain S where S: "cluster_inv cf S c" using cluster_reached [OF assms(1-3)] by blast
  note up = quiet_caught_up [OF S delivery_reached [OF assms(1-3)] assms(4)]
  have eq: "win_start u = win_start v" using caught_up_meet [OF S assms(5) up assms(6) up] assms(5-8) by simp
  then show ?thesis
    using runs_agree [OF S assms(5) S final_kept_refl assms(6), of "win_start u"] up [OF assms(5)] assms(7,8) by simp
qed

lemma ex_quiet: "nothing_under_way ex_cluster3" "caught_up ex_cluster3 0 (cl_host ex_cluster3)"
  "get_node ex_cluster3 (Suc 0) = Some (the (client_node ex_cluster3 0))"
proof -
  show "nothing_under_way ex_cluster3" by code_simp
  show "caught_up ex_cluster3 0 (cl_host ex_cluster3)" by code_simp
  have "client_node ex_cluster3 0 \<noteq> None" by code_simp
  then show "get_node ex_cluster3 (Suc 0) = Some (the (client_node ex_cluster3 0))" by auto
qed

lemma ex_run123: "cluster_run ex_config (((ex_joins @ ex_host_plays) @ ex_client_plays) @ [Receive 0 0 0, Hear 0 [0]]) (cluster_start ex_engine) = Some ex_cluster3"
  by (rule trans [OF cluster_run_append [OF ex_run12] ex_run3])

theorem cluster_converges_witness:
  "win_start (nd_updater (the (client_node ex_cluster3 0))) = 3 \<and>
   tg_b (game_at (nd_updater (the (client_node ex_cluster3 0))) 3) = ''hi''"
proof -
  have "tg_b (game_at (nd_updater (cl_host ex_cluster3)) 3) = ''hi''" by code_simp
  then show ?thesis
    using cluster_converges [OF ex_config_ok ex_host ex_run123 ex_quiet(1) get_node_simps(1) ex_quiet(3) refl refl] ex_nodes by simp
qed

text \<open>C7: what holds the game up: an engine that has heard what the others have sent is at the newest
  final frame of the whole run, and the next frame lacks the events of an engine that belongs to
  it and has not sent them yet. An engine waits for nothing else.\<close>

theorem cluster_waits:
  assumes "config_ok cf"
    and "new_net_engine (cf_ops cf) (cf_tstart cf) (cf_ticker cf) g (cf_frame_ms cf) (cf_max_frames cf) ping_up join_up = Inr e"
    and "cluster_run cf is (cluster_start e) = Some c" and "get_node c m = Some x" and "caught_up c m x" and "nd_updater x = u"
    and "win_start u = f"
  shows "(\<exists>i \<in> fmdom' (frame_engines (sent_map c (f + 1)) (engines_at u f)). i \<notin> fmdom' (sent_map c (f + 1))) \<and>
    (\<forall>k z. get_node c k = Some z \<longrightarrow> win_start (nd_updater z) \<le> f)"
proof -
  obtain S where S: "cluster_inv cf S c" using cluster_reached [OF assms(1-3)] by blast
  note st = cluster_settled [OF S assms(4)]
  have "engines_at u f = fst (state_at (cf_ops cf) (S m) f)"
    using settled_view [OF st, of f] settled_order(2) [OF st] assms(6,7) by (metis fst_conv order_refl)
  then show ?thesis
    using caught_up_waits [OF S assms(4,5), of f] caught_up_leads [OF S assms(4,5)] assms(6,7) by (auto simp: frame_step_def Let_def)
qed

theorem cluster_waits_witness:
  "\<exists>i \<in> fmdom' (frame_engines (sent_map ex_cluster3 4) (engines_at (nd_updater (cl_host ex_cluster3)) 3)). i \<notin> fmdom' (sent_map ex_cluster3 4)"
  using cluster_waits [OF ex_config_ok ex_host ex_run123 get_node_simps(1) ex_quiet(2) refl ex_nodes(5)] by simp

end
