(* ===== verification/Join_Faults.thy ===== *)
theory Join_Faults
  imports Node
begin

text \<open>
  A joining engine whose clock is ahead of what it has heard. Once it has learned the frame it joins
  on, \<open>routine\<close> fills the frames up to its next local bundle with empty events of its own, before
  it has opened those past \<open>global_frame\<close> with \<open>initFrameData\<close>. On a slot of the window that was
  never used the map is nil and the write panics; on a slot that was used, the later
  \<open>initFrameData\<close> wipes what was written, and the engine waits for ever for its own events.
\<close>

section \<open>The loop over the skipped frames\<close>

lemma for_lt_split:
  assumes "a \<le> b" and "b \<le> c"
  shows "for_lt a c body s = seq (for_lt a b body s) (for_lt b c body)"
  using assms(1)
proof (induction "nat (b - a)" arbitrary: a s)
  case 0
  then show ?case by simp
next
  case (Suc n)
  then have ab: "a < b" and n: "n = nat (b - (a + 1))" by auto
  have "for_lt (a + 1) c body s' = seq (for_lt (a + 1) b body s') (for_lt b c body)" for s'
    by (rule Suc.hyps(1) [OF n]) (use ab in simp)
  then show ?case using ab assms(2) by (simp add: for_lt_step [of a] seq_assoc)
qed

lemma for_lt_keeps:
  assumes "for_lt a b body s = Inr t" and "P s"
    and "\<And>i s s'. a \<le> i \<Longrightarrow> i < b \<Longrightarrow> P s \<Longrightarrow> body i s = Inr s' \<Longrightarrow> P s'"
  shows "P t"
  using assms
proof (induction "nat (b - a)" arbitrary: a s)
  case 0
  then show ?case by simp
next
  case (Suc n)
  then have ab: "a < b" and n: "n = nat (b - (a + 1))" by auto
  obtain s' where s': "body a s = Inr s'" "for_lt (a + 1) b body s' = Inr t"
    using Suc.prems(1) ab by (auto simp: for_lt_step seq_Inr_iff)
  show ?case
  proof (rule Suc.hyps(1) [OF n s'(2)])
    show "P s'" using Suc.prems(3) [OF order_refl ab Suc.prems(2) s'(1)] .
    show "P u'" if "a + 1 \<le> i" "i < b" "P u" "body i u = Inr u'" for i u u'
      by (rule Suc.prems(3) [OF _ that(2-4)]) (use that(1) in simp)
  qed
qed

text \<open>A write to a slot of the window leaves the others, the games and the shape of the window alone.\<close>

lemma absorb_at_slot:
  assumes u: "win_ok u" and i: "inwin u i"
  shows "absorb_at i b u = seq (absorb (fd_bundle (fd_at u i)) b) (\<lambda>b'.
    Inr (u\<lparr>up_window := dw_put (up_window u) i ((fd_at u i)\<lparr>fd_bundle := b'\<rparr>)\<rparr>))"
  using assms by (simp add: absorb_at_def dw_get_fd_at dw_set_put win_ok_dw)

lemma put_bundle:
  fixes u :: "('e, 'g) updater" and b :: "'e event_bundle"
  assumes u: "win_ok u" and i: "inwin u i"
  defines "v \<equiv> u\<lparr>up_window := dw_put (up_window u) i ((fd_at u i)\<lparr>fd_bundle := b\<rparr>)\<rparr>"
  shows "win_ok v" and "inwin u k \<Longrightarrow> fd_at v k = (if k = i then (fd_at u i)\<lparr>fd_bundle := b\<rparr> else fd_at u k)"
proof -
  have v: "v = u\<lparr>up_window := dw_put (up_window u) i ((fd_at u i)\<lparr>fd_bundle := b\<rparr>), up_heap := up_heap u\<rparr>"
    by (simp add: v_def)
  show "win_ok v" unfolding v by (rule win_ok_put) (use u in simp_all)
  show "fd_at v k = (if k = i then (fd_at u i)\<lparr>fd_bundle := b\<rparr> else fd_at u k)" if "inwin u k"
    unfolding v by (rule fd_at_put [OF u i that])
qed

definition dummy_of :: "('e, 'g) updater \<Rightarrow> 'e event_bundle" where
  "dummy_of u = dummy_bundle (ep_id (up_params u))"

lemma absorb_dummy:
  "absorb fb (dummy_bundle i) = (if fmlookup (map_of_nilable fb) i \<noteq> None then Inl (Collision (eid i))
     else case fb of None \<Rightarrow> Inl NilMapWrite | Some m \<Rightarrow> Inr (Some (fmupd i no_events m)))"
  by (cases fb) (simp_all add: absorb_def absorb_with_def absorb_one_def dummy_bundle_def keys_singleton bundle_get_def)

text \<open>One turn of the loop, on a slot inside the window.\<close>

lemma fill_one:
  assumes u: "win_ok u" and i: "inwin u i"
  shows "fill_skipped_one i u = seq (absorb (fd_bundle (fd_at u i)) (dummy_of u)) (\<lambda>b'.
    Inr (u\<lparr>up_window := dw_put (up_window u) i ((fd_at u i)\<lparr>fd_bundle := b'\<rparr>),
           up_out := up_out u @ skip_outs (ep_id (up_params u)) i (i + 1)\<rparr>))"
  by (simp add: fill_skipped_one_def absorb_at_slot [OF assms] dummy_of_def send_def seq_assoc skip_outs_def)

text \<open>The other slots during the loop.\<close>

lemma fill_other:
  assumes v: "for_lt a b fill_skipped_one u = Inr v" and u: "win_ok u" and a: "win_start u \<le> a" and b: "b \<le> win_start u + win_len u"
  shows "win_ok v \<and> win_start v = win_start u \<and> win_len v = win_len u \<and> ep_id (up_params v) = ep_id (up_params u) \<and>
    (\<forall>k. inwin u k \<longrightarrow> b \<le> k \<longrightarrow> fd_at v k = fd_at u k)"
proof (rule for_lt_keeps [OF v])
  fix i s s'
  assume i: "a \<le> i" "i < b" and s: "win_ok s \<and> win_start s = win_start u \<and> win_len s = win_len u \<and>
      ep_id (up_params s) = ep_id (up_params u) \<and> (\<forall>k. inwin u k \<longrightarrow> b \<le> k \<longrightarrow> fd_at s k = fd_at u k)"
    and s': "fill_skipped_one i s = Inr s'"
  have iw: "inwin s i" using i a b s by (simp add: dw_inb_def)
  have in_same: "inwin s k = inwin u k" for k using s by (simp add: dw_inb_def)
  obtain b' where b': "s' = s\<lparr>up_window := dw_put (up_window s) i ((fd_at s i)\<lparr>fd_bundle := b'\<rparr>),
      up_out := up_out s @ skip_outs (ep_id (up_params s)) i (i + 1)\<rparr>"
    using s' s iw by (auto simp: fill_one seq_Inr_iff)
  note pb = put_bundle [OF _ iw, where b = b']
  have "win_ok s'" using pb(1) s unfolding b' by (simp add: win_ok_def)
  moreover have "fd_at s' k = fd_at u k" if "inwin u k" "b \<le> k" for k
    using pb(2) [of k] s that i in_same unfolding b' by (simp add: fd_at_def)
  ultimately show "win_ok s' \<and> win_start s' = win_start u \<and> win_len s' = win_len u \<and>
      ep_id (up_params s') = ep_id (up_params u) \<and> (\<forall>k. inwin u k \<longrightarrow> b \<le> k \<longrightarrow> fd_at s' k = fd_at u k)"
    using s by (simp add: b')
qed (use u in simp)

section \<open>A slot that was never used\<close>

context game_iface
begin

text \<open>What an engine that has learned its frame knows before its first bundle.\<close>

lemma join_facts:
  assumes u: "upd_ok G me n heard s u" and k: "0 < up_skip u"
  shows "win_start u < up_skip u" and "\<And>j. up_skip u \<le> j \<Longrightarrow> me \<notin> fmdom' (hi_bundles s j)"
    and "hi_pending s \<Longrightarrow> hi_base s + 1 < up_skip u" and "up_skip u \<le> up_global u"
proof -
  note m = upd_okD(11) [OF u, unfolded membership_def]
  have j: "hi_base s < up_skip u" "joined me (up_skip u) s" and o: "own u = []" using m k by auto
  show "win_start u < up_skip u" using own_frame_open(1) [OF u j(2) order_refl j(1)] o by simp
  show "me \<notin> fmdom' (hi_bundles s i)" if "up_skip u \<le> i" for i
    using own_frame_open(2) [OF u j(2) that] j(1) that o by simp
  show "hi_base s + 1 < up_skip u" if "hi_pending s"
    using upd_ok_joins [OF u] that j by (cases "up_skip u = hi_base s + 1") (auto simp: history_joins_def joined_def)
  show "up_skip u \<le> up_global u"
  proof (rule ccontr)
    assume "\<not> up_skip u \<le> up_global u"
    then have "hi_bundles s (up_skip u) = fmempty"
      using upd_invD(5) [OF settledD(1) [OF run_invD(1) [OF upd_okD(1) [OF u]]]] by (simp add: history_ok_def)
    then show False using j by (simp add: joined_def)
  qed
qed

text \<open>The loop up to \<open>global_frame\<close>, which is harmless.\<close>

lemma fill_opened:
  assumes u: "upd_ok G me n heard s u" and k: "0 < up_skip u"
  obtains w where "for_lt (up_skip u) (up_global u + 1) fill_skipped_one (u\<lparr>up_dirty := min (up_dirty u) (up_skip u)\<rparr>) =
      Inr (u\<lparr>up_dirty := min (up_dirty u) (up_skip u), up_window := w, up_out := up_out u @ skip_outs me (up_skip u) (up_global u + 1)\<rparr>)"
    and "dw_first w = win_start u" and "dw_len w = win_len u"
    and "upd_inv G (join_history me (up_skip u) (up_global u + 1) s)
      (u\<lparr>up_dirty := min (up_dirty u) (up_skip u), up_window := w, up_out := up_out u @ skip_outs me (up_skip u) (up_global u + 1)\<rparr>)"
    and "\<And>i. inwin u i \<Longrightarrow> up_global u < i \<Longrightarrow>
      fd_at (u\<lparr>up_dirty := min (up_dirty u) (up_skip u), up_window := w, up_out := up_out u @ skip_outs me (up_skip u) (up_global u + 1)\<rparr>) i = fd_at u i"
proof -
  note r = upd_okD(1) [OF u] and j = join_facts [OF u k] and id = upd_okD(3,4) [OF u]
  note inv = settledD(1) [OF run_invD(1) [OF r]]
  let ?u1 = "u\<lparr>up_dirty := min (up_dirty u) (up_skip u)\<rparr>" and ?g = "up_global u + 1"
  obtain w where w: "fill_skipped ?g u = Inr (u\<lparr>up_window := w, up_dirty := min (up_dirty u) (up_skip u), up_skip := 0,
        up_out := up_out u @ skip_outs me (up_skip u) ?g\<rparr>)" "dw_first w = win_start u" "dw_len w = win_len u"
      "upd_inv G (join_history me (up_skip u) ?g s) (u\<lparr>up_window := w, up_dirty := min (up_dirty u) (up_skip u), up_skip := 0,
        up_out := up_out u @ skip_outs me (up_skip u) ?g\<rparr>)"
    using fill_skipped_ok [OF inv j(1) _ order_refl, unfolded id(1)] j(2-4) id(2) by (auto simp: Let_def)
  have u1: "(if up_skip u < up_dirty u then u\<lparr>up_dirty := up_skip u\<rparr> else u) = ?u1" by (simp add: min_def)
  obtain v where v: "for_lt (up_skip u) ?g fill_skipped_one ?u1 = Inr v"
      "v\<lparr>up_skip := 0\<rparr> = u\<lparr>up_window := w, up_dirty := min (up_dirty u) (up_skip u), up_skip := 0,
        up_out := up_out u @ skip_outs me (up_skip u) ?g\<rparr>"
    using w(1) unfolding fill_skipped_def u1 by (auto simp: seq_Inr_iff)
  have sk: "up_skip v = up_skip u"
  proof (rule for_lt_keeps [OF v(1)])
    fix i s s' assume "up_skip s = up_skip u" and s': "fill_skipped_one i (s :: ('e, 'g) updater) = Inr s'"
    moreover have "up_skip s' = up_skip s"
      using s' by (auto simp: fill_skipped_one_def absorb_at_def send_def seq_Inr_iff)
    ultimately show "up_skip s' = up_skip u" by simp
  qed simp
  have "v = v\<lparr>up_skip := 0\<rparr>\<lparr>up_skip := up_skip u\<rparr>" using sk by simp
  then have veq: "v = u\<lparr>up_dirty := min (up_dirty u) (up_skip u), up_window := w, up_out := up_out u @ skip_outs me (up_skip u) ?g\<rparr>"
    unfolding v(2) by simp
  show thesis
  proof (rule that [of w])
    show "for_lt (up_skip u) ?g fill_skipped_one ?u1 =
        Inr (u\<lparr>up_dirty := min (up_dirty u) (up_skip u), up_window := w, up_out := up_out u @ skip_outs me (up_skip u) ?g\<rparr>)"
      using v(1) veq by simp
    show "upd_inv G (join_history me (up_skip u) ?g s)
        (u\<lparr>up_dirty := min (up_dirty u) (up_skip u), up_window := w, up_out := up_out u @ skip_outs me (up_skip u) ?g\<rparr>)"
      using w(4) upd_inv_frame(1) [where u = v and x = 0] unfolding v(2) [symmetric] veq by blast
    show "fd_at (u\<lparr>up_dirty := min (up_dirty u) (up_skip u), up_window := w, up_out := up_out u @ skip_outs me (up_skip u) ?g\<rparr>) i = fd_at u i"
      if "inwin u i" "up_global u < i" for i
    proof -
      have "fd_at v i = fd_at ?u1 i"
        using fill_other [OF v(1)] run_invD(5,6) [OF r] j(1) that by (simp add: win_ok_def)
      then show ?thesis unfolding veq by (simp add: fd_at_def)
    qed
  qed (use w in simp_all)
qed

lemma nil_slot_panics:
  assumes u: "upd_ok G me n heard s u" and k: "0 < up_skip u" and f: "up_global u + 1 < fb_frame lb"
    and iw: "up_global u + 1 < win_start u + win_len u" and nil: "fd_bundle (fd_at u (up_global u + 1)) = None"
  shows "handle_local G lb u = Inl NilMapWrite"
proof -
  let ?g = "up_global u + 1" and ?u1 = "u\<lparr>up_dirty := min (up_dirty u) (up_skip u)\<rparr>"
  note r = upd_okD(1) [OF u] and j = join_facts [OF u k]
  obtain w where w: "for_lt (up_skip u) ?g fill_skipped_one ?u1 =
      Inr (u\<lparr>up_dirty := min (up_dirty u) (up_skip u), up_window := w, up_out := up_out u @ skip_outs me (up_skip u) ?g\<rparr>)"
      "dw_first w = win_start u" "dw_len w = win_len u"
      "upd_inv G (join_history me (up_skip u) ?g s)
        (u\<lparr>up_dirty := min (up_dirty u) (up_skip u), up_window := w, up_out := up_out u @ skip_outs me (up_skip u) ?g\<rparr>)"
      "\<And>i. inwin u i \<Longrightarrow> up_global u < i \<Longrightarrow>
        fd_at (u\<lparr>up_dirty := min (up_dirty u) (up_skip u), up_window := w, up_out := up_out u @ skip_outs me (up_skip u) ?g\<rparr>) i = fd_at u i"
    using fill_opened [OF u k] by blast
  let ?v = "u\<lparr>up_dirty := min (up_dirty u) (up_skip u), up_window := w, up_out := up_out u @ skip_outs me (up_skip u) ?g\<rparr>"
  have "inwin u ?g" using iw run_invD(7) [OF r] by (simp add: dw_inb_def)
  moreover from this have "inwin ?v ?g" using w(2,3) by (simp add: dw_inb_def)
  moreover have "win_ok ?v" using w(4) upd_shapeD(1) [OF upd_invD(1)] by blast
  ultimately have "fill_skipped_one ?g ?v = Inl NilMapWrite"
    using w(5) [of ?g] nil by (simp add: fill_one absorb_dummy dummy_of_def)
  then have "for_lt ?g (fb_frame lb) fill_skipped_one ?v = Inl NilMapWrite" using f by (simp add: for_lt_step)
  then have "for_lt (up_skip u) (fb_frame lb) fill_skipped_one ?u1 = Inl NilMapWrite"
    using for_lt_split [of "up_skip u" ?g "fb_frame lb" fill_skipped_one ?u1] j(4) f w(1) by simp
  moreover have u1: "(if up_skip u < up_dirty u then u\<lparr>up_dirty := up_skip u\<rparr> else u) = ?u1" by (simp add: min_def)
  ultimately have "fill_skipped (fb_frame lb) u = Inl NilMapWrite" unfolding fill_skipped_def Let_def u1 by simp
  then show ?thesis using k j(4) f by (simp add: handle_local_def)
qed

section \<open>Slots that were used\<close>

text \<open>The dummies past \<open>global_frame\<close> change nothing that the history tells.\<close>

lemma put_unopened:
  assumes u: "upd_inv G s u" and i: "up_global u < i" "i < win_start u + win_len u"
  shows "upd_inv G s (u\<lparr>up_window := dw_put (up_window u) i ((fd_at u i)\<lparr>fd_bundle := b\<rparr>), up_out := o1\<rparr>)"
proof -
  let ?v = "u\<lparr>up_window := dw_put (up_window u) i ((fd_at u i)\<lparr>fd_bundle := b\<rparr>)\<rparr>"
  note sh = upd_shapeD [OF upd_invD(1) [OF u]]
  have iw: "inwin u i" using i sh by (simp add: dw_inb_def)
  have fd: "fd_at ?v k = fd_at u k" if "inwin u k" "k \<le> up_global u" for k
    using put_bundle(2) [OF sh(1) iw that(1)] i(1) that(2) by simp
  have "clean G s ?v (up_dirty u)"
    unfolding clean_def
  proof (intro allI impI)
    fix k assume k: "win_start ?v \<le> k \<and> k < up_dirty u"
    then have "inwin u k" "k \<le> up_global u" using sh by (auto simp: dw_inb_def)
    then show "(engines_at ?v k, game_at ?v k) = state_at G s k"
      using u k fd by (simp add: upd_inv_def clean_def engines_at_def game_at_def)
  qed
  moreover have "bundles_match s ?v (up_global u + 1)"
    unfolding bundles_match_def
  proof (intro allI impI)
    fix k assume k: "win_start ?v < k \<and> k < up_global u + 1"
    then have "inwin u k" using sh by (auto simp: dw_inb_def)
    then show "fd_bundle (fd_at ?v k) = Some (hi_bundles s k)"
      using u k fd by (simp add: upd_inv_def bundles_match_def)
  qed
  ultimately have "upd_inv G s ?v"
    using u put_bundle(1) [OF sh(1) iw] sh by (simp add: upd_inv_def upd_shape_def)
  then show ?thesis using upd_inv_frame(3) [where u = ?v and ?o1.0 = o1 and s = s] by simp
qed

lemma fill_unopened:
  assumes u: "upd_inv G s u" and f: "up_global u + 1 \<le> f" "f \<le> win_start u + win_len u"
    and stale: "\<And>k. up_global u < k \<Longrightarrow> k < f \<Longrightarrow> \<exists>m. fd_bundle (fd_at u k) = Some m \<and> ep_id (up_params u) \<notin> fmdom' m"
  obtains w where "for_lt (up_global u + 1) f fill_skipped_one u = Inr (u\<lparr>up_window := w,
      up_out := up_out u @ skip_outs (ep_id (up_params u)) (up_global u + 1) f\<rparr>)"
    and "dw_first w = win_start u" and "dw_len w = win_len u"
    and "upd_inv G s (u\<lparr>up_window := w, up_out := up_out u @ skip_outs (ep_id (up_params u)) (up_global u + 1) f\<rparr>)"
proof -
  let ?me = "ep_id (up_params u)" and ?g = "up_global u + 1"
  define I where "I i v \<longleftrightarrow> (\<exists>w. v = u\<lparr>up_window := w, up_out := up_out u @ skip_outs ?me ?g i\<rparr> \<and>
    dw_first w = win_start u \<and> dw_len w = win_len u \<and> upd_inv G s v \<and>
    (\<forall>k. i \<le> k \<and> k < f \<longrightarrow> fd_at v k = fd_at u k))" for i v
  have "I ?g u" unfolding I_def by (rule exI [of _ "up_window u"]) (use u in \<open>simp add: skip_outs_def\<close>)
  moreover have "\<exists>v'. fill_skipped_one i v = Inr v' \<and> I (i + 1) v'" if i: "?g \<le> i" "i < f" and v: "I i v" for i v
  proof -
    obtain w where w: "v = u\<lparr>up_window := w, up_out := up_out u @ skip_outs ?me ?g i\<rparr>" "dw_first w = win_start u"
        "dw_len w = win_len u" "upd_inv G s v" "\<forall>k. i \<le> k \<and> k < f \<longrightarrow> fd_at v k = fd_at u k"
      using v unfolding I_def by blast
    note sh = upd_shapeD [OF upd_invD(1) [OF w(4)]]
    have iw: "inwin v k" if "i \<le> k" "k < f" for k using that i f w(1-3) sh by (simp add: dw_inb_def)
    obtain m where m: "fd_bundle (fd_at v i) = Some m" "?me \<notin> fmdom' m" using stale [of i] i w(5) by auto
    let ?w = "dw_put (up_window v) i ((fd_at v i)\<lparr>fd_bundle := Some (fmupd ?me no_events m)\<rparr>)"
    let ?v = "v\<lparr>up_window := ?w, up_out := up_out v @ skip_outs ?me i (i + 1)\<rparr>"
    have "fill_skipped_one i v = Inr ?v"
      using fill_one [OF sh(1) iw [OF order_refl i(2)]] m w(1) by (simp add: absorb_dummy dummy_of_def fmlookup_dom'_iff)
    moreover have "upd_inv G s ?v" by (rule put_unopened [OF w(4)]) (use i f w(1-3) in simp_all)
    moreover have "fd_at ?v k = fd_at u k" if "i + 1 \<le> k" "k < f" for k
      using put_bundle(2) [OF sh(1) iw [OF order_refl i(2)] iw [of k]] that w(5) by (simp add: fd_at_def)
    moreover have "?v = u\<lparr>up_window := ?w, up_out := up_out u @ skip_outs ?me ?g (i + 1)\<rparr>"
      using w(1) i by (simp add: skip_outs_step) (simp add: skip_outs_def)
    ultimately show ?thesis using w(1-3) unfolding I_def by (intro exI [of _ ?v] conjI exI [of _ ?w]) simp_all
  qed
  ultimately obtain v where "for_lt ?g f fill_skipped_one u = Inr v" "I f v"
    using for_lt_invariant [of I ?g u f fill_skipped_one] f(1) by blast
  then show thesis using that unfolding I_def by blast
qed

lemma skip_outs_append: "lo \<le> m \<Longrightarrow> m \<le> hi \<Longrightarrow> skip_outs me lo m @ skip_outs me m hi = skip_outs me lo hi"
  unfolding skip_outs_def map_append [symmetric] by (simp only: upto_join)

lemma ahead_round:
  assumes u: "upd_ok G me n heard s u" and k: "0 < up_skip u" and lb: "bundle_of me a lb"
    and f: "up_global u + 1 < fb_frame lb" "fb_frame lb < win_start u + win_len u" "fb_frame lb + win_len u \<le> max_i32"
    and stale: "\<And>k. up_global u < k \<Longrightarrow> k < fb_frame lb \<Longrightarrow> \<exists>m. fd_bundle (fd_at u k) = Some m \<and> me \<notin> fmdom' m"
  defines "t \<equiv> add_bundle (fb_frame lb) (map_of_nilable (fb_bundle lb)) (join_history me (up_skip u) (up_global u + 1) s)"
  shows "\<exists>v. handle_local G lb u = Inr v \<and> run_inv G t v \<and> up_skip v = 0 \<and> win_start u \<le> win_start v \<and>
    (\<exists>out. up_out v = up_out u @ skip_outs me (up_skip u) (fb_frame lb) @ Broadcast lb # out)"
proof -
  let ?f = "fb_frame lb" and ?g = "up_global u + 1" and ?lo = "up_skip u"
  note r = upd_okD(1) [OF u] and j = join_facts [OF u k] and id = upd_okD(3,4) [OF u]
  note st = settledD [OF run_invD(1) [OF r]]
  let ?s = "join_history me ?lo ?g s"
  obtain w where w: "for_lt ?lo ?g fill_skipped_one (u\<lparr>up_dirty := min (up_dirty u) ?lo\<rparr>) =
      Inr (u\<lparr>up_dirty := min (up_dirty u) ?lo, up_window := w, up_out := up_out u @ skip_outs me ?lo ?g\<rparr>)"
      "dw_first w = win_start u" "dw_len w = win_len u"
      "upd_inv G ?s (u\<lparr>up_dirty := min (up_dirty u) ?lo, up_window := w, up_out := up_out u @ skip_outs me ?lo ?g\<rparr>)"
      "\<And>i. inwin u i \<Longrightarrow> up_global u < i \<Longrightarrow>
        fd_at (u\<lparr>up_dirty := min (up_dirty u) ?lo, up_window := w, up_out := up_out u @ skip_outs me ?lo ?g\<rparr>) i = fd_at u i"
    using fill_opened [OF u k] by blast
  let ?v = "u\<lparr>up_dirty := min (up_dirty u) ?lo, up_window := w, up_out := up_out u @ skip_outs me ?lo ?g\<rparr>"
  have "\<exists>m. fd_bundle (fd_at ?v i) = Some m \<and> ep_id (up_params ?v) \<notin> fmdom' m" if "up_global ?v < i" "i < ?f" for i
  proof -
    have "inwin u i" using that f(2) run_invD(7) [OF r] by (simp add: dw_inb_def)
    then have "fd_at ?v i = fd_at u i" using w(5) that(1) by simp
    then show ?thesis using stale [of i] that id(1) by simp
  qed
  then obtain w' where w': "for_lt ?g ?f fill_skipped_one ?v = Inr (?v\<lparr>up_window := w', up_out := up_out ?v @ skip_outs me ?g ?f\<rparr>)"
      "dw_first w' = win_start ?v" "dw_len w' = win_len ?v"
      "upd_inv G ?s (?v\<lparr>up_window := w', up_out := up_out ?v @ skip_outs me ?g ?f\<rparr>)"
    using fill_unopened [OF w(4), of ?f] f(1,2) w(2,3) id(1) by auto
  let ?u1 = "u\<lparr>up_dirty := min (up_dirty u) ?lo, up_window := w', up_skip := 0, up_out := up_out u @ skip_outs me ?lo ?f\<rparr>"
  have outs: "skip_outs me ?lo ?g @ skip_outs me ?g ?f = skip_outs me ?lo ?f"
    by (rule skip_outs_append) (use j(4) f(1) in auto)
  have loop: "for_lt ?lo ?f fill_skipped_one (u\<lparr>up_dirty := min (up_dirty u) ?lo\<rparr>) =
      Inr (u\<lparr>up_dirty := min (up_dirty u) ?lo, up_window := w', up_out := up_out u @ skip_outs me ?lo ?f\<rparr>)"
    using for_lt_split [of ?lo ?g ?f fill_skipped_one "u\<lparr>up_dirty := min (up_dirty u) ?lo\<rparr>"] j(4) f(1) w(1) w'(1) by (simp add: outs)
  have u1: "(if ?lo < up_dirty u then u\<lparr>up_dirty := ?lo\<rparr> else u) = u\<lparr>up_dirty := min (up_dirty u) ?lo\<rparr>" by (simp add: min_def)
  have "fill_skipped ?f u = Inr ?u1" unfolding fill_skipped_def Let_def u1 loop by simp
  from handle_local_join [OF k _ this] have eq: "handle_local G lb u = handle_local G lb ?u1" using j(4) f(1) by simp
  have inv: "upd_inv G ?s ?u1"
    using w'(4) upd_inv_frame(1) [where u = "?v\<lparr>up_window := w', up_out := up_out ?v @ skip_outs me ?g ?f\<rparr>" and x = 0]
    by (simp add: outs)
  have nof: "hi_bundles ?s ?f = fmempty"
    using upd_invD(5) [OF st(1)] f(1) by (simp add: join_history_later history_ok_def)
  have fit: "fits ?s (win_start ?u1) (win_len ?u1) ?f (fb_bundle lb)"
    using f w(2,3) w'(2,3) j(4) run_invD(7) [OF r] id(2) bundle_ofD(2) [OF lb]
    by (auto simp: fits_def nof disjoint_bundles_def nonneg_ids_def)
  have comp: "complete G ?s i" if "hi_base ?s < i" "i \<le> win_start ?u1" for i
    using st(3) [of i] that complete_join [of s ?lo i] w(2) w'(2) j(1) upd_invD(2) [OF st(1)] by simp
  obtain w2 v where v: "handle_local G lb ?u1 = Inr (fast_answered v)" "dw_first w2 = win_start ?u1"
      "advanced G t (local_absorbed lb ?u1 w2) v"
    using local_tail_ok [OF inv comp, of lb] fit upd_okD(2) [OF u] run_invD(4) [OF r] w(2) w'(2) unfolding t_def by auto
  note ad = advancedD [OF v(3)]
  obtain out where "up_out v = up_out (local_absorbed lb ?u1 w2) @ out" using v(3) unfolding advanced_def by blast
  then have "\<exists>out. up_out (fast_answered v) = up_out u @ skip_outs me ?lo ?f @ Broadcast lb # out"
    by (simp add: fast_answered_def Let_def)
  moreover have "run_inv G t (fast_answered v)"
    using ad run_invD(2) [OF r] by (simp add: run_inv_def t_def)
  moreover have "up_skip (fast_answered v) = 0" using ad(7) by (simp add: local_absorbed_def)
  ultimately show ?thesis using eq v(1,2) ad(3) w(2) w'(2) by (intro exI [of _ "fast_answered v"]) simp
qed

end

section \<open>Waiting for ever\<close>

text \<open>The bundles in an input.\<close>

fun carried :: "'e upd_in \<Rightarrow> 'e frame_bundle list" where
  "carried (LocalBundle b) = [b]"
| "carried (RemoteBundles bs) = bs"
| "carried _ = []"

text \<open>A bundle that announces engines but drops none, and has nothing of engine \<open>me\<close> for frame \<open>k\<close>.\<close>

definition no_help :: "engine_id \<Rightarrow> int \<Rightarrow> 'e frame_bundle \<Rightarrow> bool" where
  "no_help me k b \<longleftrightarrow> joining_map (map_of_nilable (fb_bundle b)) \<and>
     (fb_frame b = k \<longrightarrow> me \<notin> fmdom' (map_of_nilable (fb_bundle b)))"

text \<open>Engine \<open>me\<close> belongs to frame \<open>k\<close>, but the frame lacks its events.\<close>

definition starved :: "engine_id \<Rightarrow> int \<Rightarrow> int \<Rightarrow> ('e, 'g) history \<Rightarrow> bool" where
  "starved me j k s \<longleftrightarrow> history_joins s \<and> joined me j s \<and> j \<le> k \<and> hi_base s < k \<and> me \<notin> fmdom' (hi_bundles s k)"

lemma starved_incomplete: "starved me j k s \<Longrightarrow> \<not> complete G s k"
  using joined_known [of s me j k G] by (auto simp: starved_def complete_def)

lemma starved_stuck:
  assumes "starved me j k s" and "settled G s u"
  shows "win_start u < k"
  using starved_incomplete [OF assms(1), of G] settledD(3) [OF assms(2), of k] assms(1) by (force simp: starved_def)

text \<open>Further bundles of other engines.\<close>

definition member :: "engine_id \<Rightarrow> int \<Rightarrow> ('e, 'g) history \<Rightarrow> bool" where
  "member me j s \<longleftrightarrow> history_joins s \<and> joined me j s"

lemma add_member:
  assumes s: "member me j s" and b: "joining_map b" and new: "disjoint_bundles (hi_bundles s f) b"
  shows "member me j (add_bundle f b s)"
proof -
  have old: "fmlookup (hi_bundles s f ++\<^sub>f b) i = Some a" if "fmlookup (hi_bundles s f) i = Some a" for i a
  proof -
    have "i \<notin> fmdom' b" using fmdom'I [OF that] new by (auto simp: disjoint_bundles_def)
    then show ?thesis using that by (auto simp: fmlookup_dom'_iff fmlookup_dom_iff)
  qed
  have kept: "\<exists>k a. fmlookup (hi_bundles (add_bundle f b s) j) k = Some a \<and> EngineJoined me \<in> set (ae_engine a)"
    if "fmlookup (hi_bundles s j) k = Some a" "EngineJoined me \<in> set (ae_engine a)" for k a
    using that old [of k a] by (intro exI [of _ k] exI [of _ a]) (cases "j = f"; simp add: add_bundle_def)
  have "joined me j (add_bundle f b s)"
  proof (cases "j = hi_base s \<and> me \<in> fmdom' (hi_engines s)")
    case False
    then have "hi_base s < j" "\<exists>k a. fmlookup (hi_bundles s j) k = Some a \<and> EngineJoined me \<in> set (ae_engine a)"
      using s by (auto simp: member_def joined_def)
    then show ?thesis using kept unfolding joined_def add_bundle_simps(1) by blast
  qed (simp add: joined_def add_bundle_def)
  moreover have "history_joins (add_bundle f b s)"
    using s b by (auto simp: member_def history_joins_def joining_map_def add_bundle_def split: if_splits)
  ultimately show ?thesis by (simp add: member_def)
qed

lemma starved_member: "starved me j k s \<longleftrightarrow> member me j s \<and> j \<le> k \<and> hi_base s < k \<and> me \<notin> fmdom' (hi_bundles s k)"
  by (auto simp: starved_def member_def)

lemma accept_starved:
  assumes "starved me j k s" and "fb_frame b \<le> lo \<or> fits s lo len (fb_frame b) (fb_bundle b)" and "no_help me k b"
  shows "starved me j k (accept lo b s)"
  using assms add_member [of me j s "map_of_nilable (fb_bundle b)" "fb_frame b"]
  by (auto simp: starved_member accept_def fits_def no_help_def)

lemma accept_all_starved:
  assumes "starved me j k s" and "fits_all s lo len bs" and "\<forall>b \<in> set bs. no_help me k b"
  shows "starved me j k (fold (accept lo) bs s)"
  using assms
proof (induction bs arbitrary: s)
  case (Cons b bs)
  then have "starved me j k (accept lo b s)" using accept_starved [of me j k s b lo len] by simp
  then show ?case using Cons by simp
qed simp

lemma add_dummies_member:
  assumes "distinct ks" and "\<forall>k \<in> set ks. me \<notin> fmdom' (hi_bundles s k)" and "member me j s"
  shows "member me j (fold (\<lambda>k. add_bundle k (dummy_map me)) ks s)"
  using assms
proof (induction ks arbitrary: s)
  case (Cons k ks)
  have "member me j (add_bundle k (dummy_map me) s)"
    by (rule add_member) (use Cons.prems in \<open>auto simp: disjoint_bundles_def dummy_map_def joining_map_def only_joins_def no_events_def\<close>)
  then show ?case using Cons by simp
qed simp

lemma join_member:
  assumes "member me j s" and "\<And>k. lo \<le> k \<Longrightarrow> me \<notin> fmdom' (hi_bundles s k)"
  shows "member me j (join_history me lo hi s)"
  using assms add_dummies_member [of "[lo..hi - 1]" me s j] by (simp add: join_history_def)

context game_iface
begin

lemma round_keeps_starved:
  assumes r: "run_inv G t v" and sk: "up_skip v = 0" and st: "starved me j k t" and ok: "input_ok G i t v"
    and w: "upd_step G i v = Some (Inr w)" and b: "\<forall>b \<in> set (carried i). no_help me k b"
  shows "run_inv G (accept_input i v t) w \<and> up_skip w = 0 \<and> starved me j k (accept_input i v t)"
proof -
  have run: "run_inv G (accept_input i v t) w" using round_ok [OF r ok] w by auto
  have "up_skip w = 0 \<and> starved me j k (accept_input i v t)"
  proof (cases i)
    case (LocalBundle lb)
    have "starved me j k (accept_local lb v t)"
    proof (cases "ignored lb v")
      case False
      then have "fits t (win_start v) (win_len v) (fb_frame lb) (fb_bundle lb)"
        using ok LocalBundle sk by (simp add: local_ok_def Let_def joined_history_def)
      moreover have "accept_local lb v t = accept (win_start v) lb t"
        using False sk calculation by (simp add: accept_local_def accept_def joined_history_def fits_def)
      ultimately show ?thesis using accept_starved [OF st, of lb "win_start v"] b LocalBundle by auto
    qed (use st in \<open>simp add: accept_local_def\<close>)
    moreover have "up_skip w = 0" using local_news(4) [OF r, of lb w] ok w LocalBundle sk by simp
    ultimately show ?thesis using LocalBundle by simp
  next
    case (RemoteBundles bs)
    have "fold (noted me' lo) bs 0 = 0" for me' lo
      by (induction bs) (simp_all add: noted_def)
    then have "up_skip w = 0" using remote_news(4) [OF r, of bs w] ok w RemoteBundles sk by simp
    then show ?thesis using accept_all_starved [OF st] ok b RemoteBundles by simp
  next
    case (RequestState rq)
    then show ?thesis using w st sk by (auto simp: handle_request_def respond_from_def send_def seq_Inr_iff split: if_splits)
  next
    case InfoRequest
    then show ?thesis using w st sk by (auto simp: handle_info_def send_def seq_Inr_iff)
  next
    case ShutdownSignal
    then show ?thesis using w st sk by (auto simp: send_def split: if_splits)
  qed
  with run show ?thesis by blast
qed

lemma starved_forever:
  assumes "rounds G s u is t v" and "run_inv G s u" and "up_skip u = 0" and "starved me j k s"
    and "\<forall>i \<in> set is. \<forall>b \<in> set (carried i). no_help me k b"
  shows "run_inv G t v \<and> up_skip v = 0 \<and> starved me j k t"
  using assms
proof (induction rule: rounds.induct)
  case (rounds_more "is" t v i w)
  then have "run_inv G t v \<and> up_skip v = 0 \<and> starved me j k t" by simp
  then show ?case using round_keeps_starved [of t v me j k i w] rounds_more by simp
qed simp


text \<open>After the round above, the frame after the old \<open>global_frame\<close> lacks the events of its own engine.\<close>

lemma ahead_starved:
  assumes u: "upd_ok G me n heard s u" and k: "0 < up_skip u" and lb: "bundle_of me a lb" "only_joins a"
    and f: "up_global u + 1 < fb_frame lb"
  shows "starved me (up_skip u) (up_global u + 1)
    (add_bundle (fb_frame lb) (map_of_nilable (fb_bundle lb)) (join_history me (up_skip u) (up_global u + 1) s))"
proof -
  let ?s = "join_history me (up_skip u) (up_global u + 1) s" and ?b = "map_of_nilable (fb_bundle lb)"
  note j = join_facts [OF u k] and r = settledD(1) [OF run_invD(1) [OF upd_okD(1) [OF u]]]
  have base: "hi_base s < up_skip u" "joined me (up_skip u) s"
    using upd_okD(11) [OF u] k by (auto simp: membership_def)
  have none: "hi_bundles s i = fmempty" if "up_global u < i" for i
    using upd_invD(5) [OF r] that by (simp add: history_ok_def)
  have "member me (up_skip u) ?s"
    by (rule join_member) (use upd_ok_joins [OF u] base j(2) in \<open>simp_all add: member_def\<close>)
  moreover have later: "hi_bundles ?s i = fmempty" if "up_global u < i" for i
    using none [OF that] that by (simp add: join_history_later)
  moreover have "joining_map ?b" using lb(2) by (simp add: joining_map_def bundle_ofD(2) [OF lb(1)])
  ultimately have "member me (up_skip u) (add_bundle (fb_frame lb) ?b ?s)"
    using f by (intro add_member) (simp_all add: disjoint_bundles_def)
  then show ?thesis using f base(1) j(4) later [of "up_global u + 1"] by (simp add: starved_member)
qed

lemma stalls:
  assumes u: "upd_ok G me n heard s u" and k: "0 < up_skip u" and lb: "bundle_of me a lb" "only_joins a"
    and f: "up_global u + 1 < fb_frame lb" "fb_frame lb < win_start u + win_len u" "fb_frame lb + win_len u \<le> max_i32"
    and stale: "\<And>k. up_global u < k \<Longrightarrow> k < fb_frame lb \<Longrightarrow> \<exists>m. fd_bundle (fd_at u k) = Some m \<and> me \<notin> fmdom' m"
  shows "\<exists>t v out. handle_local G lb u = Inr v \<and> run_inv G t v \<and>
    up_out v = up_out u @ skip_outs me (up_skip u) (fb_frame lb) @ Broadcast lb # out \<and>
    (\<forall>is t' w. rounds G t v is t' w \<longrightarrow> (\<forall>i \<in> set is. \<forall>b \<in> set (carried i). no_help me (up_global u + 1) b) \<longrightarrow>
       win_start w \<le> up_global u)"
proof -
  let ?t = "add_bundle (fb_frame lb) (map_of_nilable (fb_bundle lb)) (join_history me (up_skip u) (up_global u + 1) s)"
  obtain v out where v: "handle_local G lb u = Inr v" "run_inv G ?t v" "up_skip v = 0"
      "up_out v = up_out u @ skip_outs me (up_skip u) (fb_frame lb) @ Broadcast lb # out"
    using ahead_round [OF u k lb(1) f] stale by blast
  have "win_start w \<le> up_global u"
    if "rounds G ?t v is t' w" "\<forall>i \<in> set is. \<forall>b \<in> set (carried i). no_help me (up_global u + 1) b" for "is" t' w
    using starved_forever [OF that(1) v(2,3) ahead_starved [OF u k lb f(1)] that(2)]
      starved_stuck [of me "up_skip u" "up_global u + 1" t' G w] run_invD(1) [of G t' w] by simp
  with v(1,2,4) show ?thesis by blast
qed

end

end
