(* ===== verification/Join_Properties.thy ===== *)
theory Join_Properties
  imports Cluster_Properties Join_Faults
begin

text \<open>
  Properties of a client that joins with its clock ahead of what it has heard: the steps that
  \<open>in_bounds\<close> leaves out of the runs of \<open>Cluster_Properties\<close>.
\<close>

section \<open>The next local bundle of an engine of a run\<close>

definition next_local :: "('e, 'g, 't, 'w) node \<Rightarrow> 'e frame_bundle option" where
  "next_local nd = (if nd_taken nd < length (bu_out (nd_bundler nd)) then Some (bu_out (nd_bundler nd) ! nd_taken nd) else None)"

lemma next_local_bundle:
  assumes "node_ok G me s nd" and "next_local nd = Some lb"
  shows "\<exists>a. bundle_of me a lb \<and> only_joins a"
proof -
  have "lb \<in> set (waiting nd)"
    using assms(2) by (auto simp: next_local_def waiting_def Cons_nth_drop_Suc [symmetric] split: if_splits)
  then show ?thesis using node_okD(2) [OF assms(1)] by (auto simp: bundler_sound_def waiting_def sound_events_def)
qed

lemma node_local_next: "next_local nd = Some lb \<Longrightarrow> node_local G enc nd =
  Some (seq (pass_on G enc lb (nd_updater nd, nd_comm nd)) (\<lambda>s.
    Inr (nd\<lparr>nd_updater := fst s, nd_comm := snd s, nd_taken := Suc (nd_taken nd)\<rparr>)))"
  by (auto simp: next_local_def node_local_def split: if_splits)

section \<open>Two late clients\<close>

text \<open>The client's clock makes the bundles of four frames before it hears that it joins on frame 3.\<close>

definition ex_late :: "test_event cluster_in list" where
  "ex_late = [Receive 1 0 0, Receive 1 0 1] @ replicate 8 (Input 1 Tick) @ [TakeLocal 1, TakeLocal 1, TakeLocal 1, Hear 1 [1, 0]]"

definition ex_ahead :: "(test_event, test_game, basic_ticker, test_game payload) cluster" where
  "ex_ahead = the (cluster_run ex_config ex_late ex_cluster)"

text \<open>Here the client has seen the window go round before it hears that it joins on frame 9.\<close>

definition ex_turn :: "nat \<Rightarrow> test_event cluster_in list" where
  "ex_turn k = [Input 0 Tick, Input 0 Tick, TakeLocal 0, Receive 1 0 k, Hear 1 [k]]"

definition ex_slow :: "test_event cluster_in list" where
  "ex_slow = [Input 0 (GameEvent (EventA 4)), Input 0 Tick, TakeLocal 0, Connect 55, Input 0 Tick, Input 0 Tick, TakeLocal 0,
     JoinBoot 0, Receive 1 0 0, Hear 1 [0]] @ concat (map ex_turn [1..<7]) @
     [Confirm 0, TakeEvent 0, Input 0 Tick, Input 0 Tick, TakeLocal 0, Receive 1 0 7] @
     replicate 24 (Input 1 Tick) @ replicate 10 (TakeLocal 1) @ [Hear 1 [7]]"

definition ex_stale :: "(test_event, test_game, basic_ticker, test_game payload) cluster" where
  "ex_stale = the (cluster_run ex_config ex_slow (cluster_start ex_engine))"

definition ex_node :: "(test_event, test_game, basic_ticker, test_game payload) cluster \<Rightarrow>
  (test_event, test_game, basic_ticker, test_game payload) node" where
  "ex_node c = the (client_node c 0)"

definition ex_next :: "(test_event, test_game, basic_ticker, test_game payload) cluster \<Rightarrow> test_event frame_bundle" where
  "ex_next c = the (next_local (ex_node c))"

text \<open>What the client's updater has when it takes its next local bundle.\<close>

definition ex_ahead_seen :: "(test_event, test_game, basic_ticker, test_game payload) cluster \<Rightarrow> bool" where
  "ex_ahead_seen c = (case client_node c 0 of None \<Rightarrow> False | Some nd \<Rightarrow>
     (case next_local nd of None \<Rightarrow> False | Some lb \<Rightarrow>
        let u = nd_updater nd in
        0 < up_skip u \<and> up_global u + 1 < fb_frame lb \<and> up_global u + 1 < win_start u + win_len u \<and>
        (case fd_bundle (fd_at u (up_global u + 1)) of None \<Rightarrow> True | Some m \<Rightarrow> False)))"

definition ex_stale_seen :: "(test_event, test_game, basic_ticker, test_game payload) cluster \<Rightarrow> bool" where
  "ex_stale_seen c = (ct_id (cl_clients c ! 0) = 55 \<and> (case client_node c 0 of None \<Rightarrow> False | Some nd \<Rightarrow>
     (case next_local nd of None \<Rightarrow> False | Some lb \<Rightarrow>
        let u = nd_updater nd in
        0 < up_skip u \<and> fb_frame lb = 12 \<and> up_global u = 9 \<and> win_start u = 8 \<and> win_len u = 6 \<and>
        (case fd_bundle (fd_at u 10) of None \<Rightarrow> False | Some m \<Rightarrow> EngineId 55 \<notin> fmdom' m) \<and>
        (case fd_bundle (fd_at u 11) of None \<Rightarrow> False | Some m \<Rightarrow> EngineId 55 \<notin> fmdom' m))))"

lemma seen_by_run:
  assumes "case cluster_run cf is c of None \<Rightarrow> False | Some c' \<Rightarrow> P c'"
  shows "cluster_run cf is c = Some (the (cluster_run cf is c))" and "P (the (cluster_run cf is c))"
  using assms by (auto split: option.splits)

lemma ex_ahead_eval: "case cluster_run ex_config ex_late ex_cluster of None \<Rightarrow> False | Some c \<Rightarrow> ex_ahead_seen c"
  by code_simp

lemma ex_stale_eval:
  "case cluster_run ex_config ex_slow (cluster_start ex_engine) of None \<Rightarrow> False | Some c \<Rightarrow> ex_stale_seen c"
  by code_simp

lemma ex_ahead_run:
  "cluster_run ex_config ((ex_joins @ ex_host_plays) @ ex_late) (cluster_start ex_engine) = Some ex_ahead"
  unfolding ex_ahead_def by (rule trans [OF cluster_run_append [OF ex_run1] seen_by_run(1) [OF ex_ahead_eval]])

lemma ex_stale_run: "cluster_run ex_config ex_slow (cluster_start ex_engine) = Some ex_stale"
  unfolding ex_stale_def by (rule seen_by_run(1) [OF ex_stale_eval])

lemma ex_late_seen: "ex_ahead_seen ex_ahead" "ex_stale_seen ex_stale"
  unfolding ex_ahead_def ex_stale_def by (rule seen_by_run(2) [OF ex_ahead_eval], rule seen_by_run(2) [OF ex_stale_eval])

lemma ex_late_nodes:
  "get_node ex_ahead (Suc 0) = Some (ex_node ex_ahead)" "get_node ex_stale (Suc 0) = Some (ex_node ex_stale)"
  "next_local (ex_node ex_ahead) = Some (ex_next ex_ahead)" "next_local (ex_node ex_stale) = Some (ex_next ex_stale)"
  using ex_late_seen by (auto simp: ex_ahead_seen_def ex_stale_seen_def ex_node_def ex_next_def split: option.splits)

lemma ex_ahead_facts:
  defines "u \<equiv> nd_updater (ex_node ex_ahead)"
  shows "0 < up_skip u" "up_global u + 1 < fb_frame (ex_next ex_ahead)" "up_global u + 1 < win_start u + win_len u"
    "fd_bundle (fd_at u (up_global u + 1)) = None"
  using ex_late_seen(1)
  by (auto simp: u_def ex_ahead_seen_def ex_node_def ex_next_def Let_def split: option.splits)

lemma ex_stale_facts:
  defines "u \<equiv> nd_updater (ex_node ex_stale)"
  shows "ct_id (cl_clients ex_stale ! 0) = 55" "0 < up_skip u" "fb_frame (ex_next ex_stale) = 12" "up_global u = 9"
    "win_start u = 8" "win_len u = 6" "\<exists>m. fd_bundle (fd_at u 10) = Some m \<and> EngineId 55 \<notin> fmdom' m"
    "\<exists>m. fd_bundle (fd_at u 11) = Some m \<and> EngineId 55 \<notin> fmdom' m"
  using ex_late_seen(2)
  by (auto simp: u_def ex_stale_seen_def ex_node_def ex_next_def Let_def split: option.splits)

section \<open>Properties\<close>

text \<open>C10: a client whose clock is ahead crashes: when its next local bundle is for a frame past the
  one after \<open>global_frame\<close>, and the slot of that frame was never used, the loop over the skipped
  frames absorbs into a nil map.\<close>

theorem ahead_client_panics:
  assumes "config_ok cf"
    and "new_net_engine (cf_ops cf) (cf_tstart cf) (cf_ticker cf) g (cf_frame_ms cf) (cf_max_frames cf) ping_up join_up = Inr e"
    and "cluster_run cf is (cluster_start e) = Some c" and "get_node c n = Some x" and "nd_updater x = u"
    and "next_local x = Some lb" and "0 < up_skip u" and "up_global u + 1 < fb_frame lb"
    and "up_global u + 1 < win_start u + win_len u" and "fd_bundle (fd_at u (up_global u + 1)) = None"
  shows "cluster_step cf (TakeLocal n) c = Some (Inl NilMapWrite)"
proof -
  obtain S where S: "cluster_inv cf S c" using cluster_reached [OF assms(1-3)] by blast
  have "upd_ok (cf_ops cf) (ident c n) (next_frame x) (mail (nd_heard x) x) (S n) u"
    using node_okD(1) [OF cluster_invD(3) [OF S assms(4)]] assms(5) by simp
  from game_iface.nil_slot_panics [OF config_okD(1) [OF assms(1)] this assms(7-10)]
  show ?thesis using assms(4,5) by (simp add: on_node_def node_local_next [OF assms(6)] pass_on_def)
qed

theorem ahead_client_panics_witness:
  "cluster_step ex_config (TakeLocal 1) ex_ahead = Some (Inl NilMapWrite)"
  using ahead_client_panics [OF ex_config_ok ex_host ex_ahead_run ex_late_nodes(1) refl ex_late_nodes(3)] ex_ahead_facts
  by simp

text \<open>C11: where the slots were used before, the same client does not crash but never plays: it
  announces empty events of its own for every skipped frame, loses those past \<open>global_frame\<close> when
  \<open>initFrameData\<close> opens the frames, and, as nobody else sends it its own events, its window never
  passes the old \<open>global_frame\<close>, whatever it receives later.\<close>

theorem ahead_client_stalls:
  assumes "config_ok cf"
    and "new_net_engine (cf_ops cf) (cf_tstart cf) (cf_ticker cf) g (cf_frame_ms cf) (cf_max_frames cf) ping_up join_up = Inr e"
    and "cluster_run cf is (cluster_start e) = Some c" and "get_node c n = Some x" and "nd_updater x = u"
    and "next_local x = Some lb" and "0 < up_skip u" and "up_global u + 1 < fb_frame lb"
    and "fb_frame lb < win_start u + win_len u" and "fb_frame lb + win_len u \<le> max_i32"
    and "\<And>k. up_global u < k \<Longrightarrow> k < fb_frame lb \<Longrightarrow> \<exists>m. fd_bundle (fd_at u k) = Some m \<and> ident c n \<notin> fmdom' m"
  shows "\<exists>s v out. handle_local (cf_ops cf) lb u = Inr v \<and> run_inv (cf_ops cf) s v \<and>
    up_out v = up_out u @ skip_outs (ident c n) (up_skip u) (fb_frame lb) @ Broadcast lb # out \<and>
    (\<forall>js t w. rounds (cf_ops cf) s v js t w \<longrightarrow>
       (\<forall>i \<in> set js. \<forall>b \<in> set (carried i). no_help (ident c n) (up_global u + 1) b) \<longrightarrow> win_start w \<le> up_global u)"
proof -
  obtain S where S: "cluster_inv cf S c" using cluster_reached [OF assms(1-3)] by blast
  note nd = cluster_invD(3) [OF S assms(4)]
  obtain a where a: "bundle_of (ident c n) a lb" "only_joins a" using next_local_bundle [OF nd assms(6)] by blast
  have "upd_ok (cf_ops cf) (ident c n) (next_frame x) (mail (nd_heard x) x) (S n) u"
    using node_okD(1) [OF nd] assms(5) by simp
  from game_iface.stalls [OF config_okD(1) [OF assms(1)] this assms(7) a assms(8-10)] assms(11)
  show ?thesis by blast
qed

theorem ahead_client_stalls_witness:
  "\<exists>s v. handle_local test_ops (ex_next ex_stale) (nd_updater (ex_node ex_stale)) = Inr v \<and> run_inv test_ops s v \<and>
    (\<forall>js t w. rounds test_ops s v js t w \<longrightarrow>
       (\<forall>i \<in> set js. \<forall>b \<in> set (carried i). no_help (EngineId 55) 10 b) \<longrightarrow> win_start w \<le> 9)"
proof -
  let ?u = "nd_updater (ex_node ex_stale)"
  have "f = 10 \<or> f = 11" if "9 < f" "f < 12" for f :: int using that by auto
  then have "\<exists>m. fd_bundle (fd_at ?u f) = Some m \<and> EngineId 55 \<notin> fmdom' m" if "9 < f" "f < 12" for f
    using that ex_stale_facts(7,8) by metis
  then show ?thesis
    using ahead_client_stalls [OF ex_config_ok ex_host ex_stale_run ex_late_nodes(2) refl ex_late_nodes(4) ex_stale_facts(2)]
    by (simp add: ex_stale_facts) blast
qed

end
