(* ===== verification/Spec2Isabelle.thy ===== *)
theory Spec2Isabelle
  imports Updater_Properties Component_Properties Network_Properties Cluster_Properties Join_Properties
begin

text \<open>
  A verification library of \<^bold>\<open>pnf\<close>, a Go library that keeps a deterministic game in step on several
  machines. Every engine runs the same game; only events travel over the network, and an engine
  that gets an event late rewinds its game to the event's frame and replays.

  \<^bold>\<open>The program's parts and how they interact.\<close> An \<open>Engine\<close> (\<open>src/pnf.go\<close>) is four components,
  each one goroutine around a \<open>select\<close>, and a network. \<open>ApplyEvent\<close> hands an event to the
  \<^emph>\<open>Bundler\<close> (\<open>core/bundler.go\<close>), which packs the events of one frame (some milliseconds of a
  \<^emph>\<open>Ticker\<close>, \<open>core/ticker.go\<close>) into a bundle and sends it to the \<^emph>\<open>Updater\<close> (\<open>core/updater.go\<close>).
  The updater stores bundles in a \<^emph>\<open>DataWindow\<close> of frames (\<open>core/window_data.go\<close>), replays what a
  late bundle makes stale, makes frames final once every known engine has sent its bundle, answers
  \<open>GetState\<close>, and passes local bundles and final frames on to the \<^emph>\<open>Communicator\<close>
  (\<open>core/communicator.go\<close>). The communicator sends bundles to all connections, forwards those of one
  connection to the others, hands remote bundles to the \<^emph>\<open>Auditor\<close> (\<open>core/auditor.go\<close>), which
  passes them to the updater, and bootstraps engines that join with a final frame. Connections
  come from the \<^emph>\<open>networks\<close>: one inside the process (\<open>core/network_mock.go\<close>), one over UDP and TCP
  (\<open>core/network_standard.go\<close>).

  \<^bold>\<open>How Go is modelled.\<close> \<open>Prelude\<close>: a statement that may panic returns \<open>go_panic + 'a\<close>
  (\<open>seq\<close> composes two, \<open>fold_res\<close> folds one over a list); a round of a \<open>select\<close> is a step function, and
  the order in which its cases fire is the list of inputs, which the theorems quantify over. A component's record is
  the struct and the local variables of its goroutine, plus what it has sent, oldest first. An
  \<open>int32\<close> or \<open>int64\<close> is an integer wrapped by \<open>i32\<close> or \<open>i64\<close> after every operation, Go's
  truncating division is \<open>sdiv\<close> and \<open>smod\<close>, a \<open>uint64\<close> is a 64-bit word; the counting loops over \<open>int32\<close> are
  \<open>for_lt\<close> and \<open>for_le\<close>, and \<open>sweep\<close> is the loop that removes entries of a slice by moving the last one
  into the gap. A Go map is a finite map, nil is \<open>None\<close>, and where the code ranges over a map the
  order is an argument. Games are objects: the updater has a heap, a pointer is an index.

  \<^bold>\<open>Theories.\<close>
  \<^item> \<open>Events\<close>: \<open>core/event.go\<close> and \<open>core/engine.go\<close>: \<open>EngineId\<close>, the engine events, \<open>EngineInfo\<close> and its \<open>Copy\<close>,
    \<open>EventBundle\<close>, \<open>AbsorbEventBundle\<close> (\<open>absorb\<close>) and \<open>each\<close> (\<open>each_with\<close>); the result of both is
    shown not to depend on the iteration order. \<open>Gob\<close>: \<open>GobEncode\<close> and \<open>GobDecode\<close> of \<open>AllEvents\<close>.
  \<^item> \<open>Windows\<close>: \<open>DataWindow\<close> and the generated \<open>Window\<close> of \<open>containers/window/uint64_string\<close>, two
    interpretations of the locale \<open>sliding_window\<close>.
  \<^item> \<open>Game\<close>: the interfaces \<open>Game\<close> and \<open>Event\<close> as the locale \<open>game_iface\<close>, interpreted on the \<open>TestGame\<close> of
    the repository's tests, and \<open>frame_step\<close>, the reference for what one frame computes.
  \<^item> \<open>Updater\<close>: every function of \<open>core/updater.go\<close> (\<open>handle_local\<close>, \<open>handle_remote\<close>, \<open>handle_request\<close> and \<open>handle_info\<close> are the
    cases of \<open>routine\<close>; \<open>advance\<close>, \<open>rethink\<close>, \<open>init_frame_data\<close>, \<open>fulfill_final_requests\<close>, \<open>start\<close>, \<open>bootstrap\<close>,
    \<open>nagle\<close>). The proofs are layered: \<open>Updater_Replay\<close> (the invariant \<open>settled\<close>: the state stands for a
    \<open>history\<close>, the bundles accepted so far, and the games of the window are its replay), \<open>Updater_Final\<close> (moving
    the window), \<open>Updater_Handlers\<close> (each handler returns and keeps the invariant), \<open>Updater_Start\<close>
    (\<open>Start\<close> and \<open>Bootstrap\<close> establish it), \<open>Updater_Runs\<close> (whole runs: the relation \<open>runs\<close>, with
    what the code leaves to its callers as \<open>input_ok\<close>: bundles inside the window and each only once, a join that
    takes effect ahead of the window and not ahead of what was heard, and no fast request for a frame the window has
    passed), \<open>Updater_Calls\<close> (the blocking calls \<open>RequestFinalGameState\<close>,
    \<open>RequestFastGameState\<close>, \<open>NumEngines\<close> and \<open>Shutdown\<close>, and when a call for a final state returns, over any rounds
    that follow: \<open>rounds\<close>), \<open>Updater_Agreement\<close> (two updaters with the same bundles agree),
    \<open>Updater_Faults\<close> (what happens outside \<open>input_ok\<close>).
  \<^item> \<open>Ticker\<close> (the locale \<open>ticker_iface\<close>, both tickers), \<open>Bundler\<close>, \<open>Auditor\<close>, \<open>Communicator\<close> (\<open>routine\<close>,
    \<open>bootstrapRoutine\<close>, \<open>connRoutine\<close>, \<open>Join\<close>): step functions, invariants of their runs. \<open>Handshake\<close>: what a
    joining connection is sent by the communicator of its host, over whole runs.
  \<^item> \<open>Network_Mock\<close> (the registry of hosts and the lanes of a connection), \<open>Network_Purge\<close> (the signals of
    \<open>Close\<close> and \<open>Purge\<close> on a mock connection, over every order of their receivers and of the deliveries under way),
    \<open>Network_Standard\<close> (the ping and join handshakes, the queues and the stream reader and writer of a connection),
    \<open>Hosting\<close> (\<open>routine\<close> and its requests, the ping routine, the accept loop, the goroutine that closes the listener, and
    the signals on \<open>kill\<close> between them, over every order of their steps),
    \<open>Tcp_Conn\<close> (both ends of a TCP connection, their routines and channels, over every order and every cut of the streams),
    \<open>Conn\<close> (the interface \<open>Conn\<close> of \<open>core/network.go\<close> as the locales \<open>conn_iface\<close> and \<open>ordered_conn\<close>, interpreted on
    the connections of both networks: what comes out is a choice of what was sent, as \<open>Cluster\<close> takes it to be).
  \<^item> \<open>Pnf\<close>: the wiring of \<open>makeUnstarted\<close>, the three constructors, \<open>ApplyEvent\<close>, \<open>GetState\<close>, and \<open>engine_run\<close>, which
    carries a bundler's output through the updater to the communicator.
  \<^item> The engines together. \<open>Node\<close> is one engine with its mail: which of the bundles that its bundler and its
    connections have brought were taken, and the invariant \<open>node_ok\<close> of an engine among others.
    \<open>Cluster\<close> is a host and any number of clients: \<open>cluster_step\<close> fires one component of one engine
    (an input, a round of an updater, a receive, a join, a bootstrap), and messages are picked by
    their index, so they may be delayed and overtake each other as the code's spawned sends can.
    \<open>Cluster_Invariant\<close> shows that every engine stands for a history of the bundles that engines
    have sent, each accepted once, and that the histories agree; \<open>in_bounds\<close> states what the code takes for granted.
    \<open>Cluster_Convergence\<close> shows that engines that have heard the same are at the same frame, and what an engine
    waits for; \<open>Cluster_Delivery\<close> that forwarding and bootstrapping lose no bundle, so that all engines meet
    once nothing is under way.
    \<open>Join_Faults\<close> shows what happens outside one of these bounds: a joining client whose clock is ahead of
    what it has heard, which panics or waits for ever.
  \<^item> \<open>Examples\<close> holds the concrete states of the witnesses; the properties are in \<open>Updater_Properties\<close>,
    \<open>Component_Properties\<close>, \<open>Network_Properties\<close>, \<open>Cluster_Properties\<close>, \<open>Join_Properties\<close>
    and here.

  \<^bold>\<open>Fuel and bounds.\<close> The loop of \<open>advance\<close> that moves the window over complete frames is
  \<open>finalize_loop\<close>, whose fuel is the number of frames between \<open>Start\<close> and \<open>global_frame\<close>: it moves the
  window once per turn and stops at \<open>global_frame\<close>, and the properties show that \<open>OutOfFuel\<close> is never returned. The
  properties of the updater hold while frames stay below the end of the \<open>int32\<close> range minus the
  window's length, those of the bundler while the clock fits an \<open>int64\<close>.

  \<^bold>\<open>Not modelled.\<close> \<open>core/base.go\<close> (\<open>RandomId\<close>, the gob wrappers) is third-party behaviour: an id is an
  input, the codec of messages a pair of arguments. \<open>core/network.go\<close> declares interfaces, of which \<open>Conn\<close> is a locale, and two unused types.
  What the packages \<open>net\<close> and \<open>time\<close> do at a call is an argument (which call fails, what arrives).
  A send on an unbuffered channel is recorded, not made to wait for its receiver, so deadlocks between
  goroutines are outside the model except where a property says what is waited for. The empty stubs of \<open>pnf.go\<close> (\<open>Host\<close>, \<open>FindHosts\<close>, \<open>JoinHost\<close>, \<open>Start\<close>, \<open>NewEngine\<close>) are left
  out. The template \<open>window.got\<close> is modelled by its two instances, and the tests by nothing but their \<open>TestGame\<close>.
\<close>

section \<open>A host on its own\<close>

text \<open>C8: a host engine fresh from \<open>NewNetEngine\<close>, fed any local events and ticks, never panics, and
  \<open>GetState\<close> returns the initial game with the events of every finished frame applied in order and
  one \<open>Think\<close> per frame; the frames finished are those the clock has passed, and their events and
  those of the running frame are the events received, in order.\<close>

theorem solo_engine:
  fixes G :: "('e, 'g) game_ops" and tstart :: "'t \<Rightarrow> go_panic + 't" and enc :: "'g payload \<Rightarrow> 'w option"
  assumes "game_iface G" and "tstart t = Inr t'" and "2 \<le> frame_ms" and "frame_ms < 2 ^ 31"
    and "1 \<le> max_frames" and "max_frames < max_i32" and "\<forall>i \<in> set is. solo_input i"
    and "frame_ms + 1 + ticks is < 2 ^ 63" and "(frame_ms + 1 + ticks is) div frame_ms + max_frames \<le> max_i32"
  shows "\<exists>e0 e v a gss. new_net_engine G tstart t g frame_ms max_frames ping_up join_up = Inr e0 \<and>
    engine_run G enc is e0 = Inr e \<and>
    get_state e = Inr v \<and> up_out v = up_out (en_updater e) @ [Respond 0 (Some a) (int (length gss))] \<and>
    a < length (up_heap v) \<and> up_heap v ! a = fold (solo_frame G) gss g \<and>
    int (length gss) = (frame_ms + 1 + ticks is) div frame_ms - 1 \<and>
    concat gss @ bu_game (en_bundler e) = received_game is"
proof -
  obtain e0 :: "('e, 'g, 't, 'w) engine" where e0: "new_net_engine G tstart t g frame_ms max_frames ping_up join_up = Inr e0" "solo G e0"
      "current_game e0 = g" "bu_frame (en_bundler e0) = 1" "bu_current_ms (en_bundler e0) = frame_ms + 1"
      "ep_frame_ms (bu_params (en_bundler e0)) = frame_ms" "win_len (en_updater e0) = max_frames + 1"
      "bu_out (en_bundler e0) = []" "bu_game (en_bundler e0) = []"
    using game_iface.new_net_engine_ok [OF assms(1), where tstart = tstart and t = t, OF assms(2-6)] by blast
  let ?b0 = "en_bundler e0" and ?me = "ep_id (bu_params (en_bundler e0))"
  have ok: "bundler_ok ?b0" "bu_running ?b0" using e0(2) by (auto simp: solo_def)
  have "(frame_ms + 1) div frame_ms = 1" using assms(3) by (simp add: div_add_self1)
  then have fr: "bu_frame ?b0 = bu_current_ms ?b0 div ep_frame_ms (bu_params ?b0)" by (simp add: e0)
  have "\<exists>e new. engine_run G enc is e0 = Inr e \<and> solo G e \<and> bundler_run is ?b0 = Inr (en_bundler e) \<and>
      bu_out (en_bundler e) = bu_out ?b0 @ new \<and>
      current_game e = fold (solo_frame G) (map (frame_events ?me) new) (current_game e0)"
    by (rule game_iface.solo_run [OF assms(1) e0(2) assms(7) _ _ fr]) (use assms(3,8,9) e0 in auto)
  then obtain e new where e: "engine_run G enc is e0 = Inr e" "solo G e" "bundler_run is ?b0 = Inr (en_bundler e)"
      "bu_out (en_bundler e) = bu_out ?b0 @ new"
      "current_game e = fold (solo_frame G) (map (frame_events ?me) new) (current_game e0)"
    by blast
  obtain b where b: "bundler_run is ?b0 = Inr b" "bu_params b = bu_params ?b0"
      "map fb_frame (bu_out b) = map fb_frame (bu_out ?b0) @ [bu_frame ?b0..bu_frame b - 1]"
      "sent_game b @ bu_game b = sent_game ?b0 @ bu_game ?b0 @ received_game is" "bu_frame ?b0 \<le> bu_frame b"
    using bundler_run_ok [OF ok, of "is"] by blast
  have eb: "en_bundler e = b" using e(3) b(1) by simp
  have clock: "bu_current_ms b = frame_ms + 1 + ticks is \<and> bu_frame b = bu_current_ms b div frame_ms"
    using bundler_clock [OF ok _ _ fr _ _ _ _ b(1)] assms(3,5,7,8,9) by (force simp: e0)
  let ?gss = "map (frame_events ?me) new"
  have "concat ?gss @ bu_game b = received_game is"
    using b(4) e(4) by (simp add: sent_game_def frame_events_def [abs_def] b(2) eb e0)
  moreover have "int (length new) = bu_frame b - 1"
  proof -
    have "length new = length [1..bu_frame b - 1]"
      using b(3) e(4) e0(4,8) eb by (metis append_Nil length_map list.simps(8))
    then show ?thesis using b(5) e0(4) by simp
  qed
  moreover obtain v a where "get_state e = Inr v" "up_out v = up_out (en_updater e) @ [Respond 0 (Some a) (bu_frame b - 1)]"
      "a < length (up_heap v)" "up_heap v ! a = current_game e"
  proof -
    let ?u = "en_updater e"
    obtain s where s: "run_inv G s ?u" and l: "win_start ?u = up_global ?u" "bu_frame b = up_global ?u + 1"
      using e(2) eb by (auto simp: solo_def lone_def)
    have "inwin ?u (win_start ?u)" using run_invD [OF s] by (auto simp: dw_inb_def)
    then obtain a where a: "a < length (up_heap ?u)" "fd_game (fd_at ?u (win_start ?u)) = Some a"
      using game_ptr [OF run_invD(5) [OF s]] by blast
    have "get_state e = Inr (send (Respond 0 (Some a) (win_start ?u)) ?u)"
      using handle_request_eq [OF s, of "\<lparr>rq_frame = -1, rq_chan = 0, rq_final = True\<rparr>"] a
      by (simp add: get_state_def answer_of_def)
    then show thesis using a l that by (auto simp: send_def current_game_def game_at_def)
  qed
  ultimately show ?thesis using e0(1,3) e(1,5) clock eb
    by - (rule exI [of _ e0], rule exI [of _ e], rule exI [of _ v], rule exI [of _ a], rule exI [of _ ?gss], simp)
qed

theorem solo_engine_witness:
  "\<exists>e0 e v a. new_net_engine test_ops basic_start new_basic_ticker ex_game 2 5 True True = Inr e0 \<and>
     engine_run test_ops Some [GameEvent (EventA 4), Tick, GameEvent (EventA 7), Tick, Tick, Tick] e0 = Inr e \<and>
     get_state e = Inr v \<and> up_out v = up_out (en_updater e) @ [Respond 0 (Some a) 2]"
proof -
  have "basic_start new_basic_ticker = Inr \<lparr>bt_ticker = True, bt_c = Some 0, bt_made = 1, bt_forwarders = 1\<rparr>"
    by (simp add: basic_start_def new_basic_ticker_def)
  from solo_engine [OF test.game_iface_axioms, where tstart = basic_start and t = new_basic_ticker, OF this, of 2 5
      "[GameEvent (EventA 4), Tick, GameEvent (EventA 7), Tick, Tick, Tick]" ex_game True True Some]
  show ?thesis by fastforce
qed

section \<open>Wiring\<close>

text \<open>The components made by \<open>makeUnstarted\<close> are wired together completely: each of the seven channels
  has exactly one component that sends on it and exactly one, a different one, that receives from it.\<close>

theorem wiring_one_to_one:
  "\<exists>a b. senders ch (make_unstarted p) = [a] \<and> receivers ch (make_unstarted p) = [b] \<and> a \<noteq> b"
  by (cases ch) (simp_all add: make_unstarted_def senders_def receivers_def)

end
